(* ===== verification/Prelude.thy ===== *)
theory Prelude
  imports Main "HOL-Library.Word" "HOL-Library.List_Lexorder" "HOL-Library.Signed_Division"
begin

text \<open>
  Shared ground of the development: bytes and byte strings, Go's integer types, the
  sentinel errors of every package as one datatype, the error monad helpers, the
  big-endian encodings of \<^verbatim>\<open>encoding/binary\<close>, and the two interfaces that
  several components share: fixed-width record encodings (\<open>fixed_codec\<close>) and
  self-delimiting encodings read off the front of a stream (\<open>stream_codec\<close>).
\<close>

unbundle bit_operations_syntax

section \<open>Hint collections\<close>

named_theorems go_int \<open>facts about wrapping Go integers inside their range\<close>
named_theorems wire_len \<open>lengths of encoded records\<close>

section \<open>Bytes and strings\<close>

text \<open>A Go \<^verbatim>\<open>string\<close> and a \<^verbatim>\<open>[]byte\<close> are both lists of 8-bit words.\<close>

type_synonym byte = "8 word"
type_synonym bytes = "8 word list"

definition str :: "string \<Rightarrow> bytes" where
  "str s = map of_char s"

lemma length_str [simp]: "length (str s) = length s"
  by (simp add: str_def)

definition has_prefix :: "bytes \<Rightarrow> bytes \<Rightarrow> bool" where
  "has_prefix s p = (take (length p) s = p)"

lemma has_prefix_append [simp]: "has_prefix (p @ s) p"
  by (simp add: has_prefix_def)

lemma has_prefixE: "has_prefix s p \<Longrightarrow> s = p @ drop (length p) s"
  unfolding has_prefix_def by (metis append_take_drop_id)

text \<open>Cutting a layout at fixed places.\<close>

lemma drop_split: "drop m s = take k (drop m s) @ drop (m + k) s"
  by (metis add.commute append_take_drop_id drop_drop)

text \<open>\<^verbatim>\<open>copy(dst, src)\<close>: the first bytes of \<open>dst\<close> are overwritten, the length stays.\<close>

definition copy :: "'a list \<Rightarrow> 'a list \<Rightarrow> 'a list" where
  "copy dst src = take (length dst) src @ drop (length src) dst"

lemma length_copy [simp]: "length (copy dst src) = length dst"
  by (simp add: copy_def)

lemma copy_same_length: "length src = length dst \<Longrightarrow> copy dst src = src"
  by (simp add: copy_def)

text \<open>\<^verbatim>\<open>copy(dst[off:], src)\<close> on a slice that starts at \<open>off\<close>.\<close>

definition copy_at :: "nat \<Rightarrow> 'a list \<Rightarrow> 'a list \<Rightarrow> 'a list" where
  "copy_at off dst src = take off dst @ copy (drop off dst) src"

lemma length_copy_at [simp]: "length (copy_at off dst src) = length dst"
  by (simp add: copy_at_def)

lemma nth_copy_at:
  assumes "off + length src \<le> length dst" and "i < length dst"
  shows "copy_at off dst src ! i =
    (if off \<le> i \<and> i < off + length src then src ! (i - off) else dst ! i)"
  using assms by (auto simp: copy_at_def copy_def nth_append min_def)

section \<open>Splitting and joining at a separator\<close>

text \<open>\<^verbatim>\<open>strings.Split\<close> at a byte and \<^verbatim>\<open>strings.Join\<close>.\<close>

fun split_on :: "byte \<Rightarrow> bytes \<Rightarrow> bytes list" where
  "split_on d [] = [[]]"
| "split_on d (b # s) =
     (if b = d then [] # split_on d s
      else case split_on d s of [] \<Rightarrow> [[b]] | x # xs \<Rightarrow> (b # x) # xs)"

fun join_with :: "bytes \<Rightarrow> bytes list \<Rightarrow> bytes" where
  "join_with sep [] = []"
| "join_with sep [x] = x"
| "join_with sep (x # y # xs) = x @ sep @ join_with sep (y # xs)"

lemma split_on_no_sep: "d \<notin> set s \<Longrightarrow> split_on d s = [s]"
  by (induction s) auto

lemma split_on_append: "d \<notin> set s \<Longrightarrow> split_on d (s @ d # t) = s # split_on d t"
  by (induction s) auto

lemma split_on_nonempty: "split_on d s \<noteq> []"
  by (cases s) (auto split: list.splits)

lemma split_on_app: "split_on d (s @ d # t) = split_on d s @ split_on d t"
  by (induction s) (auto split: list.splits simp: split_on_nonempty)

lemma split_join:
  "es \<noteq> [] \<Longrightarrow> \<forall>e\<in>set es. d \<notin> set e \<Longrightarrow> split_on d (join_with [d] es) = es"
  by (induction "[d]" es rule: join_with.induct) (auto simp: split_on_no_sep split_on_append)

lemma join_with_app:
  "es \<noteq> [] \<Longrightarrow> fs \<noteq> [] \<Longrightarrow>
    join_with sep (es @ fs) = join_with sep es @ sep @ join_with sep fs"
  by (induction sep es rule: join_with.induct) (auto simp: neq_Nil_conv)

lemma split_on_elems: "e \<in> set (split_on d s) \<Longrightarrow> d \<notin> set e"
  by (induction s arbitrary: e) (auto split: if_splits list.splits)

section \<open>Go integers\<close>

text \<open>
  \<^verbatim>\<open>int64\<close> and \<^verbatim>\<open>int\<close> (64 bits on the platforms the program is built for) are
  integers kept in range by \<open>wrap64\<close>, the two's complement wrap-around of the result of
  each arithmetic operation. \<open>wrap64_sint\<close> ties it to 64-bit words. Division truncates:
  \<open>sdiv\<close> and \<open>smod\<close> of the library.
\<close>

definition wrap64 :: "int \<Rightarrow> int" where
  "wrap64 x = (x + 2 ^ 63) mod 2 ^ 64 - 2 ^ 63"

definition int64_ok :: "int \<Rightarrow> bool" where
  "int64_ok x = (- (2 ^ 63) \<le> x \<and> x < 2 ^ 63)"

lemma wrap64_sint: "wrap64 x = sint (word_of_int x :: 64 word)"
  by (simp add: wrap64_def sint_word_ariths signed_take_bit_eq_take_bit_shift take_bit_eq_mod
      sint_sbintrunc')

lemma wrap64_id [go_int]: "int64_ok x \<Longrightarrow> wrap64 x = x"
  by (simp add: wrap64_def int64_ok_def)

lemma wrap64_nonneg_id [go_int]: "0 \<le> x \<Longrightarrow> x < 2 ^ 63 \<Longrightarrow> wrap64 x = x"
  by (simp add: wrap64_id int64_ok_def)

lemma int64_ok_wrap64 [simp]: "int64_ok (wrap64 x)"
  using pos_mod_bound [of "2 ^ 64" "x + 2 ^ 63"] pos_mod_sign [of "2 ^ 64" "x + 2 ^ 63"]
  by (simp add: wrap64_def int64_ok_def)

text \<open>\<^verbatim>\<open>make([]byte, n)\<close> panics for a negative length and for one above the
  address space of the runtime (\<open>maxAlloc\<close>, 2 to the 48 on 64-bit platforms).\<close>

definition max_alloc :: int where
  "max_alloc = 2 ^ 48"

section \<open>Errors\<close>

text \<open>
  One constructor per sentinel error of the source (what \<^verbatim>\<open>errors.Is\<close> sees; the
  text a \<^verbatim>\<open>fmt.Errorf\<close> wraps around it is dropped), the package prefixed where two
  packages use one name; \<open>ErrOther\<close> stands for errors the source builds without a
  sentinel or gets from the operating system, \<open>Panic\<close> for a runtime panic. None of the
  program's goroutines recovers, so a panic ends the process.
\<close>

datatype error =
    ErrUnexpectedEOF | ErrInvalidFormat | ErrInvalidInteger | ErrInvalidString
  | ErrUnsupportedType
  | ErrInvalidScheme | ErrInvalidQuery | ErrMissingInfoHash | ErrInvalidInfoHash
  | ErrInvalidMetadata | ErrHashMismatch
  | ErrMessageTooLarge | Peer_ErrUnexpectedEOF
  | ErrBadProtocol | ErrBadInfoHash | ErrNoExtension | ErrBadExtHandshake | ErrNoUtMetadata
  | ErrNoMetadataSize | ErrBadMetadataResp
  | ErrBadResponse | ErrTrackerFailure | ErrUnsupportedProto
  | ErrTimeout | ErrNotListening
  | ErrNoPeers | ErrNoMetadata | ErrAllFailed
  | ErrChoked | ErrPieceHash
  | ErrOther
  | Panic

lemma sum_case_Inr_iff:
  "(case r of Inl e \<Rightarrow> Inl e | Inr x \<Rightarrow> f x) = Inr y \<longleftrightarrow> (\<exists>x. r = Inr x \<and> f x = Inr y)"
  by (cases r) auto

lemma case_option_Inr_iff:
  "(case r of None \<Rightarrow> Inl e | Some x \<Rightarrow> f x) = Inr y \<longleftrightarrow> (\<exists>x. r = Some x \<and> f x = Inr y)"
  by (cases r) auto

text \<open>\<^verbatim>\<open>make([]byte, n)\<close>.\<close>

definition make_bytes :: "int \<Rightarrow> error + bytes" where
  "make_bytes n = (if n < 0 \<or> n > max_alloc then Inl Panic else Inr (replicate (nat n) 0))"

lemma make_bytes_iff: "make_bytes n = Inr b \<longleftrightarrow> 0 \<le> n \<and> n \<le> max_alloc \<and> b = replicate (nat n) 0"
  by (auto simp: make_bytes_def)

section \<open>Fixed chunks of a byte string\<close>

text \<open>The loop \<^verbatim>\<open>for i := 0; i+w <= len(s); i += w\<close> over \<^verbatim>\<open>s[i:i+w]\<close>.\<close>

function chunks :: "nat \<Rightarrow> 'a list \<Rightarrow> 'a list list" where
  "chunks w xs = (if w = 0 \<or> length xs < w then [] else take w xs # chunks w (drop w xs))"
  by pat_completeness auto
termination by (relation "measure (\<lambda>(w, xs). length xs)") auto

declare chunks.simps [simp del]

lemma chunks_Nil [simp]: "chunks w [] = []"
  by (subst chunks.simps) auto

lemma chunks_append:
  assumes "length ys = w" and "0 < w"
  shows "chunks w (ys @ xs) = ys # chunks w xs"
proof -
  from assms have "\<not> (w = 0 \<or> length (ys @ xs) < w)" by simp
  then show ?thesis using assms by (simp only: chunks.simps [of w "ys @ xs"] if_False) simp
qed

lemma chunks_short: "length xs < w \<Longrightarrow> chunks w xs = []"
  by (subst chunks.simps) simp

lemma length_chunks: "0 < w \<Longrightarrow> length (chunks w xs) = length xs div w"
proof (induction w xs rule: chunks.induct)
  case (1 w xs)
  then show ?case
    by (subst chunks.simps) (auto simp: div_if [of "length xs"])
qed

lemma set_chunks_length: "c \<in> set (chunks w xs) \<Longrightarrow> length c = w"
proof (induction w xs rule: chunks.induct)
  case (1 w xs)
  from "1.prems" have ok: "\<not> (w = 0 \<or> length xs < w)"
    by (subst (asm) chunks.simps) (auto split: if_splits)
  with "1.prems" have "c = take w xs \<or> c \<in> set (chunks w (drop w xs))"
    by (subst (asm) chunks.simps) simp
  with ok "1.IH" [OF ok] show ?case by auto
qed

lemma concat_chunks: "0 < w \<Longrightarrow> w dvd length xs \<Longrightarrow> concat (chunks w xs) = xs"
proof (induction w xs rule: chunks.induct)
  case (1 w xs)
  show ?case
  proof (cases "length xs < w")
    case True
    with "1.prems" have "length xs = 0"
      using dvd_imp_le by fastforce
    then show ?thesis by simp
  next
    case False
    with "1.prems" have "w dvd length (drop w xs)" by (simp add: dvd_diff_nat)
    with "1.IH" "1.prems" False show ?thesis by (subst chunks.simps) simp
  qed
qed

section \<open>Big-endian integers\<close>

definition put_u16 :: "16 word \<Rightarrow> bytes" where
  "put_u16 v = [ucast (drop_bit 8 v), ucast v]"

definition put_u32 :: "32 word \<Rightarrow> bytes" where
  "put_u32 v = [ucast (drop_bit 24 v), ucast (drop_bit 16 v), ucast (drop_bit 8 v), ucast v]"

definition put_u64 :: "64 word \<Rightarrow> bytes" where
  "put_u64 v = [ucast (drop_bit 56 v), ucast (drop_bit 48 v), ucast (drop_bit 40 v),
     ucast (drop_bit 32 v), ucast (drop_bit 24 v), ucast (drop_bit 16 v), ucast (drop_bit 8 v),
     ucast v]"

text \<open>Reading, as \<^verbatim>\<open>binary.BigEndian\<close> does: each byte shifted to its place. The
  callers pass slices of the right length.\<close>

fun be_word :: "bytes \<Rightarrow> 'a::len word" where
  "be_word [] = 0"
| "be_word (b # bs) = push_bit (8 * length bs) (ucast b) OR be_word bs"

abbreviation get_u16 :: "bytes \<Rightarrow> 16 word" where "get_u16 \<equiv> be_word"
abbreviation get_u32 :: "bytes \<Rightarrow> 32 word" where "get_u32 \<equiv> be_word"
abbreviation get_u64 :: "bytes \<Rightarrow> 64 word" where "get_u64 \<equiv> be_word"

lemma length_put_u16 [simp, wire_len]: "length (put_u16 v) = 2"
  by (simp add: put_u16_def)

lemma length_put_u32 [simp, wire_len]: "length (put_u32 v) = 4"
  by (simp add: put_u32_def)

lemma length_put_u64 [simp, wire_len]: "length (put_u64 v) = 8"
  by (simp add: put_u64_def)

text \<open>One bit of the value read, and of any big-endian encoding: the round trips follow
  bit by bit.\<close>

lemma bit_be_word:
  "bit (be_word bs :: 'a::len word) n \<longleftrightarrow>
    n < LENGTH('a) \<and> n div 8 < length bs \<and> bit (bs ! (length bs - 1 - n div 8)) (n mod 8)"
proof (induction bs)
  case Nil
  then show ?case by simp
next
  case (Cons b bs)
  consider "n div 8 < length bs" | "n div 8 = length bs" | "length bs < n div 8"
    by linarith
  then show ?case
  proof cases
    case 1
    then have "n < 8 * length bs"
      and "length bs - n div 8 = Suc (length bs - Suc (n div 8))" by linarith+
    with 1 Cons.IH show ?thesis by (auto simp: bit_simps)
  next
    case 2
    then have "8 * length bs \<le> n" "n - 8 * length bs = n mod 8"
      using minus_mult_div_eq_mod [of n 8] by auto
    with 2 Cons.IH show ?thesis by (auto simp: bit_simps)
  next
    case 3
    then have "8 \<le> n - 8 * length bs" by linarith
    then have "\<not> bit b (n - 8 * length bs)"
      using bit_imp_le_length [of b "n - 8 * length bs"] by auto
    with 3 Cons.IH show ?thesis by (auto simp: bit_simps)
  qed
qed

definition put_be :: "nat \<Rightarrow> 'a::len word \<Rightarrow> bytes" where
  "put_be k v = map (\<lambda>i. ucast (drop_bit (8 * (k - 1 - i)) v)) [0..<k]"

lemma be_word_put_be:
  assumes k: "LENGTH('a) = 8 * k"
  shows "be_word (put_be k v) = (v :: 'a::len word)"
proof (rule bit_word_eqI)
  fix n
  assume n: "n < LENGTH('a)"
  with k have "n div 8 < k" by linarith
  then have "k - Suc (k - Suc (n div 8)) = n div 8" by linarith
  moreover have "8 * (n div 8) + n mod 8 = n" by simp
  ultimately show "bit (be_word (put_be k v) :: 'a word) n = bit v n"
    using n k \<open>n div 8 < k\<close>
    by (simp add: bit_be_word put_be_def bit_simps)
qed

lemma put_u16_be: "put_u16 v = put_be 2 v"
  by (simp add: put_u16_def put_be_def upt_rec)

lemma put_u32_be: "put_u32 v = put_be 4 v"
  by (simp add: put_u32_def put_be_def upt_rec)

lemma put_u64_be: "put_u64 v = put_be 8 v"
  by (simp add: put_u64_def put_be_def upt_rec)

lemma get_put_u16 [simp]: "get_u16 (put_u16 v) = v"
  by (simp add: put_u16_be be_word_put_be)

lemma get_put_u32 [simp]: "get_u32 (put_u32 v) = v"
  by (simp add: put_u32_be be_word_put_be)

lemma get_put_u64 [simp]: "get_u64 (put_u64 v) = v"
  by (simp add: put_u64_be be_word_put_be)

end
