(* ===== verification/Codec.thy ===== *)
theory Codec
  imports Prelude
begin

text \<open>
  The two wire interfaces of the program as locales. A \<open>fixed_codec\<close> is a record of
  a fixed width (a compact peer, a compact node, a piece hash); tables of such records are
  concatenated and cut with \<open>chunks\<close>. A \<open>stream_codec\<close> delimits itself (a bencoded
  value, a peer message), so a reader takes it off the front of a stream and leaves the rest.
  \<open>norm\<close> is what the reader sees of the value written, \<open>valid\<close> the values that the
  format can carry.
\<close>

section \<open>Records of a fixed width\<close>

locale fixed_codec =
  fixes enc :: "'a \<Rightarrow> bytes"
    and dec :: "bytes \<Rightarrow> 'b"
    and norm :: "'a \<Rightarrow> 'b"
    and w :: nat
    and valid :: "'a \<Rightarrow> bool"
  assumes w_pos: "0 < w"
    and enc_width: "valid x \<Longrightarrow> length (enc x) = w"
    and dec_enc: "valid x \<Longrightarrow> dec (enc x) = norm x"
begin

lemma chunks_enc: "\<forall>x\<in>set xs. valid x \<Longrightarrow> chunks w (concat (map enc xs)) = map enc xs"
  by (induction xs) (simp_all add: chunks_append enc_width w_pos)

lemma table_roundtrip:
  "\<forall>x\<in>set xs. valid x \<Longrightarrow> map dec (chunks w (concat (map enc xs))) = map norm xs"
  by (simp add: chunks_enc dec_enc)

lemma length_table: "\<forall>x\<in>set xs. valid x \<Longrightarrow> length (concat (map enc xs)) = w * length xs"
  by (induction xs) (simp_all add: enc_width)

lemma enc_inj: "valid x \<Longrightarrow> valid y \<Longrightarrow> enc x = enc y \<Longrightarrow> norm x = norm y"
  by (metis dec_enc)

end

section \<open>Self-delimiting values\<close>

text \<open>Reading \<open>n\<close> values in a row off a stream, stopping at the first error.\<close>

fun read_seq :: "(bytes \<Rightarrow> error + 'b \<times> bytes) \<Rightarrow> nat \<Rightarrow> bytes \<Rightarrow> error + 'b list \<times> bytes" where
  "read_seq dec 0 s = Inr ([], s)"
| "read_seq dec (Suc n) s =
     (case dec s of Inl e \<Rightarrow> Inl e
      | Inr (x, s') \<Rightarrow>
          (case read_seq dec n s' of Inl e \<Rightarrow> Inl e | Inr (xs, s'') \<Rightarrow> Inr (x # xs, s'')))"

locale stream_codec =
  fixes enc :: "'a \<Rightarrow> bytes"
    and dec :: "bytes \<Rightarrow> error + 'b \<times> bytes"
    and norm :: "'a \<Rightarrow> 'b"
    and valid :: "'a \<Rightarrow> bool"
  assumes read_enc: "valid x \<Longrightarrow> dec (enc x @ rest) = Inr (norm x, rest)"
begin

lemma prefix_free:
  assumes "valid x" and "valid y" and "enc x @ r = enc y @ s"
  shows "norm x = norm y \<and> r = s"
  using read_enc [OF assms(1), of r] read_enc [OF assms(2), of s] assms(3) by simp

lemma enc_inj: "valid x \<Longrightarrow> valid y \<Longrightarrow> enc x = enc y \<Longrightarrow> norm x = norm y"
  using prefix_free [of x y "[]" "[]"] by simp

lemma read_stream:
  "\<forall>x\<in>set xs. valid x \<Longrightarrow>
    read_seq dec (length xs) (concat (map enc xs) @ rest) = Inr (map norm xs, rest)"
  by (induction xs) (simp_all add: read_enc)

lemma stream_inj:
  assumes "\<forall>x\<in>set xs. valid x" and "\<forall>x\<in>set ys. valid x" and "length xs = length ys"
    and "concat (map enc xs) = concat (map enc ys)"
  shows "map norm xs = map norm ys"
  using read_stream [OF assms(1), of "[]"] read_stream [OF assms(2), of "[]"] assms(3,4) by simp

end

section \<open>The big-endian integers are records of a fixed width\<close>

interpretation u16: fixed_codec put_u16 get_u16 id 2 "\<lambda>_. True"
  by unfold_locales simp_all

interpretation u32: fixed_codec put_u32 get_u32 id 4 "\<lambda>_. True"
  by unfold_locales simp_all

interpretation u64: fixed_codec put_u64 get_u64 id 8 "\<lambda>_. True"
  by unfold_locales simp_all

end
