(* ===== verification/GoMap.thy ===== *)
theory GoMap
  imports Prelude
begin

text \<open>
  Go maps with ordered keys. A map is kept as its list of entries in strictly increasing
  key order, so that equal maps are equal values and the loops that sort the keys first
  (\<^verbatim>\<open>sort.Strings\<close> in the encoder) run over the list as it is. \<open>go_map\<close> is the
  interface: what a lookup returns after an insert or a delete.
\<close>

type_synonym ('k, 'v) gomap = "('k \<times> 'v) list"

definition map_ok :: "('k::linorder, 'v) gomap \<Rightarrow> bool" where
  "map_ok m = sorted_wrt (<) (map fst m)"

abbreviation mget :: "('k, 'v) gomap \<Rightarrow> 'k \<Rightarrow> 'v option" where
  "mget \<equiv> map_of"

fun mput :: "'k::linorder \<Rightarrow> 'v \<Rightarrow> ('k, 'v) gomap \<Rightarrow> ('k, 'v) gomap" where
  "mput k v [] = [(k, v)]"
| "mput k v ((k', v') # m) =
     (if k < k' then (k, v) # (k', v') # m
      else if k = k' then (k, v) # m
      else (k', v') # mput k v m)"

definition mdel :: "'k \<Rightarrow> ('k, 'v) gomap \<Rightarrow> ('k, 'v) gomap" where
  "mdel k m = filter (\<lambda>e. fst e \<noteq> k) m"

lemma map_ok_Nil [simp]: "map_ok []"
  by (simp add: map_ok_def)

lemma map_ok_Cons: "map_ok ((k, v) # m) \<longleftrightarrow> (\<forall>k'\<in>fst ` set m. k < k') \<and> map_ok m"
  by (auto simp: map_ok_def)

lemma fst_set_mput: "fst ` set (mput k v m) = insert k (fst ` set m)"
  by (induction k v m rule: mput.induct) auto

lemma map_ok_mput: "map_ok m \<Longrightarrow> map_ok (mput k v m)"
  by (induction k v m rule: mput.induct) (auto simp: map_ok_Cons fst_set_mput)

lemma mget_mput: "map_ok m \<Longrightarrow> mget (mput k v m) = (mget m)(k \<mapsto> v)"
  by (induction k v m rule: mput.induct) (auto simp: map_ok_Cons fun_eq_iff)

lemma map_ok_mdel: "map_ok m \<Longrightarrow> map_ok (mdel k m)"
  by (induction m) (auto simp: map_ok_Cons mdel_def)

lemma mget_mdel: "mget (mdel k m) = (mget m)(k := None)"
  by (induction m) (auto simp: mdel_def fun_eq_iff)

text \<open>Entries that come in increasing key order are appended at the end.\<close>

lemma mput_snoc: "\<forall>k'\<in>fst ` set m. k' < k \<Longrightarrow> mput k v m = m @ [(k, v)]"
  by (induction k v m rule: mput.induct) (auto dest: less_asym)

lemma set_mput_subset: "set (mput k v m) \<subseteq> insert (k, v) (set m)"
  by (induction k v m rule: mput.induct) auto

lemma map_ok_append:
  "map_ok (m @ m') \<longleftrightarrow>
    map_ok m \<and> map_ok m' \<and> (\<forall>k\<in>fst ` set m. \<forall>k'\<in>fst ` set m'. k < k')"
  by (auto simp: map_ok_def sorted_wrt_append)

lemma map_ok_distinct: "map_ok m \<Longrightarrow> distinct (map fst m)"
  by (simp add: map_ok_def strict_sorted_iff)

lemma map_ok_sort_key: "map_ok m \<Longrightarrow> sort_key fst m = m"
  by (simp add: map_ok_def sort_key_id_if_sorted strict_sorted_iff)

text \<open>Two maps with the same lookups are the same list of entries.\<close>

lemma map_ok_entries: "map_ok m \<Longrightarrow> map (\<lambda>k. (k, the (mget m k))) (map fst m) = m"
  by (force dest: map_ok_distinct intro: map_idI)

lemma map_ok_ext:
  assumes "map_ok m" and "map_ok m'" and "mget m = mget m'"
  shows "m = m'"
proof -
  have "map fst m = map fst m'"
    using assms by (metis dom_map_of_conv_image_fst list.set_map map_ok_def strict_sorted_equal)
  with assms show ?thesis
    using map_ok_entries [of m] map_ok_entries [of m'] by simp
qed

section \<open>The interface\<close>

locale go_map =
  fixes get :: "'m \<Rightarrow> 'k \<Rightarrow> 'v option"
    and put :: "'k \<Rightarrow> 'v \<Rightarrow> 'm \<Rightarrow> 'm"
    and del :: "'k \<Rightarrow> 'm \<Rightarrow> 'm"
    and empty :: 'm
    and ok :: "'m \<Rightarrow> bool"
  assumes get_empty: "get empty = (\<lambda>_. None)"
    and ok_empty: "ok empty"
    and get_put: "ok m \<Longrightarrow> get (put k v m) = (get m)(k \<mapsto> v)"
    and ok_put: "ok m \<Longrightarrow> ok (put k v m)"
    and get_del: "ok m \<Longrightarrow> get (del k m) = (get m)(k := None)"
    and ok_del: "ok m \<Longrightarrow> ok (del k m)"
begin

text \<open>A loop that stores entries one after the other: the later entry of a key wins.\<close>

lemma ok_put_all: "ok m \<Longrightarrow> ok (foldl (\<lambda>m (k, v). put k v m) m kvs)"
  by (induction kvs arbitrary: m) (auto simp: ok_put)

lemma get_put_all:
  "ok m \<Longrightarrow> get (foldl (\<lambda>m (k, v). put k v m) m kvs) = get m ++ map_of (rev kvs)"
  by (induction kvs arbitrary: m) (auto simp: ok_put get_put map_add_def fun_eq_iff
      split: option.splits)

lemma put_then_del: "ok m \<Longrightarrow> get m k = None \<Longrightarrow> get (del k (put k v m)) = get m"
  by (auto simp: get_del get_put ok_put)

text \<open>A loop that stores only keys the map does not have: the first entry of a key wins.\<close>

lemma ok_add_new:
  "ok m \<Longrightarrow> ok (foldl (\<lambda>m (k, v). if get m k = None then put k v m else m) m kvs)"
  by (induction kvs arbitrary: m) (auto simp: ok_put)

lemma get_add_new:
  "ok m \<Longrightarrow> get (foldl (\<lambda>m (k, v). if get m k = None then put k v m else m) m kvs) =
     map_of kvs ++ get m"
  by (induction kvs arbitrary: m) (auto simp: ok_put get_put map_add_def fun_eq_iff
      split: option.splits)

end

interpretation gm: go_map "mget :: ('k::linorder, 'v) gomap \<Rightarrow> 'k \<Rightarrow> 'v option" mput mdel "[]" map_ok
  by unfold_locales (simp_all add: mget_mput map_ok_mput mget_mdel map_ok_mdel)

end
