(* ===== verification/Bencode.thy ===== *)
theory Bencode
  imports Prelude Codec GoMap
begin

text \<open>
  The package \<^verbatim>\<open>bencode\<close>: Go values, the decoder over a byte reader (the reader is
  the list of bytes not read yet) and the encoder. The decoder has no fuel: its termination
  is proved, from the fact that a successful read leaves a shorter input.
\<close>

section \<open>Go values\<close>

text \<open>
  The dynamic types the package handles, in the order of the type switch of
  \<^verbatim>\<open>encodeValue\<close>; \<open>GOther\<close> is a value of any other type.
\<close>

datatype any =
    GInt int | GInt64 int | GString bytes | GBytes bytes | GList "any list"
  | GMap "(bytes \<times> any) list" | GOther

text \<open>Type assertions \<^verbatim>\<open>v.(T)\<close> on the value of a map entry that may be absent.\<close>

fun as_string :: "any option \<Rightarrow> bytes option" where
  "as_string (Some (GString s)) = Some s"
| "as_string _ = None"

fun as_int64 :: "any option \<Rightarrow> int option" where
  "as_int64 (Some (GInt64 n)) = Some n"
| "as_int64 _ = None"

fun as_list :: "any option \<Rightarrow> any list option" where
  "as_list (Some (GList xs)) = Some xs"
| "as_list _ = None"

fun as_map :: "any option \<Rightarrow> (bytes, any) gomap option" where
  "as_map (Some (GMap m)) = Some m"
| "as_map _ = None"

section \<open>Decimal numbers\<close>

definition is_digit :: "byte \<Rightarrow> bool" where
  "is_digit b = (48 \<le> b \<and> b \<le> 57)"

definition digit_val :: "byte \<Rightarrow> int" where
  "digit_val b = uint b - 48"

definition digits_val :: "bytes \<Rightarrow> int" where
  "digits_val = foldl (\<lambda>n b. 10 * n + digit_val b) 0"

text \<open>\<^verbatim>\<open>strconv.ParseInt(s, 10, 64)\<close>, which \<^verbatim>\<open>strconv.Atoi\<close> agrees with.\<close>

definition parse_int :: "bytes \<Rightarrow> int option" where
  "parse_int s =
     (case s of [] \<Rightarrow> None
      | c # r \<Rightarrow>
         (let neg = (c = 45); ds = (if c = 43 \<or> c = 45 then r else s)
          in if ds = [] \<or> \<not> list_all is_digit ds then None
             else let n = digits_val ds
               in if neg then (if 2 ^ 63 < n then None else Some (- n))
                  else (if 2 ^ 63 \<le> n then None else Some n)))"

text \<open>\<^verbatim>\<open>%d\<close> of \<^verbatim>\<open>fmt\<close>.\<close>

fun show_nat :: "nat \<Rightarrow> bytes" where
  "show_nat n = (if n < 10 then [48 + of_nat n] else show_nat (n div 10) @ [48 + of_nat (n mod 10)])"

declare show_nat.simps [simp del]

definition show_int :: "int \<Rightarrow> bytes" where
  "show_int i = (if i < 0 then 45 # show_nat (nat (- i)) else show_nat (nat i))"

section \<open>The decoder\<close>

text \<open>The reading loop of \<^verbatim>\<open>decodeInt\<close>: everything up to the delimiter.\<close>

fun read_to :: "byte \<Rightarrow> bytes \<Rightarrow> (bytes \<times> bytes) option" where
  "read_to d [] = None"
| "read_to d (b # r) =
     (if b = d then Some ([], r)
      else case read_to d r of None \<Rightarrow> None | Some (s, r') \<Rightarrow> Some (b # s, r'))"

definition decodeInt :: "bytes \<Rightarrow> error + int \<times> bytes" where
  "decodeInt r =
     (case read_to 101 r of None \<Rightarrow> Inl ErrUnexpectedEOF
      | Some (s, r') \<Rightarrow>
          if s = [] then Inl ErrInvalidInteger
          else if length s > 1 \<and> hd s = 48 then Inl ErrInvalidInteger
          else if s = str ''-0'' then Inl ErrInvalidInteger
          else case parse_int s of None \<Rightarrow> Inl ErrInvalidInteger | Some n \<Rightarrow> Inr (n, r'))"

text \<open>The reading loop of \<^verbatim>\<open>decodeString\<close>: digits up to the colon.\<close>

fun read_len :: "bytes \<Rightarrow> error + bytes \<times> bytes" where
  "read_len [] = Inl ErrUnexpectedEOF"
| "read_len (b # r) =
     (if b = 58 then Inr ([], r)
      else if b < 48 \<or> b > 57 then Inl ErrInvalidString
      else case read_len r of Inl e \<Rightarrow> Inl e | Inr (s, r') \<Rightarrow> Inr (b # s, r'))"

definition decodeString :: "bytes \<Rightarrow> error + bytes \<times> bytes" where
  "decodeString r =
     (case read_len r of Inl e \<Rightarrow> Inl e
      | Inr (s, r') \<Rightarrow>
          (case parse_int s of None \<Rightarrow> Inl ErrInvalidString
           | Some n \<Rightarrow>
               if n > max_alloc then Inl Panic
               else if length r' < nat n then Inl ErrUnexpectedEOF
               else Inr (take (nat n) r', drop (nat n) r')))"

lemma read_to_length: "read_to d r = Some (s, r') \<Longrightarrow> length r' < length r"
  by (induction r arbitrary: s r') (fastforce split: if_splits option.splits)+

lemma read_len_length: "read_len r = Inr (s, r') \<Longrightarrow> length r' < length r"
  by (induction r arbitrary: s r') (fastforce split: if_splits sum.splits)+

lemma decodeInt_length: "decodeInt r = Inr (n, r') \<Longrightarrow> length r' < length r"
  by (auto simp: decodeInt_def dest: read_to_length split: option.splits if_splits)

lemma decodeString_length: "decodeString r = Inr (s, r') \<Longrightarrow> length r' < length r"
  by (fastforce simp: decodeString_def dest: read_len_length split: sum.splits option.splits
      if_splits)

text \<open>
  \<^verbatim>\<open>decodeValue\<close>, \<^verbatim>\<open>decodeList\<close> and \<^verbatim>\<open>decodeDict\<close>; the last two carry the
  list and the map built so far. \<^verbatim>\<open>UnreadByte\<close> is passing the byte on.
\<close>

function decodeValue :: "bytes \<Rightarrow> error + any \<times> bytes"
  and decodeList :: "bytes \<Rightarrow> any list \<Rightarrow> error + any list \<times> bytes"
  and decodeDict :: "bytes \<Rightarrow> (bytes, any) gomap \<Rightarrow> error + (bytes, any) gomap \<times> bytes"
where
  "decodeValue [] = Inl ErrUnexpectedEOF"
| "decodeValue (b # r) =
     (if b = 105 then
        (case decodeInt r of Inl e \<Rightarrow> Inl e | Inr (n, r') \<Rightarrow> Inr (GInt64 n, r'))
      else if b = 108 then
        (case decodeList r [] of Inl e \<Rightarrow> Inl e | Inr (xs, r') \<Rightarrow> Inr (GList xs, r'))
      else if b = 100 then
        (case decodeDict r [] of Inl e \<Rightarrow> Inl e | Inr (m, r') \<Rightarrow> Inr (GMap m, r'))
      else if 48 \<le> b \<and> b \<le> 57 then
        (case decodeString (b # r) of Inl e \<Rightarrow> Inl e | Inr (s, r') \<Rightarrow> Inr (GString s, r'))
      else Inl ErrInvalidFormat)"
| "decodeList [] list = Inl ErrUnexpectedEOF"
| "decodeList (b # r) list =
     (if b = 101 then Inr (list, r)
      else case decodeValue (b # r) of Inl e \<Rightarrow> Inl e
        | Inr (val, r') \<Rightarrow> decodeList r' (list @ [val]))"
| "decodeDict [] dict = Inl ErrUnexpectedEOF"
| "decodeDict (b # r) dict =
     (if b = 101 then Inr (dict, r)
      else case decodeValue (b # r) of Inl e \<Rightarrow> Inl e
        | Inr (keyVal, r') \<Rightarrow>
           (case keyVal of
              GString key \<Rightarrow>
                (case decodeValue r' of Inl e \<Rightarrow> Inl e
                 | Inr (val, r'') \<Rightarrow> decodeDict r'' (mput key val dict))
            | _ \<Rightarrow> Inl ErrInvalidFormat))"
  by pat_completeness auto

text \<open>Where the decoder returns a value it has consumed at least one byte; the three
  functions call themselves on what an earlier call left, so termination needs this first.\<close>

lemma decode_dom_length:
  shows "decodeValue_decodeList_decodeDict_dom (Inl s) \<Longrightarrow>
      decodeValue s = Inr (v, r) \<Longrightarrow> length r < length s"
    and "decodeValue_decodeList_decodeDict_dom (Inr (Inl (s, xs))) \<Longrightarrow>
      decodeList s xs = Inr (ys, r) \<Longrightarrow> length r < length s"
    and "decodeValue_decodeList_decodeDict_dom (Inr (Inr (s, m))) \<Longrightarrow>
      decodeDict s m = Inr (m', r) \<Longrightarrow> length r < length s"
proof (induction s and s xs and s m arbitrary: v r and ys r and m' r
    rule: decodeValue_decodeList_decodeDict.pinduct)
  case (1 v r)
  then show ?case by (simp add: decodeValue.psimps)
next
  case (2 b r v r')
  then show ?case
    by (fastforce simp: decodeValue.psimps dest: decodeInt_length decodeString_length
        split: if_splits sum.splits)
next
  case (3 list ys r)
  then show ?case by (simp add: decodeList.psimps)
next
  case (4 b r list ys r')
  then show ?case
    by (fastforce simp: decodeList.psimps split: if_splits sum.splits)
next
  case (5 dict m' r)
  then show ?case by (simp add: decodeDict.psimps)
next
  case (6 b r dict m' r')
  then show ?case
    by (fastforce simp: decodeDict.psimps split: if_splits sum.splits any.splits)
qed

termination decodeValue
  apply (relation "measure (\<lambda>x. case x of Inl s \<Rightarrow> 2 * length s
     | Inr (Inl (s, _)) \<Rightarrow> Suc (2 * length s) | Inr (Inr (s, _)) \<Rightarrow> Suc (2 * length s))")
         apply (auto dest!: decode_dom_length)
  done

declare decodeValue.simps(2) [simp del] decodeList.simps(2) [simp del]
  decodeDict.simps(2) [simp del]

lemma decode_length:
  shows decodeValue_length: "decodeValue s = Inr (v, r) \<Longrightarrow> length r < length s"
    and decodeList_length: "decodeList s xs = Inr (ys, r) \<Longrightarrow> length r < length s"
    and decodeDict_length: "decodeDict s m = Inr (m', r) \<Longrightarrow> length r < length s"
proof (induction s and s xs and s m arbitrary: v r and ys r and m' r
    rule: decodeValue_decodeList_decodeDict.induct)
  case (2 b r v r')
  then show ?case
    by (fastforce simp: decodeValue.simps(2) dest: decodeInt_length decodeString_length
        split: if_splits sum.splits)
next
  case (4 b r list ys r')
  then show ?case by (fastforce simp: decodeList.simps(2) split: if_splits sum.splits)
next
  case (6 b r dict m' r')
  then show ?case by (fastforce simp: decodeDict.simps(2) split: if_splits sum.splits any.splits)
qed simp_all

definition DecodeBytes :: "bytes \<Rightarrow> error + any \<times> int" where
  "DecodeBytes data =
     (case decodeValue data of Inl e \<Rightarrow> Inl e
      | Inr (val, r) \<Rightarrow> Inr (val, int (length data) - int (length r)))"

definition Decode :: "bytes \<Rightarrow> error + any" where
  "Decode data = (case decodeValue data of Inl e \<Rightarrow> Inl e | Inr (val, r) \<Rightarrow> Inr val)"

section \<open>The encoder\<close>

text \<open>Appending what each item writes to the buffer, up to the first error.\<close>

fun write_all :: "(error + bytes) list \<Rightarrow> error + bytes" where
  "write_all [] = Inr []"
| "write_all (Inl e # rs) = Inl e"
| "write_all (Inr b # rs) = (case write_all rs of Inl e \<Rightarrow> Inl e | Inr bs \<Rightarrow> Inr (b @ bs))"

definition encodeString :: "bytes \<Rightarrow> bytes" where
  "encodeString s = show_int (int (length s)) @ 58 # s"

text \<open>The keys are sorted; each is written before its value, whose error comes after it.\<close>

fun encodeValue :: "any \<Rightarrow> error + bytes" where
  "encodeValue (GInt i) = Inr (105 # show_int i @ [101])"
| "encodeValue (GInt64 i) = Inr (105 # show_int i @ [101])"
| "encodeValue (GString s) = Inr (encodeString s)"
| "encodeValue (GBytes s) = Inr (encodeString s)"
| "encodeValue (GList xs) =
     (case write_all (map encodeValue xs) of Inl e \<Rightarrow> Inl e
      | Inr bs \<Rightarrow> Inr (108 # bs @ [101]))"
| "encodeValue (GMap m) =
     (case write_all (map (\<lambda>(k, r). case r of Inl e \<Rightarrow> Inl e | Inr b \<Rightarrow> Inr (encodeString k @ b))
              (sort_key fst (map (\<lambda>(k, v). (k, encodeValue v)) m))) of Inl e \<Rightarrow> Inl e
      | Inr bs \<Rightarrow> Inr (100 # bs @ [101]))"
| "encodeValue GOther = Inl ErrUnsupportedType"

definition Encode :: "any \<Rightarrow> error + bytes" where
  "Encode v = encodeValue v"

section \<open>Values the format carries\<close>

text \<open>
  \<open>val_ok\<close> bounds the integers and strings of a value by what Go can hold and keeps its
  maps maps; \<open>norm\<close> is the value a decoder returns for it.
\<close>

fun val_ok :: "any \<Rightarrow> bool" where
  "val_ok (GInt i) = int64_ok i"
| "val_ok (GInt64 i) = int64_ok i"
| "val_ok (GString s) = (int (length s) \<le> max_alloc)"
| "val_ok (GBytes s) = (int (length s) \<le> max_alloc)"
| "val_ok (GList xs) = list_all val_ok xs"
| "val_ok (GMap m) =
     (map_ok m \<and> list_all (\<lambda>(k, v). int (length k) \<le> max_alloc \<and> val_ok v) m)"
| "val_ok GOther = False"

fun norm :: "any \<Rightarrow> any" where
  "norm (GInt i) = GInt64 i"
| "norm (GInt64 i) = GInt64 i"
| "norm (GString s) = GString s"
| "norm (GBytes s) = GString s"
| "norm (GList xs) = GList (map norm xs)"
| "norm (GMap m) = GMap (map (\<lambda>(k, v). (k, norm v)) m)"
| "norm GOther = GOther"

section \<open>Decimal round trip\<close>

lemma foldl_digits:
  "foldl (\<lambda>n b. 10 * n + digit_val b) c s = c * 10 ^ length s + digits_val s"
proof (induction s arbitrary: c)
  case Nil
  then show ?case by (simp add: digits_val_def)
next
  case (Cons d s)
  have "digits_val (d # s) = foldl (\<lambda>n b. 10 * n + digit_val b) (digit_val d) s"
    by (simp add: digits_val_def)
  also have "\<dots> = digit_val d * 10 ^ length s + digits_val s" by (rule Cons.IH)
  finally have "digits_val (d # s) = digit_val d * 10 ^ length s + digits_val s" .
  moreover have "foldl (\<lambda>n b. 10 * n + digit_val b) c (d # s) =
      (10 * c + digit_val d) * 10 ^ length s + digits_val s"
    by (simp only: foldl_Cons Cons.IH)
  ultimately show ?case by (simp add: distrib_right)
qed

lemma digits_val_append:
  "digits_val (a @ b) = digits_val a * 10 ^ length b + digits_val b"
  by (simp only: digits_val_def foldl_append) (rule foldl_digits [unfolded digits_val_def])

lemma digits_val_single [simp]: "digits_val [d] = digit_val d"
  by (simp add: digits_val_def)

lemma uint_digit: "n < 10 \<Longrightarrow> uint (48 + of_nat n :: byte) = 48 + int n"
  by (simp add: uint_word_ariths unsigned_of_nat take_bit_eq_mod)

lemma digit_show: "n < 10 \<Longrightarrow> digit_val (48 + of_nat n) = int n"
  by (simp add: digit_val_def uint_digit)

lemma is_digit_show: "n < 10 \<Longrightarrow> is_digit (48 + of_nat n)"
  by (simp add: is_digit_def word_le_def uint_digit)

lemma show_nat_digits: "list_all is_digit (show_nat n)"
  by (induction n rule: show_nat.induct, subst show_nat.simps) (auto simp: is_digit_show)

lemma digits_val_show_nat: "digits_val (show_nat n) = int n"
proof (induction n rule: show_nat.induct)
  case (1 n)
  show ?case
  proof (cases "n < 10")
    case True
    then show ?thesis
      by (subst show_nat.simps) (simp add: digits_val_def digit_show)
  next
    case False
    moreover have "int (n div 10) * 10 + int (n mod 10) = int n" by presburger
    ultimately show ?thesis
      using 1 by (subst show_nat.simps) (simp add: digits_val_append digit_show)
  qed
qed

lemma show_nat_nonempty: "show_nat n \<noteq> []"
  by (subst show_nat.simps) simp

lemma hd_show_nat: "hd (show_nat n) = 48 \<Longrightarrow> n = 0"
proof (induction n rule: show_nat.induct)
  case (1 n)
  show ?case
  proof (cases "n < 10")
    case True
    with "1.prems" have "(48 + of_nat n :: byte) = 48"
      by (subst (asm) show_nat.simps) simp
    then have "uint (48 + of_nat n :: byte) = 48" by simp
    with True show ?thesis by (simp add: uint_digit)
  next
    case False
    with "1.prems" have "hd (show_nat (n div 10)) = 48"
      by (subst (asm) show_nat.simps) (simp add: show_nat_nonempty)
    with False "1.IH" have "n div 10 = 0" by simp
    with False show ?thesis by simp
  qed
qed

lemma show_nat_length: "n < 10 ^ Suc k \<Longrightarrow> length (show_nat n) \<le> Suc k"
proof (induction k arbitrary: n)
  case 0
  then show ?case by (subst show_nat.simps) simp
next
  case (Suc k)
  show ?case
  proof (cases "n < 10")
    case True
    then show ?thesis by (subst show_nat.simps) simp
  next
    case False
    have "n div 10 < 10 ^ Suc k" using Suc.prems by (simp add: div_less_iff_less_mult)
    with False Suc.IH [of "n div 10"] show ?thesis by (subst show_nat.simps) simp
  qed
qed

lemma show_int_length: "0 \<le> i \<Longrightarrow> i < 2 ^ 63 \<Longrightarrow> length (show_int i) \<le> 19"
  using show_nat_length [of "nat i" 18] by (simp add: show_int_def nat_less_iff)

lemma show_nat_zero: "show_nat 0 = [48]"
  by (subst show_nat.simps) simp

lemma digit_not_delim: "is_digit b \<Longrightarrow> b \<noteq> 101 \<and> b \<noteq> 58 \<and> b \<noteq> 43 \<and> b \<noteq> 45 \<and> b \<noteq> 108 \<and> b \<noteq> 105 \<and> b \<noteq> 100"
  by (auto simp: is_digit_def)

lemma show_nat_Cons: "\<exists>c r. show_nat n = c # r \<and> is_digit c"
  using show_nat_nonempty [of n] show_nat_digits [of n] by (cases "show_nat n") auto

lemma parse_int_show_nat: "int n < 2 ^ 63 \<Longrightarrow> parse_int (show_nat n) = Some (int n)"
proof -
  assume n: "int n < 2 ^ 63"
  obtain c r where c: "show_nat n = c # r" "is_digit c" using show_nat_Cons by blast
  with n show ?thesis
    using digit_not_delim [OF c(2)] digits_val_show_nat [of n] show_nat_digits [of n]
    by (simp add: parse_int_def Let_def)
qed

lemma parse_int_show:
  assumes "int64_ok i"
  shows "parse_int (show_int i) = Some i"
proof (cases "i < 0")
  case True
  with assms have "int (nat (- i)) \<le> 2 ^ 63" by (simp add: int64_ok_def)
  with True show ?thesis
    using digits_val_show_nat [of "nat (- i)"]
    by (simp add: show_int_def parse_int_def Let_def show_nat_digits show_nat_nonempty)
next
  case False
  with assms parse_int_show_nat [of "nat i"] show ?thesis
    by (simp add: show_int_def int64_ok_def)
qed

section \<open>The round trip\<close>

lemma read_to_append: "d \<notin> set s \<Longrightarrow> read_to d (s @ d # r) = Some (s, r)"
  by (induction s) auto

lemma read_len_append: "list_all is_digit s \<Longrightarrow> read_len (s @ 58 # r) = Inr (s, r)"
  by (induction s) (auto simp: is_digit_def)

lemma show_int_no_e: "101 \<notin> set (show_int i)"
  using show_nat_digits [of "nat i"] show_nat_digits [of "nat (- i)"]
  by (auto simp: show_int_def list_all_iff dest: digit_not_delim)

lemma show_int_checks:
  "show_int i \<noteq> []" "\<not> (length (show_int i) > 1 \<and> hd (show_int i) = 48)"
  "show_int i \<noteq> str ''-0''"
proof -
  show "show_int i \<noteq> []" by (simp add: show_int_def show_nat_nonempty)
  show "\<not> (length (show_int i) > 1 \<and> hd (show_int i) = 48)"
    using hd_show_nat [of "nat i"] show_nat_zero by (auto simp: show_int_def)
  show "show_int i \<noteq> str ''-0''"
  proof (cases "i < 0")
    case True
    have "show_nat (nat (- i)) \<noteq> [48]"
      using digits_val_show_nat [of "nat (- i)"] True by (auto simp: digit_val_def)
    with True show ?thesis by (simp add: show_int_def str_def)
  next
    case False
    obtain c r where "show_nat (nat i) = c # r" "is_digit c" using show_nat_Cons by blast
    with False show ?thesis
      by (auto simp: show_int_def str_def dest: digit_not_delim)
  qed
qed

lemma decodeInt_show: "int64_ok i \<Longrightarrow> decodeInt (show_int i @ 101 # r) = Inr (i, r)"
  by (simp only: decodeInt_def read_to_append [OF show_int_no_e] parse_int_show
      option.case prod.case show_int_checks if_False)

lemma decodeString_encode:
  assumes "int (length s) \<le> max_alloc"
  shows "decodeString (encodeString s @ r) = Inr (s, r)"
proof -
  have "parse_int (show_nat (length s)) = Some (int (length s))"
    using assms by (intro parse_int_show_nat) (simp add: max_alloc_def)
  with assms show ?thesis
    by (simp add: decodeString_def encodeString_def show_int_def
        read_len_append [OF show_nat_digits])
qed

lemma encodeString_Cons: "\<exists>c t. encodeString s = c # t \<and> is_digit c"
  using show_nat_Cons [of "length s"] by (auto simp: encodeString_def show_int_def)

lemma decodeValue_string:
  assumes "int (length s) \<le> max_alloc"
  shows "decodeValue (encodeString s @ r) = Inr (GString s, r)"
proof -
  obtain c t where c: "encodeString s = c # t" "is_digit c" using encodeString_Cons by blast
  with decodeString_encode [OF assms, of r] digit_not_delim [OF c(2)] show ?thesis
    by (simp add: decodeValue.simps(2) is_digit_def)
qed

lemma encodeValue_start: "encodeValue v = Inr bs \<Longrightarrow> \<exists>c t. bs = c # t \<and> c \<noteq> 101"
proof (cases v)
  case (GString s)
  assume "encodeValue v = Inr bs"
  with GString encodeString_Cons [of s] show ?thesis by (auto dest: digit_not_delim)
next
  case (GBytes s)
  assume "encodeValue v = Inr bs"
  with GBytes encodeString_Cons [of s] show ?thesis by (auto dest: digit_not_delim)
qed (auto split: sum.splits)

lemma write_all_Inr_Cons:
  "write_all (r # rs) = Inr bs \<longleftrightarrow> (\<exists>b bs'. r = Inr b \<and> write_all rs = Inr bs' \<and> bs = b @ bs')"
  by (cases r) (auto split: sum.splits)

text \<open>The two loops over what the encoder wrote, given the round trip of the items.\<close>

lemma decodeList_items:
  assumes "\<And>x b r. x \<in> set xs \<Longrightarrow> encodeValue x = Inr b \<Longrightarrow>
      decodeValue (b @ r) = Inr (norm x, r)"
    and "write_all (map encodeValue xs) = Inr bs"
  shows "decodeList (bs @ 101 # r) acc = Inr (acc @ map norm xs, r)"
  using assms
proof (induction xs arbitrary: bs acc)
  case Nil
  then show ?case by (simp add: decodeList.simps(2))
next
  case (Cons x xs)
  from Cons.prems(2) obtain b bs' where b: "encodeValue x = Inr b"
    and bs': "write_all (map encodeValue xs) = Inr bs'" and bs: "bs = b @ bs'"
    by (auto simp: write_all_Inr_Cons)
  obtain c t where c: "b = c # t" "c \<noteq> 101" using encodeValue_start [OF b] by blast
  have "decodeValue (c # t @ bs' @ 101 # r) = Inr (norm x, bs' @ 101 # r)"
    using Cons.prems(1) [OF _ b, of "bs' @ 101 # r"] c by simp
  with c bs Cons.IH [OF Cons.prems(1) bs', of "acc @ [norm x]"] show ?case
    by (simp add: decodeList.simps(2))
qed

lemma decodeDict_items:
  assumes "\<And>k v b r. (k, v) \<in> set m \<Longrightarrow> encodeValue v = Inr b \<Longrightarrow>
      decodeValue (b @ r) = Inr (norm v, r)"
    and "\<And>k v. (k, v) \<in> set m \<Longrightarrow> int (length k) \<le> max_alloc"
    and "write_all (map (\<lambda>(k, v). case encodeValue v of Inl e \<Rightarrow> Inl e
          | Inr b \<Rightarrow> Inr (encodeString k @ b)) m) = Inr bs"
    and "map_ok (acc @ map (\<lambda>(k, v). (k, norm v)) m)"
  shows "decodeDict (bs @ 101 # r) acc = Inr (acc @ map (\<lambda>(k, v). (k, norm v)) m, r)"
  using assms
proof (induction m arbitrary: bs acc)
  case Nil
  then show ?case by (simp add: decodeDict.simps(2))
next
  case (Cons e m)
  obtain k v where e: "e = (k, v)" by (cases e)
  from Cons.prems(3) e obtain b bs' where b: "encodeValue v = Inr b"
    and bs': "write_all (map (\<lambda>(k, v). case encodeValue v of Inl e \<Rightarrow> Inl e
          | Inr b \<Rightarrow> Inr (encodeString k @ b)) m) = Inr bs'"
    and bs: "bs = encodeString k @ b @ bs'"
    by (auto simp: write_all_Inr_Cons split: sum.splits)
  obtain c t where c: "encodeString k = c # t" "is_digit c" using encodeString_Cons by blast
  have k: "int (length k) \<le> max_alloc" using Cons.prems(2) e by auto
  have key: "decodeValue (c # t @ b @ bs' @ 101 # r) = Inr (GString k, b @ bs' @ 101 # r)"
    using decodeValue_string [OF k, of "b @ bs' @ 101 # r"] c by simp
  have val: "decodeValue (b @ bs' @ 101 # r) = Inr (norm v, bs' @ 101 # r)"
    using Cons.prems(1) [of k v b "bs' @ 101 # r"] b e by simp
  have put: "mput k (norm v) acc = acc @ [(k, norm v)]"
    using Cons.prems(4) e by (intro mput_snoc) (auto simp: map_ok_append)
  have "decodeDict (bs' @ 101 # r) (acc @ [(k, norm v)]) =
      Inr ((acc @ [(k, norm v)]) @ map (\<lambda>(k, v). (k, norm v)) m, r)"
  proof (rule Cons.IH [OF _ _ bs'])
    show "decodeValue (b @ r) = Inr (norm v, r)" if "(k, v) \<in> set m" "encodeValue v = Inr b" for k v b r
      using that by (intro Cons.prems(1)) auto
    show "int (length k) \<le> max_alloc" if "(k, v) \<in> set m" for k v
      using that by (intro Cons.prems(2)) auto
    show "map_ok ((acc @ [(k, norm v)]) @ map (\<lambda>(k, v). (k, norm v)) m)"
      using Cons.prems(4) e by simp
  qed
  with c bs key val put digit_not_delim [OF c(2)] e show ?case
    by (simp add: decodeDict.simps(2))
qed

lemma map_ok_norm: "map_ok m \<Longrightarrow> map_ok (map (\<lambda>(k, v). (k, f v)) m)"
  by (simp add: map_ok_def comp_def case_prod_beta)

lemma sort_entries: "map_ok m \<Longrightarrow> sort_key fst (map (\<lambda>(k, v). (k, f v)) m) = map (\<lambda>(k, v). (k, f v)) m"
  by (rule map_ok_sort_key) (rule map_ok_norm)

lemma decode_encode:
  "val_ok v \<Longrightarrow> encodeValue v = Inr bs \<Longrightarrow> decodeValue (bs @ r) = Inr (norm v, r)"
proof (induction v arbitrary: bs r rule: encodeValue.induct)
  case (5 xs)
  then obtain b where b: "write_all (map encodeValue xs) = Inr b" and bs: "bs = 108 # b @ [101]"
    by (auto split: sum.splits)
  have "decodeList (b @ 101 # r) [] = Inr ([] @ map norm xs, r)"
    using "5.prems"(1) by (intro decodeList_items [OF _ b] "5.IH") (auto simp: list_all_iff)
  with bs show ?case by (simp add: decodeValue.simps(2))
next
  case (6 m)
  let ?w = "\<lambda>(k, v). case encodeValue v of Inl e \<Rightarrow> Inl e | Inr b \<Rightarrow> Inr (encodeString k @ b)"
  from "6.prems"(1) have ok: "map_ok m" by simp
  have "map (\<lambda>(k, r). case r of Inl e \<Rightarrow> Inl e | Inr b \<Rightarrow> Inr (encodeString k @ b))
      (sort_key fst (map (\<lambda>(k, v). (k, encodeValue v)) m)) = map ?w m"
    by (simp add: sort_entries [OF ok] split_beta)
  with "6.prems"(2) obtain b where b: "write_all (map ?w m) = Inr b" and bs: "bs = 100 # b @ [101]"
    by (simp only: encodeValue.simps) (auto split: sum.splits)
  have "decodeDict (b @ 101 # r) [] = Inr ([] @ map (\<lambda>(k, v). (k, norm v)) m, r)"
    using "6.prems"(1) ok
    by (intro decodeDict_items [OF _ _ b] "6.IH") (auto simp: list_all_iff map_ok_norm)
  with bs show ?case by (simp add: decodeValue.simps(2))
qed (auto simp: decodeValue.simps(2) decodeInt_show decodeValue_string)

interpretation bencode: stream_codec "\<lambda>v. case encodeValue v of Inr b \<Rightarrow> b | Inl _ \<Rightarrow> []"
  decodeValue norm "\<lambda>v. val_ok v \<and> (\<exists>b. encodeValue v = Inr b)"
  by unfold_locales (auto simp: decode_encode)

section \<open>What the decoder returns\<close>

text \<open>Every value read is in range, its maps are maps and it has only the four types the
  package documents; so the encoder accepts it and it reads back as itself.\<close>

fun canonical :: "any \<Rightarrow> bool" where
  "canonical (GInt64 i) = int64_ok i"
| "canonical (GString s) = (int (length s) \<le> max_alloc)"
| "canonical (GList xs) = list_all canonical xs"
| "canonical (GMap m) =
     (map_ok m \<and> list_all (\<lambda>(k, v). int (length k) \<le> max_alloc \<and> canonical v) m)"
| "canonical _ = False"

lemma canonical_val_ok: "canonical v \<Longrightarrow> val_ok v"
  by (induction v rule: canonical.induct) (auto simp: list_all_iff)

lemma canonical_norm: "canonical v \<Longrightarrow> norm v = v"
  by (induction v rule: canonical.induct) (fastforce simp: list_all_iff intro: map_idI)+

lemma foldl_digits_nonneg: "list_all is_digit s \<Longrightarrow> 0 \<le> digits_val s"
proof (induction s rule: rev_induct)
  case (snoc d s)
  then have "48 \<le> uint d" by (simp add: is_digit_def word_le_def)
  with snoc show ?case by (simp add: digits_val_append digit_val_def)
qed (simp add: digits_val_def)

lemma parse_int_range: "parse_int s = Some n \<Longrightarrow> int64_ok n"
  using foldl_digits_nonneg [of s] foldl_digits_nonneg [of "tl s"]
  by (auto simp: parse_int_def Let_def int64_ok_def split: list.splits if_splits)

lemma decodeInt_range: "decodeInt s = Inr (n, r) \<Longrightarrow> int64_ok n"
  by (auto simp: decodeInt_def dest: parse_int_range split: option.splits if_splits)

lemma decodeString_bound: "decodeString s = Inr (t, r) \<Longrightarrow> int (length t) \<le> max_alloc"
  by (auto simp: decodeString_def max_alloc_def split: option.splits sum.splits if_splits)

lemma decode_canonical:
  shows decodeValue_canonical: "decodeValue s = Inr (v, r) \<Longrightarrow> canonical v"
    and decodeList_canonical: "decodeList s xs = Inr (ys, r) \<Longrightarrow>
      list_all canonical xs \<Longrightarrow> list_all canonical ys"
    and decodeDict_canonical: "decodeDict s m = Inr (m', r) \<Longrightarrow>
      canonical (GMap m) \<Longrightarrow> canonical (GMap m')"
proof (induction s and s xs and s m arbitrary: v r and ys r and m' r
    rule: decodeValue_decodeList_decodeDict.induct)
  case (2 b r v r')
  then show ?case
    by (fastforce simp: decodeValue.simps(2) dest: decodeInt_range decodeString_bound
        split: if_splits sum.splits)
next
  case (4 b r list ys r')
  then show ?case by (fastforce simp: decodeList.simps(2) split: if_splits sum.splits)
next
  case (6 b r dict m' r')
  show ?case
  proof (cases "b = 101")
    case True
    with "6.prems" show ?thesis by (simp add: decodeDict.simps(2))
  next
    case False
    from "6.prems"(1) False obtain key val r1 r2 where k: "decodeValue (b # r) = Inr (GString key, r1)"
      and v: "decodeValue r1 = Inr (val, r2)" and d: "decodeDict r2 (mput key val dict) = Inr (m', r')"
      by (auto simp: decodeDict.simps(2) split: sum.splits any.splits)
    have "canonical (GString key)" "canonical val"
      using "6.IH"(1) [OF False k] "6.IH"(2) [OF False k _ refl v] by auto
    with "6.prems"(2) have "canonical (GMap (mput key val dict))"
      using set_mput_subset [of key val dict]
      by (force simp: list_all_iff map_ok_mput)
    with "6.IH"(3) [OF False k _ refl v _ d] show ?thesis by simp
  qed
qed simp_all

text \<open>The decoder looks at nothing beyond the value it returns: what it consumed is a
  prefix of the input that decodes to the same value in front of any other rest.\<close>

lemma read_to_prefix:
  "read_to d s = Some (x, r) \<Longrightarrow> \<exists>p. s = p @ r \<and> (\<forall>t. read_to d (p @ t) = Some (x, t))"
proof (induction s arbitrary: x r)
  case (Cons b s)
  show ?case
  proof (cases "b = d")
    case True
    with Cons.prems show ?thesis by (intro exI [of _ "[b]"]) simp
  next
    case False
    with Cons.prems obtain x' where x: "read_to d s = Some (x', r)" "x = b # x'"
      by (auto split: option.splits)
    then obtain p where "s = p @ r" "\<forall>t. read_to d (p @ t) = Some (x', t)"
      using Cons.IH by blast
    with False x show ?thesis by (intro exI [of _ "b # p"]) simp
  qed
qed simp

lemma read_len_prefix:
  "read_len s = Inr (x, r) \<Longrightarrow> \<exists>p. s = p @ r \<and> (\<forall>t. read_len (p @ t) = Inr (x, t))"
proof (induction s arbitrary: x r)
  case (Cons b s)
  show ?case
  proof (cases "b = 58")
    case True
    with Cons.prems show ?thesis by (intro exI [of _ "[b]"]) simp
  next
    case False
    with Cons.prems obtain x' where x: "read_len s = Inr (x', r)" "x = b # x'" "\<not> (b < 48 \<or> b > 57)"
      by (auto split: sum.splits if_splits)
    then obtain p where "s = p @ r" "\<forall>t. read_len (p @ t) = Inr (x', t)"
      using Cons.IH by blast
    with False x show ?thesis by (intro exI [of _ "b # p"]) simp
  qed
qed simp

lemma decodeInt_prefix:
  assumes "decodeInt s = Inr (n, r)"
  shows "\<exists>p. s = p @ r \<and> (\<forall>t. decodeInt (p @ t) = Inr (n, t))"
proof -
  from assms obtain x where "read_to 101 s = Some (x, r)"
    by (auto simp: decodeInt_def split: option.splits if_splits)
  from read_to_prefix [OF this] assms this show ?thesis
    by (auto simp: decodeInt_def split: option.splits if_splits)
qed

lemma decodeString_prefix:
  assumes "decodeString s = Inr (x, r)"
  shows "\<exists>p. s = p @ r \<and> (\<forall>t. decodeString (p @ t) = Inr (x, t))"
proof -
  from assms obtain l q n where l: "read_len s = Inr (l, q)" "parse_int l = Some n"
    "n \<le> max_alloc" "nat n \<le> length q" "x = take (nat n) q" "r = drop (nat n) q"
    by (auto simp: decodeString_def split: option.splits sum.splits if_splits)
  obtain p where p: "s = p @ q" "\<forall>t. read_len (p @ t) = Inr (l, t)"
    using read_len_prefix [OF l(1)] by blast
  with l show ?thesis
    by (intro exI [of _ "p @ take (nat n) q"]) (simp add: decodeString_def)
qed

lemma prefix_Cons:
  assumes "b # s = p @ r" and "length r < length (b # s)"
  shows "\<exists>p'. p = b # p'"
  using assms by (cases p) auto

lemma decode_prefix:
  shows decodeValue_prefix: "decodeValue s = Inr (v, r) \<Longrightarrow>
      \<exists>p. s = p @ r \<and> (\<forall>t. decodeValue (p @ t) = Inr (v, t))"
    and decodeList_prefix: "decodeList s xs = Inr (ys, r) \<Longrightarrow>
      \<exists>p. s = p @ r \<and> (\<forall>t. decodeList (p @ t) xs = Inr (ys, t))"
    and decodeDict_prefix: "decodeDict s m = Inr (m', r) \<Longrightarrow>
      \<exists>p. s = p @ r \<and> (\<forall>t. decodeDict (p @ t) m = Inr (m', t))"
proof (induction s and s xs and s m arbitrary: v r and ys r and m' r
    rule: decodeValue_decodeList_decodeDict.induct)
  case (2 b s v r)
  consider (int) n where "b = 105" "decodeInt s = Inr (n, r)" "v = GInt64 n"
    | (list) xs where "b \<noteq> 105" "b = 108" "decodeList s [] = Inr (xs, r)" "v = GList xs"
    | (dict) m where "b \<noteq> 105" "b \<noteq> 108" "b = 100" "decodeDict s [] = Inr (m, r)" "v = GMap m"
    | (string) x where "b \<noteq> 105" "b \<noteq> 108" "b \<noteq> 100" "48 \<le> b \<and> b \<le> 57"
        "decodeString (b # s) = Inr (x, r)" "v = GString x"
    using "2.prems" by (auto simp: decodeValue.simps(2) split: if_splits sum.splits)
  then show ?case
  proof cases
    case int
    obtain p where "s = p @ r" "\<forall>t. decodeInt (p @ t) = Inr (n, t)"
      using decodeInt_prefix [OF int(2)] by blast
    with int show ?thesis
      by (intro exI [of _ "b # p"]) (simp add: decodeValue.simps(2))
  next
    case list
    obtain p where "s = p @ r" "\<forall>t. decodeList (p @ t) [] = Inr (xs, t)"
      using "2.IH"(1) [OF list(1,2,3)] by blast
    with list show ?thesis
      by (intro exI [of _ "b # p"]) (simp add: decodeValue.simps(2))
  next
    case dict
    obtain p where "s = p @ r" "\<forall>t. decodeDict (p @ t) [] = Inr (m, t)"
      using "2.IH"(2) [OF dict(1,2,3,4)] by blast
    with dict show ?thesis
      by (intro exI [of _ "b # p"]) (simp add: decodeValue.simps(2))
  next
    case string
    obtain p where p: "b # s = p @ r" "\<forall>t. decodeString (p @ t) = Inr (x, t)"
      using decodeString_prefix [OF string(5)] by blast
    moreover obtain p' where "p = b # p'"
      using prefix_Cons [OF p(1) decodeString_length [OF string(5)]] by blast
    ultimately show ?thesis
      using string by (intro exI [of _ p]) (simp add: decodeValue.simps(2))
  qed
next
  case (4 b s list ys r)
  show ?case
  proof (cases "b = 101")
    case True
    with "4.prems" show ?thesis
      by (intro exI [of _ "[b]"]) (simp add: decodeList.simps(2))
  next
    case False
    with "4.prems" obtain val r1 where v: "decodeValue (b # s) = Inr (val, r1)"
      and l: "decodeList r1 (list @ [val]) = Inr (ys, r)"
      by (auto simp: decodeList.simps(2) split: sum.splits)
    obtain p where p: "b # s = p @ r1" "\<forall>t. decodeValue (p @ t) = Inr (val, t)"
      using "4.IH"(1) [OF False v] by blast
    obtain p' where p': "p = b # p'" using prefix_Cons [OF p(1) decodeValue_length [OF v]] by blast
    obtain q where "r1 = q @ r" "\<forall>t. decodeList (q @ t) (list @ [val]) = Inr (ys, t)"
      using "4.IH"(2) [OF False v refl l] by blast
    with p p' False show ?thesis
      by (intro exI [of _ "p @ q"]) (simp add: decodeList.simps(2))
  qed
next
  case (6 b s dict m' r)
  show ?case
  proof (cases "b = 101")
    case True
    with "6.prems" show ?thesis
      by (intro exI [of _ "[b]"]) (simp add: decodeDict.simps(2))
  next
    case False
    from "6.prems" False obtain key val r1 r2 where k: "decodeValue (b # s) = Inr (GString key, r1)"
      and v: "decodeValue r1 = Inr (val, r2)" and d: "decodeDict r2 (mput key val dict) = Inr (m', r)"
      by (auto simp: decodeDict.simps(2) split: sum.splits any.splits)
    obtain p where p: "b # s = p @ r1" "\<forall>t. decodeValue (p @ t) = Inr (GString key, t)"
      using "6.IH"(1) [OF False k] by blast
    obtain p' where p': "p = b # p'" using prefix_Cons [OF p(1) decodeValue_length [OF k]] by blast
    obtain q where q: "r1 = q @ r2" "\<forall>t. decodeValue (q @ t) = Inr (val, t)"
      using "6.IH"(2) [OF False k _ refl v] by blast
    obtain q' where "r2 = q' @ r" "\<forall>t. decodeDict (q' @ t) (mput key val dict) = Inr (m', t)"
      using "6.IH"(3) [OF False k _ refl v _ d] by blast
    with p p' q False show ?thesis
      by (intro exI [of _ "p @ q @ q'"]) (simp add: decodeDict.simps(2))
  qed
qed simp_all

section \<open>Totality and errors of the encoder\<close>

fun supported :: "any \<Rightarrow> bool" where
  "supported (GList xs) = list_all supported xs"
| "supported (GMap m) = list_all (\<lambda>(k, v). supported v) m"
| "supported GOther = False"
| "supported _ = True"

lemma val_ok_supported: "val_ok v \<Longrightarrow> supported v"
  by (induction v rule: supported.induct) (auto simp: list_all_iff)

lemma write_all_Inr: "(\<exists>bs. write_all rs = Inr bs) \<longleftrightarrow> (\<forall>r\<in>set rs. \<exists>b. r = Inr b)"
  by (induction rs rule: write_all.induct) (auto split: sum.splits)

lemma write_all_Inl: "write_all rs = Inl e \<Longrightarrow> Inl e \<in> set rs"
  by (induction rs rule: write_all.induct) (auto split: sum.splits)

lemma case_Inr_ex:
  "(\<exists>c. (case r of Inl e \<Rightarrow> Inl e | Inr b \<Rightarrow> Inr (g b)) = Inr c) \<longleftrightarrow> (\<exists>b. r = Inr b)"
  by (cases r) auto

lemma encode_supported: "(\<exists>bs. encodeValue v = Inr bs) \<longleftrightarrow> supported v"
proof (induction v rule: encodeValue.induct)
  case (5 xs)
  have "(\<exists>bs. encodeValue (GList xs) = Inr bs) \<longleftrightarrow> (\<exists>bs. write_all (map encodeValue xs) = Inr bs)"
    by (auto split: sum.splits)
  with 5 show ?case by (auto simp: write_all_Inr list_all_iff)
next
  case (6 m)
  let ?rs = "map (\<lambda>(k, r). case r of Inl e \<Rightarrow> Inl e | Inr b \<Rightarrow> Inr (encodeString k @ b))
      (sort_key fst (map (\<lambda>(k, v). (k, encodeValue v)) m))"
  have "(\<exists>bs. encodeValue (GMap m) = Inr bs) \<longleftrightarrow> (\<exists>bs. write_all ?rs = Inr bs)"
    by (simp only: encodeValue.simps) (auto split: sum.splits)
  also have "\<dots> \<longleftrightarrow> (\<forall>(k, v)\<in>set m. \<exists>b. encodeValue v = Inr b)"
    by (simp add: write_all_Inr split_beta case_Inr_ex)
  also have "\<dots> \<longleftrightarrow> supported (GMap m)"
    using 6 by (fastforce simp: list_all_iff)
  finally show ?case .
qed auto

lemma encode_error: "encodeValue v = Inl e \<Longrightarrow> e = ErrUnsupportedType"
  by (induction v arbitrary: e rule: encodeValue.induct)
    (fastforce dest!: write_all_Inl split: sum.splits)+

section \<open>Truncated input\<close>

text \<open>An error other than the end of input does not depend on what follows.\<close>

text \<open>The encoding of a value, and what both decoders make of it.\<close>

definition enc :: "any \<Rightarrow> bytes" where
  "enc v = (case Encode v of Inr b \<Rightarrow> b | Inl e \<Rightarrow> [])"

lemma mget_norm_entries:
  "mget (map (\<lambda>(k, v). (k, norm v)) m) k = map_option norm (mget m k)"
  by (induction m) auto

lemma DecodeBytes_map:
  assumes "val_ok (GMap d)" and "Encode (GMap d) = Inr bs"
  shows "DecodeBytes (bs @ rest) = Inr (GMap (map (\<lambda>(k, v). (k, norm v)) d), int (length bs))"
  using bencode.read_enc [of "GMap d" rest] assms by (simp add: DecodeBytes_def Encode_def)

lemma DecodeBytes_enc:
  "val_ok (GMap d) \<Longrightarrow> DecodeBytes (enc (GMap d) @ rest) =
     Inr (GMap (map (\<lambda>(k, v). (k, norm v)) d), int (length (enc (GMap d))))"
  using DecodeBytes_map [of d _ rest] val_ok_supported [of "GMap d"] encode_supported [of "GMap d"]
  by (auto simp: enc_def Encode_def)

lemma Decode_enc: "val_ok (GMap d) \<Longrightarrow> Decode (enc (GMap d)) = Inr (GMap (map (\<lambda>(k, v). (k, norm v)) d))"
  using bencode.read_enc [of "GMap d" "[]"] val_ok_supported [of "GMap d"] encode_supported [of "GMap d"]
  by (auto simp: enc_def Encode_def Decode_def)

lemma read_to_None: "read_to d s = None \<longleftrightarrow> d \<notin> set s"
  by (induction s) (auto split: option.splits)

lemma read_len_error: "read_len s = Inl e \<Longrightarrow> e \<noteq> ErrUnexpectedEOF \<Longrightarrow> read_len (s @ t) = Inl e"
  by (induction s) (auto split: if_splits sum.splits)

lemma decodeInt_error:
  assumes "decodeInt s = Inl e" and "e \<noteq> ErrUnexpectedEOF"
  shows "decodeInt (s @ t) = Inl e"
proof (cases "read_to 101 s")
  case None
  with assms show ?thesis by (simp add: decodeInt_def)
next
  case (Some xr)
  obtain x r where x: "xr = (x, r)" by (cases xr)
  then obtain p where "s = p @ r" "\<forall>t. read_to 101 (p @ t) = Some (x, t)"
    using Some read_to_prefix by blast
  with Some x assms show ?thesis
    by (auto simp: decodeInt_def split: if_splits option.splits)
qed

lemma decodeString_error:
  assumes "decodeString s = Inl e" and "e \<noteq> ErrUnexpectedEOF"
  shows "decodeString (s @ t) = Inl e"
proof (cases "read_len s")
  case (Inl e')
  with assms read_len_error [OF Inl] show ?thesis by (simp add: decodeString_def)
next
  case (Inr xr)
  obtain x r where x: "xr = (x, r)" by (cases xr)
  then obtain p where "s = p @ r" "\<forall>t. read_len (p @ t) = Inr (x, t)"
    using Inr read_len_prefix by blast
  with Inr x assms show ?thesis
    by (auto simp: decodeString_def split: if_splits option.splits)
qed

lemma decodeValue_extend: "decodeValue s = Inr (v, r) \<Longrightarrow> decodeValue (s @ t) = Inr (v, r @ t)"
  by (auto dest!: decodeValue_prefix)

lemma decode_error:
  shows decodeValue_error: "decodeValue s = Inl e \<Longrightarrow> e \<noteq> ErrUnexpectedEOF \<Longrightarrow>
      decodeValue (s @ t) = Inl e"
    and decodeList_error: "decodeList s xs = Inl e \<Longrightarrow> e \<noteq> ErrUnexpectedEOF \<Longrightarrow>
      decodeList (s @ t) xs = Inl e"
    and decodeDict_error: "decodeDict s m = Inl e \<Longrightarrow> e \<noteq> ErrUnexpectedEOF \<Longrightarrow>
      decodeDict (s @ t) m = Inl e"
proof (induction s and s xs and s m rule: decodeValue_decodeList_decodeDict.induct)
  case (2 b s)
  then show ?case
    using decodeString_error [of "b # s" e t]
    by (auto simp: decodeValue.simps(2) decodeInt_error split: if_splits sum.splits)
next
  case (4 b s list)
  show ?case
  proof (cases "decodeValue (b # s)")
    case (Inl e')
    with 4 show ?thesis by (auto simp: decodeList.simps(2) split: if_splits)
  next
    case (Inr vr)
    obtain v r where v: "vr = (v, r)" by (cases vr)
    have "decodeValue (b # s @ t) = Inr (v, r @ t)"
      using decodeValue_extend [of "b # s" v r t] Inr v by simp
    with 4 Inr v show ?thesis by (auto simp: decodeList.simps(2) split: if_splits)
  qed
next
  case (6 b s dict)
  show ?case
  proof (cases "decodeValue (b # s)")
    case (Inl e')
    with 6 show ?thesis by (auto simp: decodeDict.simps(2) split: if_splits)
  next
    case (Inr vr)
    obtain k r where k: "vr = (k, r)" by (cases vr)
    have kt: "decodeValue (b # s @ t) = Inr (k, r @ t)"
      using decodeValue_extend [of "b # s" k r t] Inr k by simp
    show ?thesis
    proof (cases "decodeValue r")
      case (Inl e')
      with 6 Inr k kt show ?thesis
        by (auto simp: decodeDict.simps(2) split: if_splits any.splits)
    next
      case (Inr wr)
      obtain w r' where w: "wr = (w, r')" by (cases wr)
      have "decodeValue (r @ t) = Inr (w, r' @ t)"
        using decodeValue_extend [of r w r' t] Inr w by simp
      with 6 \<open>decodeValue (b # s) = Inr vr\<close> Inr k kt w show ?thesis
        by (auto simp: decodeDict.simps(2) split: if_splits any.splits)
    qed
  qed
qed simp_all

section \<open>Properties of the package\<close>

text \<open>C7. A value the encoder takes, its integers in the range of \<^verbatim>\<open>int64\<close> and its
  strings allocatable, is encoded without error; decoding the bytes, whatever follows them,
  returns the value with \<^verbatim>\<open>int\<close> read as \<^verbatim>\<open>int64\<close> and \<^verbatim>\<open>[]byte\<close> as
  \<^verbatim>\<open>string\<close>, and consumes exactly the bytes written.\<close>

theorem bencode_roundtrip:
  assumes "val_ok v"
  shows "\<exists>bs. Encode v = Inr bs \<and> Decode bs = Inr (norm v) \<and>
    (\<forall>rest. DecodeBytes (bs @ rest) = Inr (norm v, int (length bs)))"
proof -
  from assms obtain bs where bs: "encodeValue v = Inr bs"
    using encode_supported val_ok_supported by blast
  have "decodeValue (bs @ rest) = Inr (norm v, rest)" for rest
    using bencode.read_enc [of v rest] assms bs by simp
  from this this [of "[]"] bs show ?thesis
    by (simp add: Encode_def Decode_def DecodeBytes_def)
qed

theorem bencode_roundtrip_witness:
  "val_ok (GMap [([97], GInt (-7)), ([98], GList [GBytes [1, 2]])]) \<and>
   (\<exists>bs. Encode (GMap [([97], GInt (-7)), ([98], GList [GBytes [1, 2]])]) = Inr bs \<and>
      Decode bs = Inr (GMap [([97], GInt64 (-7)), ([98], GList [GString [1, 2]])]))"
proof -
  have "val_ok (GMap [([97], GInt (-7)), ([98], GList [GBytes [1, 2]])])"
    by (simp add: map_ok_Cons int64_ok_def max_alloc_def)
  with bencode_roundtrip [OF this] show ?thesis by auto
qed

text \<open>C20. Whatever input the decoder accepts, the value it returns is canonical (only the
  four documented types, integers in range, maps with distinct keys in order), and encoding
  it gives bytes that decode to the same value.\<close>

theorem decode_reencode:
  assumes "Decode data = Inr v"
  shows "canonical v \<and> (\<exists>bs. Encode v = Inr bs \<and> Decode bs = Inr v)"
proof -
  from assms obtain r where "decodeValue data = Inr (v, r)"
    by (auto simp: Decode_def split: sum.splits)
  then have c: "canonical v" by (rule decodeValue_canonical)
  then obtain bs where bs: "encodeValue v = Inr bs"
    using encode_supported val_ok_supported canonical_val_ok by blast
  from bencode.read_enc [of v "[]"] c bs show ?thesis
    by (simp add: Encode_def Decode_def canonical_val_ok canonical_norm)
qed

theorem decode_reencode_witness:
  "Decode (str ''i+05e'') = Inr (GInt64 5) \<and> canonical (GInt64 5) \<and>
    (\<exists>bs. Encode (GInt64 5) = Inr bs \<and> Decode bs = Inr (GInt64 5))"
proof -
  have "Decode (str ''i+05e'') = Inr (GInt64 5)" by code_simp
  with decode_reencode [OF this] show ?thesis by blast
qed

text \<open>\<^verbatim>\<open>DecodeBytes\<close> consumes at least one byte and no more than there are, and
  its answer depends on the consumed bytes only: with anything else after them it is the
  same.\<close>

theorem DecodeBytes_local:
  assumes "DecodeBytes data = Inr (v, n)"
  shows "0 < n \<and> n \<le> int (length data) \<and>
    (\<forall>t. DecodeBytes (take (nat n) data @ t) = Inr (v, n))"
proof -
  from assms obtain r where r: "decodeValue data = Inr (v, r)"
    and n: "n = int (length data) - int (length r)"
    by (auto simp: DecodeBytes_def split: sum.splits)
  obtain p where p: "data = p @ r" "\<forall>t. decodeValue (p @ t) = Inr (v, t)"
    using decodeValue_prefix [OF r] by blast
  with n decodeValue_length [OF r] show ?thesis by (simp add: DecodeBytes_def)
qed

theorem DecodeBytes_local_witness:
  "DecodeBytes (str ''3:abcxyz'') = Inr (GString (str ''abc''), 5) \<and>
    (\<forall>t. DecodeBytes (take (nat 5) (str ''3:abcxyz'') @ t) = Inr (GString (str ''abc''), 5))"
proof -
  have "DecodeBytes (str ''3:abcxyz'') = Inr (GString (str ''abc''), 5)" by code_simp
  with DecodeBytes_local [OF this] show ?thesis by blast
qed

text \<open>C21. The encoding of a value cut short anywhere is reported as the end of input, never
  as another error and never as a value.\<close>

theorem decode_truncated:
  assumes "val_ok v" and "Encode v = Inr bs" and "k < length bs"
  shows "Decode (take k bs) = Inl ErrUnexpectedEOF"
proof (cases "decodeValue (take k bs)")
  case (Inl e)
  have ok: "decodeValue (take k bs @ drop k bs) = Inr (norm v, [])"
    using bencode.read_enc [of v "[]"] assms(1,2) by (simp add: Encode_def)
  have "e = ErrUnexpectedEOF"
  proof (rule ccontr)
    assume "e \<noteq> ErrUnexpectedEOF"
    from decodeValue_error [OF Inl this, of "drop k bs"] ok show False by simp
  qed
  with Inl show ?thesis by (simp add: Decode_def)
next
  case (Inr vr)
  obtain w r where w: "decodeValue (take k bs) = Inr (w, r)" using Inr by (cases vr) auto
  have "decodeValue (take k bs @ drop k bs) = Inr (w, r @ drop k bs)"
    using w by (rule decodeValue_extend)
  moreover have "decodeValue bs = Inr (norm v, [])"
    using bencode.read_enc [of v "[]"] assms(1,2) by (simp add: Encode_def)
  ultimately show ?thesis using assms(3) by simp
qed

theorem decode_truncated_witness:
  "val_ok (GList [GInt64 42]) \<and> Encode (GList [GInt64 42]) = Inr (str ''li42ee'') \<and>
    Decode (take 4 (str ''li42ee'')) = Inl ErrUnexpectedEOF"
proof -
  have 1: "val_ok (GList [GInt64 42])" by (simp add: int64_ok_def)
  have 2: "Encode (GList [GInt64 42]) = Inr (str ''li42ee'')" by code_simp
  have 3: "4 < length (str ''li42ee'')" by simp
  from 1 2 decode_truncated [OF 1 2 3] show ?thesis by simp
qed

text \<open>The encoder fails exactly on values that hold a type it does not know, with
  \<^verbatim>\<open>ErrUnsupportedType\<close>.\<close>

theorem Encode_total:
  "(\<exists>bs. Encode v = Inr bs) = supported v \<and> (Encode v = Inl ErrUnsupportedType) = (\<not> supported v)"
proof -
  have "(\<exists>bs. Encode v = Inr bs) = supported v"
    by (simp add: Encode_def encode_supported)
  moreover have "(Encode v = Inl ErrUnsupportedType) = (\<not> (\<exists>bs. Encode v = Inr bs))"
    by (cases "Encode v") (auto simp: Encode_def dest: encode_error)
  ultimately show ?thesis by simp
qed

section \<open>Two defects of the decoder\<close>

text \<open>
  The decoder means to refuse leading zeros, and does for a bare number, but a sign in front
  hides them from the check; a plus sign is taken too, which the format does not have.
\<close>

lemma decode_leading_zero:
  "Decode (str ''i05e'') = Inl ErrInvalidInteger"
  "Decode (str ''i-05e'') = Inr (GInt64 (-5))"
  "Decode (str ''i-00e'') = Inr (GInt64 0)"
  "Decode (str ''i+05e'') = Inr (GInt64 5)"
  by code_simp+

text \<open>A length prefix above what the runtime can allocate panics before any data is read.\<close>

lemma decode_length_panic: "Decode (str ''999999999999999999:'') = Inl Panic"
  by code_simp

end
