(* ===== verification/Message.thy ===== *)
theory Message
  imports Prelude Codec
begin

text \<open>
  \<^verbatim>\<open>peer/message.go\<close>: the messages of the peer wire protocol and their
  serialisation. A reader is the list of bytes the connection still delivers before it ends;
  a message that may be nil (a keep-alive) is an option.
\<close>

section \<open>Messages\<close>

definition MsgChoke :: byte where "MsgChoke = 0"
definition MsgUnchoke :: byte where "MsgUnchoke = 1"
definition MsgInterested :: byte where "MsgInterested = 2"
definition MsgNotInterested :: byte where "MsgNotInterested = 3"
definition MsgHave :: byte where "MsgHave = 4"
definition MsgBitfield :: byte where "MsgBitfield = 5"
definition MsgRequest :: byte where "MsgRequest = 6"
definition MsgPiece :: byte where "MsgPiece = 7"
definition MsgCancel :: byte where "MsgCancel = 8"
definition MsgExtended :: byte where "MsgExtended = 20"

lemmas msg_ids = MsgChoke_def MsgUnchoke_def MsgInterested_def MsgNotInterested_def MsgHave_def
  MsgBitfield_def MsgRequest_def MsgPiece_def MsgCancel_def MsgExtended_def

definition BlockSize :: int where "BlockSize = 16384"

definition MaxMessageLen :: nat where "MaxMessageLen = 2 ^ 24"

record message =
  ID :: byte
  Payload :: bytes

section \<open>Reading and writing\<close>

text \<open>\<^verbatim>\<open>io.ReadFull\<close> of \<open>n\<close> bytes.\<close>

definition ReadFull :: "nat \<Rightarrow> bytes \<Rightarrow> (bytes \<times> bytes) option" where
  "ReadFull n r = (if length r < n then None else Some (take n r, drop n r))"

definition ReadMessage :: "bytes \<Rightarrow> error + message option \<times> bytes" where
  "ReadMessage r =
     (case ReadFull 4 r of None \<Rightarrow> Inl Peer_ErrUnexpectedEOF
      | Some (hdr, r') \<Rightarrow>
          (let len = get_u32 hdr in
           if len = 0 then Inr (None, r')
           else if len > of_nat MaxMessageLen then Inl ErrMessageTooLarge
           else case ReadFull (unat len) r' of None \<Rightarrow> Inl Peer_ErrUnexpectedEOF
             | Some (buf, r'') \<Rightarrow> Inr (Some \<lparr>ID = hd buf, Payload = tl buf\<rparr>, r'')))"

definition WriteMessage :: "message option \<Rightarrow> bytes" where
  "WriteMessage msg =
     (case msg of None \<Rightarrow> [0, 0, 0, 0]
      | Some m \<Rightarrow> put_u32 (of_nat (1 + length (Payload m))) @ ID m # Payload m)"

definition NewRequest :: "32 word \<Rightarrow> 32 word \<Rightarrow> 32 word \<Rightarrow> message" where
  "NewRequest index begin len =
     \<lparr>ID = MsgRequest, Payload = put_u32 index @ put_u32 begin @ put_u32 len\<rparr>"

definition NewHave :: "32 word \<Rightarrow> message" where
  "NewHave index = \<lparr>ID = MsgHave, Payload = put_u32 index\<rparr>"

definition NewInterested :: message where
  "NewInterested = \<lparr>ID = MsgInterested, Payload = []\<rparr>"

definition NewNotInterested :: message where
  "NewNotInterested = \<lparr>ID = MsgNotInterested, Payload = []\<rparr>"

definition ParsePiece :: "bytes \<Rightarrow> error + (32 word \<times> 32 word \<times> bytes)" where
  "ParsePiece payload =
     (if length payload < 8 then Inl ErrOther
      else Inr (get_u32 (take 4 payload), get_u32 (take 4 (drop 4 payload)), drop 8 payload))"

definition ParseHave :: "bytes \<Rightarrow> error + 32 word" where
  "ParseHave payload = (if length payload \<noteq> 4 then Inl ErrOther else Inr (get_u32 payload))"

definition ParseRequest :: "bytes \<Rightarrow> error + (32 word \<times> 32 word \<times> 32 word)" where
  "ParseRequest payload =
     (if length payload \<noteq> 12 then Inl ErrOther
      else Inr (get_u32 (take 4 payload), get_u32 (take 4 (drop 4 payload)),
                get_u32 (take 4 (drop 8 payload))))"

section \<open>Facts\<close>

lemma ReadFull_append: "length a = n \<Longrightarrow> ReadFull n (a @ r) = Some (a, r)"
  by (simp add: ReadFull_def)

lemma ReadMessage_length: "ReadMessage r = Inr (m, r') \<Longrightarrow> length r' < length r"
  by (auto simp: ReadMessage_def ReadFull_def Let_def split: if_splits)

text \<open>A message within the limit of the reader.\<close>

definition msg_fits :: "message option \<Rightarrow> bool" where
  "msg_fits msg = (case msg of None \<Rightarrow> True | Some m \<Rightarrow> length (Payload m) < MaxMessageLen)"

lemma unat_msg_len: "n < 2 ^ 32 \<Longrightarrow> unat (of_nat n :: 32 word) = n"
  by (simp add: unat_of_nat)

lemma ReadMessage_Write:
  assumes "msg_fits msg"
  shows "ReadMessage (WriteMessage msg @ r) = Inr (msg, r)"
proof (cases msg)
  case None
  then show ?thesis by (simp add: ReadMessage_def WriteMessage_def ReadFull_def)
next
  case (Some m)
  let ?n = "1 + length (Payload m)"
  from assms Some have n: "?n \<le> 2 ^ 24" by (simp add: msg_fits_def MaxMessageLen_def)
  then have u: "unat (of_nat ?n :: 32 word) = ?n" by (intro unat_msg_len) simp
  have "(of_nat ?n :: 32 word) \<noteq> 0" using u by (metis unat_0 add_is_0 one_neq_zero)
  moreover have "\<not> (of_nat ?n :: 32 word) > of_nat MaxMessageLen"
    using n u by (simp add: word_less_nat_alt MaxMessageLen_def)
  moreover have "ReadFull ?n (ID m # Payload m @ r) = Some (ID m # Payload m, r)"
    by (simp add: ReadFull_def)
  ultimately show ?thesis
    using u Some
    by (simp add: ReadMessage_def WriteMessage_def ReadFull_append Let_def del: of_nat_Suc of_nat_add)
qed

interpretation wire: stream_codec WriteMessage ReadMessage id msg_fits
  by unfold_locales (simp add: ReadMessage_Write)

section \<open>Properties of the messages\<close>

text \<open>C22. What one side writes the other side reads: any sequence of messages and
  keep-alives within the size limit, written one after the other, is read back in the same
  order, and what follows it on the stream is left unread.\<close>

theorem messages_roundtrip:
  assumes "\<forall>m\<in>set ms. msg_fits m"
  shows "read_seq ReadMessage (length ms) (concat (map WriteMessage ms) @ rest) = Inr (ms, rest)"
  using wire.read_stream [OF assms, of rest] by simp

theorem messages_roundtrip_witness:
  "read_seq ReadMessage 3
     (concat (map WriteMessage [Some (NewRequest 1 0 16384), None, Some NewInterested]) @ [9, 9]) =
   Inr ([Some (NewRequest 1 0 16384), None, Some NewInterested], [9, 9])"
proof -
  have 1: "\<forall>m\<in>set [Some (NewRequest 1 0 16384), None, Some NewInterested]. msg_fits m"
    by (simp add: msg_fits_def NewRequest_def NewInterested_def MaxMessageLen_def)
  with messages_roundtrip [OF 1, of "[9, 9]"] show ?thesis by (simp add: numeral_3_eq_3)
qed

text \<open>A message above the limit (but within the 32-bit length field) is refused by the
  reader with \<^verbatim>\<open>ErrMessageTooLarge\<close>, whatever the connection holds after it.\<close>

theorem oversized_refused:
  assumes "MaxMessageLen \<le> length (Payload m)" and "length (Payload m) < 2 ^ 32 - 1"
  shows "ReadMessage (WriteMessage (Some m) @ rest) = Inl ErrMessageTooLarge"
proof -
  let ?n = "1 + length (Payload m)"
  from assms have u: "unat (of_nat ?n :: 32 word) = ?n" by (intro unat_msg_len) simp
  have "(of_nat ?n :: 32 word) > of_nat MaxMessageLen"
    using u assms by (simp add: word_less_nat_alt MaxMessageLen_def)
  moreover from this have "(of_nat ?n :: 32 word) \<noteq> 0" by auto
  ultimately show ?thesis
    by (simp add: ReadMessage_def WriteMessage_def ReadFull_append Let_def del: of_nat_Suc of_nat_add)
qed

theorem oversized_refused_witness:
  "ReadMessage (WriteMessage (Some \<lparr>ID = MsgPiece, Payload = replicate (2 ^ 24) 0\<rparr>) @ [1]) =
    Inl ErrMessageTooLarge"
proof -
  have 1: "MaxMessageLen \<le> length (Payload \<lparr>ID = MsgPiece, Payload = replicate (2 ^ 24) 0\<rparr>)"
    by (simp add: MaxMessageLen_def)
  have 2: "length (Payload \<lparr>ID = MsgPiece, Payload = replicate (2 ^ 24) 0\<rparr>) < 2 ^ 32 - 1"
    by simp
  show ?thesis by (rule oversized_refused [OF 1 2])
qed

lemma be_word_inj:
  assumes "length s = length t" and "LENGTH('a) = 8 * length s"
    and "(be_word s :: 'a::len word) = be_word t"
  shows "s = t"
proof (rule nth_equalityI)
  fix i
  assume i: "i < length s"
  show "s ! i = t ! i"
  proof (rule bit_word_eqI)
    fix n
    assume n: "n < LENGTH(8)"
    let ?k = "8 * (length s - 1 - i) + n"
    have k: "?k < LENGTH('a)" "?k div 8 = length s - 1 - i" "?k mod 8 = n"
      using i n assms(2) by auto
    have "length s - 1 - ?k div 8 = i" "?k div 8 < length s" using i k by auto
    moreover have "bit (be_word s :: 'a word) ?k = bit (be_word t :: 'a word) ?k"
      using assms(3) by simp
    ultimately show "bit (s ! i) n = bit (t ! i) n"
      unfolding bit_be_word using k assms(1) by simp
  qed
qed (use assms in simp)

lemma put_get_u32: "length s = 4 \<Longrightarrow> put_u32 (get_u32 s) = s"
  using be_word_inj [where ?'a = 32, of "put_u32 (get_u32 s)" s] by simp

lemma split_4_4: "p = take 4 p @ take 4 (drop 4 p) @ drop 8 p"
  by (metis append_take_drop_id drop_drop numeral_Bit0)

lemma ParseRequest_iff: "(ParseRequest p = Inr (i, b, l)) = (p = Payload (NewRequest i b l))"
proof -
  have "take 4 (drop 8 p) = drop 8 p" if "length p = 12" using that by simp
  then show ?thesis
    using split_4_4 [of p] put_get_u32 [of "take 4 p"] put_get_u32 [of "take 4 (drop 4 p)"]
      put_get_u32 [of "drop 8 p"]
    by (auto simp: ParseRequest_def NewRequest_def)
qed

lemma ParseHave_iff: "(ParseHave p = Inr i) = (p = Payload (NewHave i))"
  using put_get_u32 [of p] by (auto simp: ParseHave_def NewHave_def)

lemma ParsePiece_iff: "(ParsePiece p = Inr (i, b, d)) = (p = put_u32 i @ put_u32 b @ d)"
  using split_4_4 [of p] put_get_u32 [of "take 4 p"] put_get_u32 [of "take 4 (drop 4 p)"]
  by (auto simp: ParsePiece_def)

text \<open>The parsers of the payloads invert the constructors, and accept nothing of
  another length: a request, a have and a piece payload are parsed exactly when they are the
  encoding of the values returned.\<close>

theorem payload_parsers:
  "(ParseRequest p = Inr (i, b, l)) = (p = Payload (NewRequest i b l)) \<and>
   (ParseHave p = Inr i) = (p = Payload (NewHave i)) \<and>
   (ParsePiece p = Inr (i, b, d)) = (p = put_u32 i @ put_u32 b @ d)"
  by (simp only: ParseRequest_iff ParseHave_iff ParsePiece_iff)

end
