(* ===== verification/Conn.thy ===== *)
theory Conn
  imports Bencode Message
begin

text \<open>
  \<^verbatim>\<open>peer/conn.go\<close>: the connection to one peer, the protocol and extension
  handshakes, the metadata messages and the bitfield. A connection carries the bytes the
  remote side will still deliver before the stream ends or the deadline passes (\<open>rx\<close>), the
  bytes written to it (\<open>tx\<close>) and how many more flushes succeed (\<open>sends_ok\<close>); any
  behaviour of the remote side is some choice of these.
\<close>

section \<open>Connections\<close>

record conn =
  rx :: bytes
  tx :: bytes
  sends_ok :: nat
  InfoHash :: bytes
  PeerID :: bytes
  SupportsExtension :: bool
  ExtensionIDs :: "(bytes, int) gomap"
  MetadataSize :: int
  ourExtIDs :: "(bytes, int) gomap"

definition ProtocolID :: bytes where
  "ProtocolID = str ''BitTorrent protocol''"

definition ExtensionBit :: byte where
  "ExtensionBit = 16"

text \<open>Writing to the buffered writer and flushing it.\<close>

definition flush_bytes :: "bytes \<Rightarrow> conn \<Rightarrow> error + conn" where
  "flush_bytes bs c =
     (case sends_ok c of 0 \<Rightarrow> Inl ErrOther
      | Suc n \<Rightarrow> Inr (c\<lparr>tx := tx c @ bs, sends_ok := n\<rparr>))"

definition SendMessage :: "message option \<Rightarrow> conn \<Rightarrow> error + conn" where
  "SendMessage msg c = flush_bytes (WriteMessage msg) c"

definition RecvMessage :: "conn \<Rightarrow> error + message option \<times> conn" where
  "RecvMessage c =
     (case ReadMessage (rx c) of Inl e \<Rightarrow> Inl e | Inr (msg, r) \<Rightarrow> Inr (msg, c\<lparr>rx := r\<rparr>))"

section \<open>The handshake\<close>

definition handshake_bytes :: "bytes \<Rightarrow> bytes \<Rightarrow> bytes \<Rightarrow> bytes" where
  "handshake_bytes reserved infoHash peerID =
     of_nat (length ProtocolID) # ProtocolID @ reserved @ infoHash @ peerID"

definition sendHandshake :: "bytes \<Rightarrow> bytes \<Rightarrow> conn \<Rightarrow> error + conn" where
  "sendHandshake infoHash peerID c =
     (let reserved = (replicate 8 0)[5 := ExtensionBit]
      in flush_bytes (handshake_bytes reserved infoHash peerID) c)"

definition recvHandshake :: "bytes \<Rightarrow> conn \<Rightarrow> error + conn" where
  "recvHandshake expectedHash c =
     (case ReadFull 1 (rx c) of None \<Rightarrow> Inl ErrBadProtocol
      | Some (pstrLen, r) \<Rightarrow>
          if hd pstrLen \<noteq> 19 then Inl ErrBadProtocol
          else case ReadFull (48 + 19) r of None \<Rightarrow> Inl ErrBadProtocol
            | Some (buf, r') \<Rightarrow>
                let pstr = take 19 buf;
                    reserved = take 8 (drop 19 buf);
                    infoHash = take 20 (drop 27 buf);
                    peerID = take 20 (drop 47 buf)
                in if pstr \<noteq> ProtocolID then Inl ErrBadProtocol
                   else if infoHash \<noteq> expectedHash then Inl ErrBadInfoHash
                   else Inr (c\<lparr>rx := r',
                               SupportsExtension := (reserved ! 5) AND ExtensionBit \<noteq> 0,
                               PeerID := peerID\<rparr>))"

definition BuildHandshakeBytes :: "bytes \<Rightarrow> bytes \<Rightarrow> bool \<Rightarrow> bytes" where
  "BuildHandshakeBytes infoHash peerID supportExt =
     (let reserved = (if supportExt then (replicate 8 0)[5 := ExtensionBit] else replicate 8 0)
      in 19 # ProtocolID @ reserved @ infoHash @ peerID)"

definition EncodeUint32 :: "32 word \<Rightarrow> bytes" where
  "EncodeUint32 v = put_u32 v"

text \<open>
  \<^verbatim>\<open>Dial\<close>: \<open>link\<close> is what \<^verbatim>\<open>net.DialTimeout\<close> gives, the bytes that will
  arrive and the number of flushes that will succeed, or nothing where the connection fails.
\<close>

definition Dial :: "(bytes \<times> nat) option \<Rightarrow> bytes \<Rightarrow> bytes \<Rightarrow> error + conn" where
  "Dial link infoHash peerID =
     (case link of None \<Rightarrow> Inl ErrOther
      | Some (arriving, sends) \<Rightarrow>
          let c = \<lparr>rx = arriving, tx = [], sends_ok = sends, InfoHash = infoHash,
                   PeerID = replicate 20 0, SupportsExtension = False, ExtensionIDs = [],
                   MetadataSize = 0, ourExtIDs = []\<rparr>
          in case sendHandshake infoHash peerID c of Inl e \<Rightarrow> Inl e
             | Inr c' \<Rightarrow> recvHandshake infoHash c')"

section \<open>The extension protocol\<close>

definition SendExtensionHandshake :: "conn \<Rightarrow> error + conn" where
  "SendExtensionHandshake c =
     (let c' = c\<lparr>ourExtIDs := [(str ''ut_metadata'', 1)]\<rparr>;
          handshake = GMap [(str ''m'', GMap [(str ''ut_metadata'', GInt64 1)])]
      in case Encode handshake of Inl e \<Rightarrow> Inl e
         | Inr payload \<Rightarrow>
             flush_bytes (WriteMessage (Some \<lparr>ID = MsgExtended, Payload = 0 # payload\<rparr>)) c')"

text \<open>The loop over the entries of \<^verbatim>\<open>m\<close> keeps those with an integer value.\<close>

definition int64_entries :: "(bytes, any) gomap \<Rightarrow> (bytes, int) gomap" where
  "int64_entries m =
     foldl (\<lambda>ids (k, v). case v of GInt64 i \<Rightarrow> mput k i ids | _ \<Rightarrow> ids) [] m"

definition HandleExtensionHandshake :: "bytes \<Rightarrow> conn \<Rightarrow> error + conn" where
  "HandleExtensionHandshake payload c =
     (case Decode payload of
        Inl e \<Rightarrow> Inl (if e = Panic then Panic else ErrBadExtHandshake)
      | Inr (GMap dict) \<Rightarrow>
          (let c1 = (case as_map (mget dict (str ''m'')) of
                       Some m \<Rightarrow> c\<lparr>ExtensionIDs := int64_entries m\<rparr> | None \<Rightarrow> c);
               c2 = (case as_int64 (mget dict (str ''metadata_size'')) of
                       Some sz \<Rightarrow> c1\<lparr>MetadataSize := sz\<rparr> | None \<Rightarrow> c1)
           in Inr c2)
      | Inr _ \<Rightarrow> Inl ErrBadExtHandshake)"

definition RequestMetadataPiece :: "int \<Rightarrow> conn \<Rightarrow> error + conn" where
  "RequestMetadataPiece piece c =
     (case mget (ExtensionIDs c) (str ''ut_metadata'') of None \<Rightarrow> Inl ErrNoUtMetadata
      | Some utMetadata \<Rightarrow>
          (case Encode (GMap [(str ''msg_type'', GInt64 0), (str ''piece'', GInt64 piece)]) of
             Inl e \<Rightarrow> Inl e
           | Inr payload \<Rightarrow>
               flush_bytes (WriteMessage (Some
                 \<lparr>ID = MsgExtended, Payload = word_of_int utMetadata # payload\<rparr>)) c))"

definition ParseMetadataPiece :: "bytes \<Rightarrow> error + int \<times> bytes" where
  "ParseMetadataPiece payload =
     (case DecodeBytes payload of Inl e \<Rightarrow> Inl e
      | Inr (GMap dict, consumed) \<Rightarrow>
          (case as_int64 (mget dict (str ''msg_type'')) of
             None \<Rightarrow> Inl ErrBadMetadataResp
           | Some msgType \<Rightarrow>
               if msgType \<noteq> 1 then Inl ErrBadMetadataResp
               else case as_int64 (mget dict (str ''piece'')) of
                 None \<Rightarrow> Inl ErrBadMetadataResp
               | Some pieceVal \<Rightarrow> Inr (pieceVal, drop (nat consumed) payload))
      | Inr _ \<Rightarrow> Inl ErrBadMetadataResp)"

section \<open>The bitfield\<close>

text \<open>
  The shifted \<^verbatim>\<open>1\<close> is a byte, so a bit index of 8 or more (a negative piece index)
  shifts it out.
\<close>

type_synonym bitfield = bytes

definition HasPiece :: "bitfield \<Rightarrow> int \<Rightarrow> bool" where
  "HasPiece bf index =
     (let byteIdx = index sdiv 8; bitIdx = nat (7 - index smod 8)
      in if byteIdx < 0 \<or> byteIdx \<ge> int (length bf) then False
         else bf ! nat byteIdx AND push_bit bitIdx 1 \<noteq> 0)"

definition SetPiece :: "int \<Rightarrow> bitfield \<Rightarrow> bitfield" where
  "SetPiece index bf =
     (let byteIdx = index sdiv 8; bitIdx = nat (7 - index smod 8)
      in if byteIdx \<ge> 0 \<and> byteIdx < int (length bf)
         then bf[nat byteIdx := bf ! nat byteIdx OR push_bit bitIdx 1] else bf)"

definition NewBitfield :: "int \<Rightarrow> bitfield" where
  "NewBitfield numPieces = replicate (nat ((numPieces + 7) sdiv 8)) 0"

definition ReadN :: "bytes \<Rightarrow> nat \<Rightarrow> error + bytes \<times> bytes" where
  "ReadN r n = (case ReadFull n r of None \<Rightarrow> Inl ErrOther | Some (buf, r') \<Rightarrow> Inr (buf, r'))"

section \<open>Facts about connections\<close>

lemma flush_bytes_iff:
  "flush_bytes bs c = Inr c' \<longleftrightarrow>
    0 < sends_ok c \<and> c' = c\<lparr>tx := tx c @ bs, sends_ok := sends_ok c - 1\<rparr>"
  by (auto simp: flush_bytes_def split: nat.splits)

lemma RecvMessage_length: "RecvMessage c = Inr (m, c') \<Longrightarrow> length (rx c') < length (rx c)"
  by (auto simp: RecvMessage_def dest: ReadMessage_length split: sum.splits)

lemma RecvMessage_frame:
  "RecvMessage c = Inr (m, c') \<Longrightarrow> c' = c\<lparr>rx := rx c'\<rparr>"
  by (auto simp: RecvMessage_def split: sum.splits)

lemma RecvMessage_Write:
  "msg_fits m \<Longrightarrow> RecvMessage (c\<lparr>rx := WriteMessage m @ r\<rparr>) = Inr (m, c\<lparr>rx := r\<rparr>)"
  by (simp add: RecvMessage_def ReadMessage_Write)

lemma length_ProtocolID [simp]: "length ProtocolID = 19"
  by (simp add: ProtocolID_def)

text \<open>The layout of a handshake: 68 bytes cut at fixed places.\<close>

lemma handshake_split:
  assumes "length buf = 67"
  shows "buf = take 19 buf @ take 8 (drop 19 buf) @ take 20 (drop 27 buf) @ take 20 (drop 47 buf)"
  using assms drop_split [of 0 buf 19] drop_split [of 19 buf 8] drop_split [of 27 buf 20]
    drop_split [of 47 buf 20] by simp

lemma recvHandshake_layout:
  assumes "length res = 8" and "length ih = 20" and "length pid = 20"
  shows "recvHandshake h (c\<lparr>rx := 19 # ProtocolID @ res @ ih @ pid @ rest\<rparr>) =
    (if ih \<noteq> h then Inl ErrBadInfoHash
     else Inr (c\<lparr>rx := rest, SupportsExtension := (res ! 5) AND ExtensionBit \<noteq> 0, PeerID := pid\<rparr>))"
  using assms by (auto simp: recvHandshake_def ReadFull_def Let_def)

lemma recvHandshake_iff:
  "recvHandshake h c = Inr c' \<longleftrightarrow>
    (\<exists>res pid rest. rx c = 19 # ProtocolID @ res @ h @ pid @ rest \<and>
       length res = 8 \<and> length h = 20 \<and> length pid = 20 \<and>
       c' = c\<lparr>rx := rest, SupportsExtension := (res ! 5) AND ExtensionBit \<noteq> 0, PeerID := pid\<rparr>)"
  (is "_ \<longleftrightarrow> ?R")
proof
  assume ok: "recvHandshake h c = Inr c'"
  then obtain b r where r: "rx c = b # r" and b: "b = 19" and len: "67 \<le> length r"
    by (cases "rx c") (auto simp: recvHandshake_def ReadFull_def split: if_splits)
  define buf where "buf = take 67 r"
  have buf: "length buf = 67" "r = buf @ drop 67 r" using len by (simp_all add: buf_def)
  have h: "take 19 buf = ProtocolID" "take 20 (drop 27 buf) = h"
    and c': "c' = c\<lparr>rx := drop 67 r,
      SupportsExtension := (take 8 (drop 19 buf) ! 5) AND ExtensionBit \<noteq> 0,
      PeerID := take 20 (drop 47 buf)\<rparr>"
    using ok r b len by (auto simp: recvHandshake_def ReadFull_def Let_def buf_def split: if_splits)
  have "rx c = 19 # ProtocolID @ take 8 (drop 19 buf) @ h @ take 20 (drop 47 buf) @ drop 67 r"
    using r b buf(2) handshake_split [OF buf(1)] h by (metis append_assoc)
  moreover have "length h = 20" "length (take 20 (drop 47 buf)) = 20" "length (take 8 (drop 19 buf)) = 8"
    using buf(1) h(2) by auto
  ultimately show ?R using c' by blast
next
  assume ?R
  then obtain res pid rest where r: "rx c = 19 # ProtocolID @ res @ h @ pid @ rest"
    and l: "length res = 8" "length h = 20" "length pid = 20"
    and c': "c' = c\<lparr>rx := rest, SupportsExtension := (res ! 5) AND ExtensionBit \<noteq> 0, PeerID := pid\<rparr>"
    by blast
  have "c\<lparr>rx := 19 # ProtocolID @ res @ h @ pid @ rest\<rparr> = c"
    using r by (cases c) simp
  then show "recvHandshake h c = Inr c'"
    using recvHandshake_layout [OF l, where h = h and c = c and rest = rest] c' by simp
qed

lemma BuildHandshake_send:
  "BuildHandshakeBytes ih pid True = handshake_bytes ((replicate 8 0)[5 := ExtensionBit]) ih pid"
  by (simp add: BuildHandshakeBytes_def handshake_bytes_def)

section \<open>Facts about the extension protocol\<close>

lemma int64_entries_mget:
  "map_ok m \<Longrightarrow> mget (int64_entries m) k = as_int64 (mget m k)"
proof (induction m rule: rev_induct)
  case Nil
  then show ?case by (simp add: int64_entries_def)
next
  case (snoc e m)
  obtain k' v where e: "e = (k', v)" by (cases e)
  from snoc.prems have m: "map_ok m" and k': "mget m k' = None"
    unfolding e map_ok_append by (auto simp: map_of_eq_None_iff)
  have ok: "map_ok (int64_entries m)" for m :: "(bytes, any) gomap"
    unfolding int64_entries_def
    by (induction m rule: rev_induct) (auto simp: map_ok_mput split: any.splits)
  have "int64_entries (m @ [e]) = (case v of GInt64 i \<Rightarrow> mput k' i (int64_entries m)
      | _ \<Rightarrow> int64_entries m)"
    by (simp add: int64_entries_def e split: any.splits)
  with snoc.IH [OF m] k' e show ?case
    by (auto simp: mget_mput [OF ok] map_add_def split: any.splits option.splits)
qed

section \<open>Facts about the bitfield\<close>

lemma HasPiece_bit:
  "HasPiece bf i \<longleftrightarrow> 0 \<le> i sdiv 8 \<and> i sdiv 8 < int (length bf) \<and>
     bit (bf ! nat (i sdiv 8)) (nat (7 - i smod 8))"
  by (auto simp: HasPiece_def Let_def bit_iff_and_push_bit_not_eq_0)

lemma sdiv8_cases:
  fixes i :: int
  shows "(0 \<le> i \<and> i sdiv 8 = i div 8 \<and> i smod 8 = i mod 8) \<or>
    (i < 0 \<and> i sdiv 8 \<le> 0 \<and> (i sdiv 8 = 0 \<longrightarrow> i smod 8 < 0))"
proof (cases "0 \<le> i")
  case True
  then show ?thesis
    by (cases "i = 0") (simp_all add: signed_divide_int_def signed_modulo_int_def
      minus_div_mult_eq_mod)
next
  case False
  then have "i sdiv 8 = - ((- i) div 8)" by (simp add: signed_divide_int_def)
  moreover have "i smod 8 = i - i sdiv 8 * 8"
    using sdiv_mult_smod_eq [of i 8] by simp
  ultimately show ?thesis using False by auto
qed

lemma HasPiece_range: "HasPiece bf i \<Longrightarrow> 0 \<le> i \<and> i < 8 * int (length bf)"
  using sdiv8_cases [of i] bit_imp_le_length [of "bf ! nat (i sdiv 8)" "nat (7 - i smod 8)"]
  by (auto simp: HasPiece_bit)

lemma set_bit_at:
  assumes "0 \<le> a" and "a < int (length bf)" and "0 \<le> b" and "b < int (length bf)"
  shows "bit (bf[nat a := bf ! nat a OR 2 ^ m] ! nat b :: byte) n \<longleftrightarrow>
    bit (bf ! nat b) n \<or> (a = b \<and> m = n \<and> n < 8)"
proof (cases "a = b")
  case True
  with assms show ?thesis by (auto simp: bit_simps)
next
  case False
  with assms show ?thesis by simp
qed

lemma position_eq:
  fixes i j :: int
  shows "i div 8 = j div 8 \<and> nat (7 - i mod 8) = nat (7 - j mod 8) \<longleftrightarrow> i = j"
proof
  assume eq: "i div 8 = j div 8 \<and> nat (7 - i mod 8) = nat (7 - j mod 8)"
  moreover have "0 \<le> 7 - i mod 8" "0 \<le> 7 - j mod 8"
    using pos_mod_bound [of 8 i] pos_mod_bound [of 8 j] by linarith+
  ultimately have "i mod 8 = j mod 8" by (auto simp: eq_nat_nat_iff)
  with eq show "i = j" by (metis mult_div_mod_eq)
qed simp

lemma position_sdiv_eq:
  fixes i j :: int
  assumes "0 \<le> i sdiv 8" and "0 \<le> j sdiv 8"
  shows "i sdiv 8 = j sdiv 8 \<and> nat (7 - i smod 8) = nat (7 - j smod 8) \<and> nat (7 - j smod 8) < 8
    \<longleftrightarrow> i = j \<and> 0 \<le> i"
proof (cases "0 \<le> i \<and> 0 \<le> j")
  case True
  then have eqs: "i sdiv 8 = i div 8" "i smod 8 = i mod 8" "j sdiv 8 = j div 8" "j smod 8 = j mod 8"
    using sdiv8_cases [of i] sdiv8_cases [of j] by auto
  have "nat (7 - j mod 8) < 8" using pos_mod_sign [of 8 j] by linarith
  with True show ?thesis unfolding eqs using position_eq [of i j] by simp
next
  case False
  have neg: "\<not> nat (7 - k smod 8) < 8" if "k < 0" "0 \<le> k sdiv 8" for k :: int
    using sdiv8_cases [of k] that by linarith
  then show ?thesis using False assms by (metis not_le)
qed

lemma HasPiece_SetPiece:
  "HasPiece (SetPiece i bf) j \<longleftrightarrow>
    HasPiece bf j \<or> (i = j \<and> 0 \<le> i \<and> i < 8 * int (length bf))"
proof (cases "0 \<le> i sdiv 8 \<and> i sdiv 8 < int (length bf) \<and> 0 \<le> j sdiv 8 \<and> j sdiv 8 < int (length bf)")
  case True
  then have "HasPiece (SetPiece i bf) j \<longleftrightarrow> bit (bf ! nat (j sdiv 8)) (nat (7 - j smod 8)) \<or>
      (i sdiv 8 = j sdiv 8 \<and> nat (7 - i smod 8) = nat (7 - j smod 8) \<and> nat (7 - j smod 8) < 8)"
    by (simp add: HasPiece_bit SetPiece_def Let_def set_bit_at)
  also have "\<dots> \<longleftrightarrow> bit (bf ! nat (j sdiv 8)) (nat (7 - j smod 8)) \<or> (i = j \<and> 0 \<le> i)"
    using True by (simp only: position_sdiv_eq)
  also have "i = j \<and> 0 \<le> i \<longleftrightarrow> i = j \<and> 0 \<le> i \<and> i < 8 * int (length bf)"
    using sdiv8_cases [of i] True by linarith
  finally show ?thesis using True by (simp add: HasPiece_bit)
next
  case False
  have "\<not> (i = j \<and> 0 \<le> i \<and> i < 8 * int (length bf))"
  proof
    assume h: "i = j \<and> 0 \<le> i \<and> i < 8 * int (length bf)"
    then have "i sdiv 8 = i div 8" using sdiv8_cases [of i] by auto
    moreover have "0 \<le> i div 8" "i div 8 < int (length bf)" using h by auto
    ultimately show False using False h by auto
  qed
  moreover have "HasPiece (SetPiece i bf) j \<longleftrightarrow> HasPiece bf j"
    using False by (auto simp: HasPiece_bit SetPiece_def Let_def)
  ultimately show ?thesis by blast
qed

section \<open>The interface of a set of pieces\<close>

text \<open>
  What the sessions rely on when they keep a peer's bitfield up to date: setting a piece
  adds that piece and no other, where the index is within the capacity.
\<close>

locale piece_set =
  fixes has :: "'s \<Rightarrow> int \<Rightarrow> bool"
    and set_at :: "int \<Rightarrow> 's \<Rightarrow> 's"
    and cap :: "'s \<Rightarrow> int"
  assumes has_set: "has (set_at i s) j \<longleftrightarrow> has s j \<or> (i = j \<and> 0 \<le> i \<and> i < cap s)"
    and cap_set: "cap (set_at i s) = cap s"
    and has_range: "has s j \<Longrightarrow> 0 \<le> j \<and> j < cap s"
begin

lemma cap_fold: "cap (fold set_at is s) = cap s"
  by (induction "is" arbitrary: s) (simp_all add: cap_set)

lemma has_fold: "has (fold set_at is s) j \<longleftrightarrow> has s j \<or> (j \<in> set is \<and> 0 \<le> j \<and> j < cap s)"
  by (induction "is" arbitrary: s) (auto simp: has_set cap_set)

lemma has_fold_mono: "has s j \<Longrightarrow> has (fold set_at is s) j"
  by (simp add: has_fold)

lemma fold_order:
  assumes "set is = set js"
  shows "has (fold set_at is s) j \<longleftrightarrow> has (fold set_at js s) j"
  using assms by (simp add: has_fold)

end

lemma length_SetPiece [simp]: "length (SetPiece i bf) = length bf"
  by (simp add: SetPiece_def Let_def)

interpretation bitfield: piece_set HasPiece SetPiece "\<lambda>bf. 8 * int (length bf)"
proof unfold_locales
  show "HasPiece (SetPiece i bf) j \<longleftrightarrow> HasPiece bf j \<or> (i = j \<and> 0 \<le> i \<and> i < 8 * int (length bf))"
    for i bf j by (rule HasPiece_SetPiece)
  show "HasPiece bf j \<Longrightarrow> 0 \<le> j \<and> j < 8 * int (length bf)" for bf j
    by (rule HasPiece_range)
qed simp

lemma NewBitfield_capacity: "0 \<le> n \<Longrightarrow> n \<le> 8 * int (length (NewBitfield n))"
proof -
  assume n: "0 \<le> n"
  have "n \<le> 8 * ((n + 7) div 8)" by linarith
  with n show ?thesis using sdiv8_cases [of "n + 7"] by (simp add: NewBitfield_def)
qed

lemma HasPiece_NewBitfield: "\<not> HasPiece (NewBitfield n) j"
  by (auto simp: HasPiece_bit NewBitfield_def)

section \<open>Properties of the connection\<close>

text \<open>C23. The handshake is accepted exactly when the stream starts with the protocol header
  and the expected info hash; then the peer id and the extension bit are those of the remote
  side and the stream stands right after the 68 bytes. A handshake for another torrent is
  refused as \<^verbatim>\<open>ErrBadInfoHash\<close>.\<close>

theorem recvHandshake_spec:
  "(recvHandshake h c = Inr c') =
    (\<exists>res pid rest. rx c = 19 # ProtocolID @ res @ h @ pid @ rest \<and>
       length res = 8 \<and> length h = 20 \<and> length pid = 20 \<and>
       c' = c\<lparr>rx := rest, SupportsExtension := (res ! 5) AND ExtensionBit \<noteq> 0, PeerID := pid\<rparr>) \<and>
   (recvHandshake h c = Inl ErrBadInfoHash) =
    (\<exists>res ih pid rest. rx c = 19 # ProtocolID @ res @ ih @ pid @ rest \<and>
       length res = 8 \<and> length ih = 20 \<and> length pid = 20 \<and> ih \<noteq> h)"
proof -
  have "(recvHandshake h c = Inl ErrBadInfoHash) =
    (\<exists>res ih pid rest. rx c = 19 # ProtocolID @ res @ ih @ pid @ rest \<and>
       length res = 8 \<and> length ih = 20 \<and> length pid = 20 \<and> ih \<noteq> h)" (is "_ = ?R")
  proof
    assume bad: "recvHandshake h c = Inl ErrBadInfoHash"
    then obtain ih where ih: "take 20 (drop 27 (take 67 (tl (rx c)))) = ih" "ih \<noteq> h"
      and "recvHandshake ih c = Inr (c\<lparr>rx := drop 67 (tl (rx c)),
        SupportsExtension := (take 8 (drop 19 (take 67 (tl (rx c)))) ! 5) AND ExtensionBit \<noteq> 0,
        PeerID := take 20 (drop 47 (take 67 (tl (rx c))))\<rparr>)"
      by (cases "rx c") (auto simp: recvHandshake_def ReadFull_def Let_def split: if_splits)
    then show ?R unfolding recvHandshake_iff by blast
  next
    assume ?R
    then obtain res ih pid rest where r: "rx c = 19 # ProtocolID @ res @ ih @ pid @ rest"
      and l: "length res = 8" "length ih = 20" "length pid = 20" and n: "ih \<noteq> h"
      by blast
    have "c\<lparr>rx := 19 # ProtocolID @ res @ ih @ pid @ rest\<rparr> = c" using r by (cases c) simp
    then show "recvHandshake h c = Inl ErrBadInfoHash"
      using recvHandshake_layout [OF l, where h = h and c = c and rest = rest] n by simp
  qed
  then show ?thesis using recvHandshake_iff by blast
qed

lemma Dial_handshake_run:
  assumes "length ih = 20" and "length pid = 20"
  shows "Dial (Some (BuildHandshakeBytes ih pid ext @ rest, Suc n)) ih ours =
    Inr \<lparr>rx = rest, tx = BuildHandshakeBytes ih ours True, sends_ok = n, InfoHash = ih,
      PeerID = pid, SupportsExtension = ext, ExtensionIDs = [], MetadataSize = 0, ourExtIDs = []\<rparr>"
proof -
  define res :: bytes where "res = (if ext then (replicate 8 0)[5 := ExtensionBit] else replicate 8 0)"
  have res: "length res = 8" "(res ! 5 AND ExtensionBit \<noteq> 0) = ext"
    by (simp_all add: res_def ExtensionBit_def)
  have b: "BuildHandshakeBytes ih pid ext @ rest = 19 # ProtocolID @ res @ ih @ pid @ rest"
    by (simp add: BuildHandshakeBytes_def res_def Let_def)
  let ?c = "\<lparr>rx = [], tx = BuildHandshakeBytes ih ours True, sends_ok = n, InfoHash = ih,
      PeerID = replicate 20 0, SupportsExtension = False, ExtensionIDs = [], MetadataSize = 0,
      ourExtIDs = []\<rparr>"
  have "Dial (Some (BuildHandshakeBytes ih pid ext @ rest, Suc n)) ih ours =
      recvHandshake ih (?c\<lparr>rx := 19 # ProtocolID @ res @ ih @ pid @ rest\<rparr>)"
    by (simp add: Dial_def sendHandshake_def flush_bytes_def BuildHandshake_send Let_def b)
  also have "\<dots> = Inr (?c\<lparr>rx := rest, SupportsExtension := ext, PeerID := pid\<rparr>)"
    using recvHandshake_layout [OF res(1) assms, where h = ih and c = "?c" and rest = rest] res(2)
    by simp
  finally show ?thesis by simp
qed

text \<open>C24. Two clients that dial each other with the same info hash agree: a connection to a
  remote side that sends its handshake succeeds, has sent exactly our own 68 bytes (with the
  extension bit set), and knows the remote peer id and whether it supports extensions; what
  the remote side sends next is unread.\<close>

theorem Dial_handshake:
  assumes "length ih = 20" and "length pid = 20"
  shows "Dial (Some (BuildHandshakeBytes ih pid ext @ rest, Suc n)) ih ours =
    Inr \<lparr>rx = rest, tx = BuildHandshakeBytes ih ours True, sends_ok = n, InfoHash = ih,
      PeerID = pid, SupportsExtension = ext, ExtensionIDs = [], MetadataSize = 0, ourExtIDs = []\<rparr>"
  by (rule Dial_handshake_run [OF assms])

theorem Dial_handshake_witness:
  "Dial (Some (BuildHandshakeBytes (replicate 20 7) (replicate 20 8) True @ [0, 0, 0, 0], 3))
      (replicate 20 7) (replicate 20 9) =
    Inr \<lparr>rx = [0, 0, 0, 0], tx = BuildHandshakeBytes (replicate 20 7) (replicate 20 9) True,
      sends_ok = 2, InfoHash = replicate 20 7, PeerID = replicate 20 8,
      SupportsExtension = True, ExtensionIDs = [], MetadataSize = 0, ourExtIDs = []\<rparr>"
  using Dial_handshake [of "replicate 20 7" "replicate 20 8" True "[0, 0, 0, 0]" 2 "replicate 20 9"]
  by (simp add: numeral_3_eq_3 numeral_2_eq_2)

text \<open>The extension handshake we send, handled by a peer that runs the same code, tells
  it our id 1 for \<^verbatim>\<open>ut_metadata\<close>; the bytes are one message with id 20 and sub-id 0.\<close>

theorem extension_handshake_roundtrip:
  assumes "SendExtensionHandshake c = Inr c'"
  shows "\<exists>payload. tx c' = tx c @ WriteMessage (Some \<lparr>ID = MsgExtended, Payload = 0 # payload\<rparr>) \<and>
    HandleExtensionHandshake payload d = Inr (d\<lparr>ExtensionIDs := [(str ''ut_metadata'', 1)]\<rparr>) \<and>
    ourExtIDs c' = [(str ''ut_metadata'', 1)]"
proof -
  let ?v = "GMap [(str ''m'', GMap [(str ''ut_metadata'', GInt64 1)])]"
  have ok: "val_ok ?v" by (simp add: map_ok_Cons int64_ok_def max_alloc_def)
  then obtain p where p: "Encode ?v = Inr p"
    using encode_supported [of ?v] by (auto simp: Encode_def)
  have "Decode p = Inr ?v"
    using bencode.read_enc [of ?v "[]"] ok p by (simp add: Encode_def Decode_def)
  then have "HandleExtensionHandshake p d = Inr (d\<lparr>ExtensionIDs := [(str ''ut_metadata'', 1)]\<rparr>)"
    by (simp add: HandleExtensionHandshake_def int64_entries_def str_def)
  moreover have "tx c' = tx c @ WriteMessage (Some \<lparr>ID = MsgExtended, Payload = 0 # p\<rparr>)"
    "ourExtIDs c' = [(str ''ut_metadata'', 1)]"
    using assms p by (auto simp: SendExtensionHandshake_def flush_bytes_iff Let_def)
  ultimately show ?thesis by blast
qed

theorem extension_handshake_roundtrip_witness:
  "\<exists>payload. tx (\<lparr>rx = [], tx = WriteMessage (Some \<lparr>ID = MsgExtended, Payload =
       0 # str ''d1:md11:ut_metadatai1eee''\<rparr>), sends_ok = 0, InfoHash = [], PeerID = [],
       SupportsExtension = True, ExtensionIDs = [], MetadataSize = 0,
       ourExtIDs = [(str ''ut_metadata'', 1)]\<rparr> :: conn) =
     WriteMessage (Some \<lparr>ID = MsgExtended, Payload = 0 # payload\<rparr>) \<and>
   HandleExtensionHandshake payload \<lparr>rx = [], tx = [], sends_ok = 0, InfoHash = [], PeerID = [],
       SupportsExtension = True, ExtensionIDs = [], MetadataSize = 7, ourExtIDs = []\<rparr> =
     Inr \<lparr>rx = [], tx = [], sends_ok = 0, InfoHash = [], PeerID = [], SupportsExtension = True,
       ExtensionIDs = [(str ''ut_metadata'', 1)], MetadataSize = 7, ourExtIDs = []\<rparr>"
proof -
  have 1: "SendExtensionHandshake \<lparr>rx = [], tx = [], sends_ok = 1, InfoHash = [], PeerID = [],
       SupportsExtension = True, ExtensionIDs = [], MetadataSize = 0, ourExtIDs = []\<rparr> =
    Inr \<lparr>rx = [], tx = WriteMessage (Some \<lparr>ID = MsgExtended, Payload =
       0 # str ''d1:md11:ut_metadatai1eee''\<rparr>), sends_ok = 0, InfoHash = [], PeerID = [],
       SupportsExtension = True, ExtensionIDs = [], MetadataSize = 0,
       ourExtIDs = [(str ''ut_metadata'', 1)]\<rparr>" by code_simp
  from extension_handshake_roundtrip [OF 1, of "\<lparr>rx = [], tx = [], sends_ok = 0, InfoHash = [],
      PeerID = [], SupportsExtension = True, ExtensionIDs = [], MetadataSize = 7, ourExtIDs = []\<rparr>"]
  show ?thesis by simp
qed

text \<open>A metadata message, a bencoded dictionary followed by raw bytes, is taken apart
  exactly where the dictionary ends: for any dictionary, the parser returns the piece index
  and the raw bytes where \<^verbatim>\<open>msg_type\<close> is 1 and \<^verbatim>\<open>piece\<close> an integer, and
  \<^verbatim>\<open>ErrBadMetadataResp\<close> otherwise.\<close>

theorem ParseMetadataPiece_spec:
  assumes "val_ok (GMap d)" and "Encode (GMap d) = Inr bs"
  shows "ParseMetadataPiece (bs @ raw) =
    (case (as_int64 (map_option norm (mget d (str ''msg_type''))),
           as_int64 (map_option norm (mget d (str ''piece'')))) of
       (Some t, Some i) \<Rightarrow> if t = 1 then Inr (i, raw) else Inl ErrBadMetadataResp
     | _ \<Rightarrow> Inl ErrBadMetadataResp)"
  by (simp add: ParseMetadataPiece_def DecodeBytes_map [OF assms] mget_norm_entries
      split: option.splits)

theorem ParseMetadataPiece_spec_witness:
  "ParseMetadataPiece (str ''d8:msg_typei1e5:piecei3ee'' @ [1, 2, 3]) = Inr (3, [1, 2, 3])"
proof -
  have 1: "val_ok (GMap [(str ''msg_type'', GInt 1), (str ''piece'', GInt64 3)])"
    by (simp add: map_ok_Cons int64_ok_def max_alloc_def str_def)
  have 2: "Encode (GMap [(str ''msg_type'', GInt 1), (str ''piece'', GInt64 3)]) =
    Inr (str ''d8:msg_typei1e5:piecei3ee'')" by code_simp
  from ParseMetadataPiece_spec [OF 1 2, of "[1, 2, 3]"] show ?thesis by (simp add: str_def)
qed

text \<open>The bitfield is a set of pieces: after setting any list of indices, exactly the
  pieces set before and the listed ones within its size are present, and a negative index
  or one beyond the end neither reads nor changes anything. A new bitfield has room for the
  number of pieces asked for and has none of them.\<close>

theorem bitfield_set:
  "HasPiece (fold SetPiece is bf) j =
     (HasPiece bf j \<or> (j \<in> set is \<and> 0 \<le> j \<and> j < 8 * int (length bf))) \<and>
   \<not> HasPiece (NewBitfield n) j \<and> n \<le> 8 * int (length (NewBitfield n))"
proof -
  have "n \<le> 8 * int (length (NewBitfield n))"
    using NewBitfield_capacity [of n] by (cases "0 \<le> n") auto
  then show ?thesis using bitfield.has_fold HasPiece_NewBitfield by blast
qed

end
