(* ===== verification/Metainfo.thy ===== *)
theory Metainfo
  imports Bencode Sha1
begin

text \<open>
  The package \<^verbatim>\<open>metainfo\<close>: the info dictionary of a torrent, its parser and the
  arithmetic of piece sizes.
\<close>

section \<open>The info dictionary\<close>

record file_info =
  f_Length :: int
  f_Path :: "bytes list"

record info =
  i_Name :: bytes
  i_PieceLength :: int
  i_Pieces :: "bytes list"
  i_Length :: int
  i_Files :: "file_info list"

definition TotalLength :: "info \<Rightarrow> int" where
  "TotalLength info =
     (if i_Length info > 0 then i_Length info
      else foldl (\<lambda>total f. wrap64 (total + f_Length f)) 0 (i_Files info))"

definition NumPieces :: "info \<Rightarrow> int" where
  "NumPieces info = int (length (i_Pieces info))"

definition PieceSize :: "info \<Rightarrow> int \<Rightarrow> int" where
  "PieceSize info index =
     (let total = TotalLength info;
          start = wrap64 (index * i_PieceLength info);
          remaining = wrap64 (total - start)
      in if remaining < i_PieceLength info then remaining else i_PieceLength info)"

section \<open>Parsing\<close>

text \<open>The strings of a path list; entries of another type are skipped.\<close>

fun path_strings :: "any list \<Rightarrow> bytes list" where
  "path_strings [] = []"
| "path_strings (GString s # ps) = s # path_strings ps"
| "path_strings (_ # ps) = path_strings ps"

definition parse_file :: "any \<Rightarrow> error + file_info" where
  "parse_file f =
     (case f of
        GMap fd \<Rightarrow>
          (case as_int64 (mget fd (str ''length'')) of None \<Rightarrow> Inl ErrInvalidMetadata
           | Some fl \<Rightarrow>
               (case as_list (mget fd (str ''path'')) of None \<Rightarrow> Inl ErrInvalidMetadata
                | Some pathList \<Rightarrow>
                    if pathList = [] then Inl ErrInvalidMetadata
                    else let path = path_strings pathList
                         in if path = [] then Inl ErrInvalidMetadata
                            else Inr \<lparr>f_Length = fl, f_Path = path\<rparr>))
      | _ \<Rightarrow> Inl ErrInvalidMetadata)"

text \<open>The loop over \<^verbatim>\<open>files\<close>, which stops at the first bad entry.\<close>

fun parse_files :: "any list \<Rightarrow> error + file_info list" where
  "parse_files [] = Inr []"
| "parse_files (f # fs) =
     (case parse_file f of Inl e \<Rightarrow> Inl e
      | Inr fl \<Rightarrow> (case parse_files fs of Inl e \<Rightarrow> Inl e | Inr fls \<Rightarrow> Inr (fl # fls)))"

definition ParseUnverified :: "bytes \<Rightarrow> error + info" where
  "ParseUnverified raw =
     (case Decode raw of
        Inl e \<Rightarrow> Inl (if e = Panic then Panic else ErrInvalidMetadata)
      | Inr (GMap dict) \<Rightarrow>
          (case as_string (mget dict (str ''name'')) of None \<Rightarrow> Inl ErrInvalidMetadata
           | Some name \<Rightarrow>
          if name = [] then Inl ErrInvalidMetadata
          else case as_int64 (mget dict (str ''piece length'')) of None \<Rightarrow> Inl ErrInvalidMetadata
           | Some pl \<Rightarrow>
          if pl \<le> 0 then Inl ErrInvalidMetadata
          else case as_string (mget dict (str ''pieces'')) of None \<Rightarrow> Inl ErrInvalidMetadata
           | Some piecesRaw \<Rightarrow>
          if length piecesRaw mod 20 \<noteq> 0 then Inl ErrInvalidMetadata
          else
            let info = \<lparr>i_Name = name, i_PieceLength = pl, i_Pieces = chunks 20 piecesRaw,
                        i_Length = 0, i_Files = []\<rparr>
            in case as_int64 (mget dict (str ''length'')) of
                 Some ln \<Rightarrow> Inr (info\<lparr>i_Length := ln\<rparr>)
               | None \<Rightarrow>
                   (case as_list (mget dict (str ''files'')) of
                      Some files \<Rightarrow>
                        (case parse_files files of Inl e \<Rightarrow> Inl e
                         | Inr fls \<Rightarrow>
                             if fls = [] then Inl ErrInvalidMetadata
                             else Inr (info\<lparr>i_Files := fls\<rparr>))
                    | None \<Rightarrow> Inl ErrInvalidMetadata))
      | Inr _ \<Rightarrow> Inl ErrInvalidMetadata)"

definition Parse :: "bytes \<Rightarrow> bytes \<Rightarrow> error + info" where
  "Parse raw expectedHash =
     (if sha1 raw \<noteq> expectedHash then Inl ErrHashMismatch else ParseUnverified raw)"

section \<open>Facts about parsing\<close>

text \<open>A piece hash is a record of 20 bytes.\<close>

interpretation piece_hash: fixed_codec "\<lambda>h. h" "\<lambda>h. h" "\<lambda>h. h" 20 "\<lambda>h. length h = 20"
  by unfold_locales simp_all

lemma as_some [simp]:
  "as_string v = Some s \<longleftrightarrow> v = Some (GString s)"
  "as_int64 v = Some n \<longleftrightarrow> v = Some (GInt64 n)"
  "as_list v = Some xs \<longleftrightarrow> v = Some (GList xs)"
  "as_map v = Some m \<longleftrightarrow> v = Some (GMap m)"
  by (cases v rule: as_string.cases; simp)+

lemma parse_file_path: "parse_file f = Inr fl \<Longrightarrow> f_Path fl \<noteq> []"
  by (auto simp: parse_file_def Let_def split: any.splits option.splits if_splits)

lemma parse_files_Cons:
  "parse_files (f # fs) = Inr fls \<longleftrightarrow>
    (\<exists>fl fls'. parse_file f = Inr fl \<and> parse_files fs = Inr fls' \<and> fls = fl # fls')"
  by (auto split: sum.splits)

lemma parse_files_iff:
  "parse_files fs = Inr fls \<longleftrightarrow> list_all2 (\<lambda>f fl. parse_file f = Inr fl) fs fls"
  by (induction fs arbitrary: fls)
    (auto simp: list_all2_Cons1 parse_files_Cons simp del: parse_files.simps(2))

definition info_ok :: "info \<Rightarrow> bool" where
  "info_ok info \<longleftrightarrow> i_Name info \<noteq> [] \<and> 0 < i_PieceLength info \<and>
     list_all (\<lambda>h. length h = 20) (i_Pieces info) \<and>
     list_all (\<lambda>f. f_Path f \<noteq> []) (i_Files info) \<and>
     (i_Files info = [] \<or> i_Length info = 0)"

lemma ParseUnverified_dict:
  assumes "ParseUnverified raw = Inr info"
  obtains dict pl ps where "Decode raw = Inr (GMap dict)"
    and "mget dict (str ''name'') = Some (GString (i_Name info))"
    and "mget dict (str ''piece length'') = Some (GInt64 (i_PieceLength info))"
    and "mget dict (str ''pieces'') = Some (GString ps)"
    and "i_Pieces info = chunks 20 ps" and "length ps mod 20 = 0"
    and "i_Name info \<noteq> []" and "0 < i_PieceLength info"
    and "(mget dict (str ''length'') = Some (GInt64 (i_Length info)) \<and> i_Files info = []) \<or>
      (\<exists>fs. mget dict (str ''files'') = Some (GList fs) \<and> parse_files fs = Inr (i_Files info) \<and>
         i_Files info \<noteq> [] \<and> i_Length info = 0)"
  using assms
  by (auto simp: ParseUnverified_def Let_def split: sum.splits any.splits option.splits if_splits)

lemma ParseUnverified_ok:
  assumes "ParseUnverified raw = Inr info"
  shows "info_ok info"
proof (rule ParseUnverified_dict [OF assms])
  fix dict pl ps
  assume p: "i_Pieces info = chunks 20 ps" and n: "i_Name info \<noteq> []" "0 < i_PieceLength info"
    and f: "(mget dict (str ''length'') = Some (GInt64 (i_Length info)) \<and> i_Files info = []) \<or>
      (\<exists>fs. mget dict (str ''files'') = Some (GList fs) \<and> parse_files fs = Inr (i_Files info) \<and>
         i_Files info \<noteq> [] \<and> i_Length info = 0)"
  have "list_all (\<lambda>h. length h = 20) (i_Pieces info)"
    unfolding p by (auto simp: list_all_iff dest: set_chunks_length)
  moreover have "list_all (\<lambda>f. f_Path f \<noteq> []) (i_Files info)"
    using f by (fastforce simp: parse_files_iff list_all_length list_all2_conv_all_nth
        dest: parse_file_path)
  ultimately show ?thesis using n f by (auto simp: info_ok_def)
qed

section \<open>Building an info dictionary\<close>

text \<open>The reference for the parser: the dictionary of a torrent, as BEP 3 lays it out.\<close>

definition file_val :: "file_info \<Rightarrow> any" where
  "file_val f = GMap [(str ''length'', GInt64 (f_Length f)),
     (str ''path'', GList (map GString (f_Path f)))]"

definition info_dict :: "info \<Rightarrow> any" where
  "info_dict info = GMap
     ((if i_Files info = [] then [(str ''length'', GInt64 (i_Length info))]
       else [(str ''files'', GList (map file_val (i_Files info)))]) @
      [(str ''name'', GString (i_Name info)),
       (str ''piece length'', GInt64 (i_PieceLength info)),
       (str ''pieces'', GString (concat (i_Pieces info)))])"

lemma path_strings_GString [simp]: "path_strings (map GString ps) = ps"
  by (induction ps) simp_all

lemma parse_file_val: "f_Path f \<noteq> [] \<Longrightarrow> parse_file (file_val f) = Inr f"
  by (cases f) (simp add: parse_file_def file_val_def str_def Let_def)

lemma parse_files_val:
  "list_all (\<lambda>f. f_Path f \<noteq> []) fs \<Longrightarrow> parse_files (map file_val fs) = Inr fs"
  by (induction fs) (simp_all add: parse_file_val)

lemma norm_file_val [simp]: "norm (file_val f) = file_val f"
  by (simp add: file_val_def)

lemma norm_info_dict: "norm (info_dict info) = info_dict info"
  by (simp add: info_dict_def)

lemma ParseUnverified_info_dict:
  assumes ok: "info_ok info" and dec: "Decode raw = Inr (info_dict info)"
  shows "ParseUnverified raw = Inr info"
proof -
  have hashes: "\<forall>h\<in>set (i_Pieces info). length h = 20"
    using ok by (simp add: info_ok_def list_all_iff)
  have ch: "chunks 20 (concat (i_Pieces info)) = i_Pieces info"
    using piece_hash.chunks_enc [OF hashes] by simp
  have ln: "length (concat (i_Pieces info)) mod 20 = 0"
    using piece_hash.length_table [OF hashes] by simp
  have fs: "parse_files (map file_val (i_Files info)) = Inr (i_Files info)"
    using ok by (intro parse_files_val) (simp add: info_ok_def)
  from ok dec ch ln fs show ?thesis
    by (cases info) (auto simp: ParseUnverified_def info_dict_def info_ok_def Let_def str_def
        split: if_splits)
qed

section \<open>Piece sizes\<close>

text \<open>
  A layout is consistent when the lengths are not negative, the pieces cover the data
  exactly, the last one not empty, and the arithmetic stays inside \<^verbatim>\<open>int64\<close>. The
  parser does not check this.
\<close>

definition data_length :: "info \<Rightarrow> int" where
  "data_length info =
     (if i_Length info > 0 then i_Length info else (\<Sum>f\<leftarrow>i_Files info. f_Length f))"

definition layout_ok :: "info \<Rightarrow> bool" where
  "layout_ok info \<longleftrightarrow>
     0 < i_PieceLength info \<and> 0 \<le> i_Length info \<and> list_all (\<lambda>f. 0 \<le> f_Length f) (i_Files info) \<and>
     (NumPieces info - 1) * i_PieceLength info < data_length info \<and>
     data_length info \<le> NumPieces info * i_PieceLength info \<and>
     NumPieces info * i_PieceLength info < 2 ^ 63"

lemma foldl_wrap64:
  assumes "list_all (\<lambda>f. 0 \<le> f_Length f) fs" and "0 \<le> t"
    and "t + (\<Sum>f\<leftarrow>fs. f_Length f) < 2 ^ 63"
  shows "foldl (\<lambda>total f. wrap64 (total + f_Length f)) t fs = t + (\<Sum>f\<leftarrow>fs. f_Length f)"
  using assms
proof (induction fs arbitrary: t)
  case (Cons f fs)
  have "0 \<le> (\<Sum>f\<leftarrow>fs. f_Length f)"
    using Cons.prems(1) by (intro sum_list_nonneg) (auto simp: list_all_iff)
  with Cons.prems have "wrap64 (t + f_Length f) = t + f_Length f"
    by (intro wrap64_nonneg_id) auto
  with Cons show ?case by simp
qed simp

lemma TotalLength_data:
  assumes "layout_ok info"
  shows "TotalLength info = data_length info"
  using assms foldl_wrap64 [of "i_Files info" 0]
  by (auto simp: layout_ok_def TotalLength_def data_length_def)

lemma layout_pos: "layout_ok info \<Longrightarrow> 0 \<le> data_length info"
  by (auto simp: layout_ok_def data_length_def list_all_iff intro!: sum_list_nonneg)

lemma PieceSize_layout:
  assumes "layout_ok info" and "0 \<le> i" and "i < NumPieces info"
  shows "PieceSize info i = min (i_PieceLength info) (data_length info - i * i_PieceLength info)"
    and "wrap64 (i * i_PieceLength info) = i * i_PieceLength info"
    and "0 < PieceSize info i" and "PieceSize info i \<le> i_PieceLength info"
proof -
  let ?p = "i_PieceLength info"
  let ?t = "data_length info"
  have lay: "0 < ?p" "(NumPieces info - 1) * ?p < ?t" "?t \<le> NumPieces info * ?p"
    "NumPieces info * ?p < 2 ^ 63"
    using assms(1) by (auto simp: layout_ok_def)
  have i: "0 \<le> i * ?p" "i * ?p \<le> (NumPieces info - 1) * ?p"
    using assms(2,3) lay(1) by (auto intro: mult_right_mono)
  then show w: "wrap64 (i * ?p) = i * ?p"
    using lay by (intro wrap64_nonneg_id) linarith+
  have "wrap64 (?t - i * ?p) = ?t - i * ?p"
    using lay i by (intro wrap64_nonneg_id) linarith+
  with w show eq: "PieceSize info i = min ?p (?t - i * ?p)"
    by (simp add: PieceSize_def Let_def TotalLength_data [OF assms(1)] min_def)
  have "i * ?p < ?t" using lay i by linarith
  then show "0 < PieceSize info i" "PieceSize info i \<le> ?p"
    unfolding eq using lay(1) by simp_all
qed

text \<open>The pieces before piece \<open>i\<close> hold the data up to where piece \<open>i\<close> starts.\<close>

lemma PieceSize_prefix_sum:
  assumes "layout_ok info" and "int k \<le> NumPieces info"
  shows "(\<Sum>i\<leftarrow>[0..<k]. PieceSize info (int i)) = min (int k * i_PieceLength info) (data_length info)"
  using assms(2)
proof (induction k)
  case 0
  then show ?case using layout_pos [OF assms(1)] by simp
next
  case (Suc k)
  let ?p = "i_PieceLength info"
  let ?t = "data_length info"
  have lay: "0 < ?p" "(NumPieces info - 1) * ?p < ?t" using assms(1) by (auto simp: layout_ok_def)
  have "int k * ?p \<le> (NumPieces info - 1) * ?p"
    using Suc.prems lay(1) by (intro mult_right_mono) auto
  then have "int k * ?p < ?t" using lay(2) by linarith
  then have "min (int k * ?p) ?t + min ?p (?t - int k * ?p) = min (int (Suc k) * ?p) ?t"
    by (simp add: min_def distrib_right)
  with Suc PieceSize_layout(1) [OF assms(1), of "int k"] show ?case by simp
qed

section \<open>Properties of the package\<close>

text \<open>C25. Metadata is accepted only when its SHA-1 hash is the expected one, and then the
  fields are well formed: a name, a positive piece length, hashes of 20 bytes, and either one
  length or at least one file, each with a path; what the pieces string held is exactly the
  hashes in order.\<close>

theorem Parse_accepts:
  assumes "Parse raw h = Inr info"
  shows "sha1 raw = h \<and> info_ok info \<and>
    (\<exists>dict. Decode raw = Inr (GMap dict) \<and>
       mget dict (str ''pieces'') = Some (GString (concat (i_Pieces info))))"
proof -
  from assms have h: "sha1 raw = h" and u: "ParseUnverified raw = Inr info"
    by (auto simp: Parse_def split: if_splits)
  from u have "\<exists>dict. Decode raw = Inr (GMap dict) \<and>
      mget dict (str ''pieces'') = Some (GString (concat (i_Pieces info)))"
  proof (rule ParseUnverified_dict)
    fix dict pl ps
    assume "Decode raw = Inr (GMap dict)" "mget dict (str ''pieces'') = Some (GString ps)"
      "i_Pieces info = chunks 20 ps" "length ps mod 20 = 0"
    moreover from this have "concat (chunks 20 ps) = ps"
      by (intro concat_chunks) auto
    ultimately show ?thesis by auto
  qed
  with h ParseUnverified_ok [OF u] show ?thesis by blast
qed

definition sample_info :: info where
  "sample_info = \<lparr>i_Name = [97], i_PieceLength = 4, i_Pieces = [replicate 20 7, replicate 20 8],
     i_Length = 0, i_Files = [\<lparr>f_Length = 3, f_Path = [[98]]\<rparr>, \<lparr>f_Length = 2, f_Path = [[99], [100]]\<rparr>]\<rparr>"

lemma sample_info_val_ok: "val_ok (info_dict sample_info)"
  by (simp add: sample_info_def info_dict_def file_val_def str_def map_ok_Cons int64_ok_def
      max_alloc_def)

lemma sample_info_ok: "info_ok sample_info"
  by (simp add: sample_info_def info_ok_def)

lemma Parse_info_dict:
  assumes "info_ok info" and "val_ok (info_dict info)"
  shows "\<exists>raw. Encode (info_dict info) = Inr raw \<and> Parse raw (sha1 raw) = Inr info"
proof -
  obtain raw where raw: "encodeValue (info_dict info) = Inr raw"
    using assms(2) encode_supported val_ok_supported by blast
  then have "Decode raw = Inr (info_dict info)"
    using bencode.read_enc [of "info_dict info" "[]"] assms(2)
    by (simp add: Decode_def norm_info_dict)
  with assms(1) raw show ?thesis
    by (auto simp: Encode_def Parse_def ParseUnverified_info_dict)
qed

text \<open>C26. Every well-formed torrent is parsed back from its own info dictionary: encoding
  the dictionary and parsing the bytes against their hash gives the same fields, for one file
  and for several.\<close>

theorem Parse_roundtrip:
  assumes "info_ok info" and "val_ok (info_dict info)"
  shows "\<exists>raw. Encode (info_dict info) = Inr raw \<and> Parse raw (sha1 raw) = Inr info"
  by (rule Parse_info_dict [OF assms])

theorem Parse_roundtrip_witness:
  "\<exists>raw. Encode (info_dict sample_info) = Inr raw \<and> Parse raw (sha1 raw) = Inr sample_info"
  by (rule Parse_roundtrip [OF sample_info_ok sample_info_val_ok])

theorem Parse_accepts_witness:
  "\<exists>raw. Parse raw (sha1 raw) = Inr sample_info \<and> info_ok sample_info"
proof -
  obtain raw where raw: "encodeValue (info_dict sample_info) = Inr raw"
    using sample_info_val_ok encode_supported val_ok_supported by blast
  then have "Decode raw = Inr (info_dict sample_info)"
    using bencode.read_enc [of "info_dict sample_info" "[]"] sample_info_val_ok
    by (simp add: Decode_def norm_info_dict)
  then have "Parse raw (sha1 raw) = Inr sample_info"
    by (simp add: Parse_def ParseUnverified_info_dict sample_info_ok)
  with Parse_accepts [OF this] show ?thesis by blast
qed

text \<open>C27. In a consistent layout every piece has at least one byte and at most the piece
  length, every piece but the last has exactly the piece length, and the sizes of all pieces
  add up to the length of the data.\<close>

theorem piece_sizes:
  assumes "layout_ok info"
  shows "(\<forall>i. 0 \<le> i \<and> i < NumPieces info \<longrightarrow>
      0 < PieceSize info i \<and> PieceSize info i \<le> i_PieceLength info \<and>
      (i < NumPieces info - 1 \<longrightarrow> PieceSize info i = i_PieceLength info)) \<and>
    (\<Sum>i\<leftarrow>[0..<length (i_Pieces info)]. PieceSize info (int i)) = TotalLength info"
proof -
  let ?p = "i_PieceLength info"
  have lay: "0 < ?p" "(NumPieces info - 1) * ?p < data_length info"
    "data_length info \<le> NumPieces info * ?p"
    using assms by (auto simp: layout_ok_def)
  have "PieceSize info i = ?p" if "0 \<le> i" "i < NumPieces info - 1" for i
  proof -
    have "(i + 1) * ?p \<le> (NumPieces info - 1) * ?p"
      using that lay(1) by (intro mult_right_mono) auto
    then have "?p \<le> data_length info - i * ?p" using lay(2) by (simp add: distrib_right)
    then show ?thesis using PieceSize_layout(1) [OF assms, of i] that by simp
  qed
  moreover have "(\<Sum>i\<leftarrow>[0..<length (i_Pieces info)]. PieceSize info (int i)) = TotalLength info"
    using PieceSize_prefix_sum [OF assms, of "length (i_Pieces info)"] lay(3)
    by (simp add: TotalLength_data [OF assms] NumPieces_def)
  ultimately show ?thesis using PieceSize_layout(3,4) [OF assms] by blast
qed

theorem piece_sizes_witness:
  "layout_ok sample_info \<and>
    (\<Sum>i\<leftarrow>[0..<length (i_Pieces sample_info)]. PieceSize sample_info (int i)) = TotalLength sample_info"
proof -
  have "layout_ok sample_info"
    by (simp add: layout_ok_def sample_info_def NumPieces_def data_length_def)
  with piece_sizes [OF this] show ?thesis by blast
qed

text \<open>
  The parser accepts metadata whose piece count does not fit its length, and negative
  lengths; the size of a piece is then negative.
\<close>

lemma negative_piece_size:
  "ParseUnverified (str ''d6:lengthi1e4:name1:a12:piece lengthi4e6:pieces40:0123456789012345678901234567890123456789e'') =
     Inr \<lparr>i_Name = str ''a'', i_PieceLength = 4,
       i_Pieces = [str ''01234567890123456789'', str ''01234567890123456789''], i_Length = 1,
       i_Files = []\<rparr>"
  "PieceSize \<lparr>i_Name = str ''a'', i_PieceLength = 4,
       i_Pieces = [str ''01234567890123456789'', str ''01234567890123456789''], i_Length = 1,
       i_Files = []\<rparr> 1 = - 3"
  by code_simp+

end
