(* ===== verification/Filepath.thy ===== *)
theory Filepath
  imports Prelude
begin

text \<open>
  The lexical part of the standard library's \<^verbatim>\<open>path/filepath\<close> the writer uses on
  Unix: \<^verbatim>\<open>Clean\<close>, \<^verbatim>\<open>Join\<close> and \<^verbatim>\<open>Dir\<close>, on elements between slashes.
\<close>

abbreviation slash :: byte where "slash \<equiv> 47"

abbreviation dot :: bytes where "dot \<equiv> [46]"

abbreviation dotdot :: bytes where "dotdot \<equiv> [46, 46]"

text \<open>One element against the path built so far, which is kept last element first.\<close>

definition clean_step :: "bool \<Rightarrow> bytes list \<Rightarrow> bytes \<Rightarrow> bytes list" where
  "clean_step rooted out e =
     (if e = [] \<or> e = dot then out
      else if e = dotdot then
        (case out of
           [] \<Rightarrow> if rooted then [] else [dotdot]
         | last_e # out' \<Rightarrow> if last_e = dotdot then dotdot # out else out')
      else e # out)"

definition Clean :: "bytes \<Rightarrow> bytes" where
  "Clean path =
     (let rooted = (take 1 path = [slash]);
          out = rev (foldl (clean_step rooted) [] (split_on slash path))
      in if rooted then slash # join_with [slash] out
         else if out = [] then dot else join_with [slash] out)"

definition Join :: "bytes list \<Rightarrow> bytes" where
  "Join elems =
     (let es = dropWhile (\<lambda>e. e = []) elems
      in if es = [] then [] else Clean (join_with [slash] es))"

definition Dir :: "bytes \<Rightarrow> bytes" where
  "Dir path = Clean (rev (dropWhile (\<lambda>b. b \<noteq> slash) (rev path)))"

section \<open>Plain elements\<close>

text \<open>An element that stays below its parent: not empty, no slash, neither of the dots.\<close>

definition plain_elem :: "bytes \<Rightarrow> bool" where
  "plain_elem e = (e \<noteq> [] \<and> slash \<notin> set e \<and> e \<noteq> dot \<and> e \<noteq> dotdot)"

lemma join_with_inj:
  assumes "\<forall>e\<in>set es. plain_elem e" and "\<forall>e\<in>set fs. plain_elem e"
    and "join_with [slash] es = join_with [slash] fs"
  shows "es = fs"
proof (cases "es = [] \<or> fs = []")
  case True
  have "join_with [slash] gs = [] \<Longrightarrow> \<forall>e\<in>set gs. plain_elem e \<Longrightarrow> gs = []" for gs
    by (cases "([slash], gs)" rule: join_with.cases) (auto simp: plain_elem_def)
  with True assms show ?thesis by (metis join_with.simps(1))
next
  case False
  then have "split_on slash (join_with [slash] es) = es" "split_on slash (join_with [slash] fs) = fs"
    using assms(1,2) by (intro split_join; simp add: plain_elem_def)+
  with assms(3) show ?thesis by metis
qed

lemma clean_plain:
  "\<forall>e\<in>set es. plain_elem e \<Longrightarrow> foldl (clean_step r) out es = rev es @ out"
  by (induction es arbitrary: out) (auto simp: clean_step_def plain_elem_def)

text \<open>Joining plain elements to a rooted directory appends them to its own elements.\<close>

definition dir_elems :: "bytes \<Rightarrow> bytes list" where
  "dir_elems path = rev (foldl (clean_step True) [] (split_on slash path))"

lemma Join_plain:
  assumes root: "take 1 base = [slash]" and es: "es \<noteq> []" "\<forall>e\<in>set es. plain_elem e"
  shows "Join (base # es) = slash # join_with [slash] (dir_elems base @ es)"
proof -
  have base: "base \<noteq> []" using root by auto
  have j: "join_with [slash] (base # es) = base @ slash # join_with [slash] es"
    using es(1) by (cases es) auto
  have "take 1 (base @ slash # join_with [slash] es) = [slash]"
    using root base by (cases base) auto
  moreover have "split_on slash (join_with [slash] es) = es"
    using es by (intro split_join) (auto simp: plain_elem_def)
  ultimately show ?thesis
    using base j by (simp add: Join_def Clean_def Let_def split_on_app clean_plain [OF es(2)]
        dir_elems_def)
qed

lemma clean_step_plain:
  assumes "slash \<notin> set e" and "\<forall>x\<in>set out. plain_elem x"
  shows "\<forall>x\<in>set (clean_step True out e). plain_elem x"
proof -
  have "plain_elem e" if "e \<noteq> []" "e \<noteq> dot" "e \<noteq> dotdot"
    using assms(1) that by (simp add: plain_elem_def)
  moreover have "\<not> plain_elem dotdot" by (simp add: plain_elem_def)
  ultimately show ?thesis
    using assms(2) by (cases out) (auto simp: clean_step_def)
qed

lemma clean_elems:
  "\<forall>e\<in>set es. slash \<notin> set e \<Longrightarrow> \<forall>e\<in>set out. plain_elem e \<Longrightarrow>
    \<forall>e\<in>set (foldl (clean_step True) out es). plain_elem e"
proof (induction es arbitrary: out)
  case (Cons e es)
  then have "\<forall>x\<in>set (clean_step True out e). plain_elem x"
    by (intro clean_step_plain) simp_all
  then have "\<forall>x\<in>set (foldl (clean_step True) (clean_step True out e) es). plain_elem x"
    using Cons.prems(1) by (intro Cons.IH) simp_all
  then show ?case by (simp only: foldl_Cons)
qed simp

lemma dir_elems_plain: "\<forall>e\<in>set (dir_elems base). plain_elem e"
  using clean_elems [of "split_on slash base" "[]"] split_on_elems [of _ slash base]
  by (auto simp: dir_elems_def)

lemma Join_plain_inj:
  assumes "take 1 base = [slash]" and "es \<noteq> []" "\<forall>e\<in>set es. plain_elem e"
    and "fs \<noteq> []" "\<forall>e\<in>set fs. plain_elem e" and "Join (base # es) = Join (base # fs)"
  shows "es = fs"
proof -
  have "join_with [slash] (dir_elems base @ es) = join_with [slash] (dir_elems base @ fs)"
    using assms by (simp add: Join_plain)
  then have "dir_elems base @ es = dir_elems base @ fs"
    using assms dir_elems_plain [of base] by (intro join_with_inj) auto
  then show ?thesis by simp
qed

text \<open>An element \<^verbatim>\<open>..\<close> leaves the directory.\<close>

lemma Join_dotdot:
  "Join [str ''/home/user/dl'', str ''..'', str ''x''] = str ''/home/user/x''"
  by code_simp

end
