(* ===== verification/Writer.thy ===== *)
theory Writer
  imports Metainfo Filepath GoMap
begin

text \<open>
  \<^verbatim>\<open>torrent/writer.go\<close>: mapping pieces to byte ranges of files and writing them.
  The operating system is a state of its own: the contents of the regular files by path, and
  which calls fail (a fixed choice per directory, path and offset), a write after how many of its
  bytes. A file handle is the path it was opened with.
\<close>

section \<open>The operating system\<close>

record os =
  dk :: "bytes \<rightharpoonup> bytes"
  mkdir_err :: "bytes \<Rightarrow> bool"
  open_err :: "bytes \<Rightarrow> bool"
  write_err :: "bytes \<Rightarrow> int \<Rightarrow> nat option"
  close_err :: "bytes \<Rightarrow> bool"

text \<open>\<^verbatim>\<open>File.WriteAt\<close>: a gap is filled with zeros, an empty write changes nothing.\<close>

definition write_at :: "nat \<Rightarrow> bytes \<Rightarrow> bytes \<Rightarrow> bytes" where
  "write_at off data content =
     (if data = [] then content
      else take off (content @ replicate (off - length content) 0) @ data
           @ drop (off + length data) content)"

lemma length_write_at:
  "length (write_at off data content) =
    (if data = [] then length content else max (length content) (off + length data))"
  by (auto simp: write_at_def)

lemma nth_write_at:
  assumes "i < length (write_at off data content)"
  shows "write_at off data content ! i =
    (if off \<le> i \<and> i < off + length data then data ! (i - off)
     else if i < length content then content ! i else 0)"
proof (cases "data = []")
  case True
  with assms show ?thesis by (auto simp: write_at_def)
next
  case False
  define pre where "pre = take off (content @ replicate (off - length content) 0)"
  have len: "length pre = off" by (simp add: pre_def)
  have pre: "pre ! i = (if i < length content then content ! i else 0)" if "i < off"
    using that by (auto simp: pre_def nth_append)
  have "write_at off data content = pre @ data @ drop (off + length data) content"
    using False by (simp add: write_at_def pre_def)
  with assms len pre show ?thesis by (auto simp: nth_append)
qed

section \<open>The writer\<close>

record fileEntry =
  fe_Path :: bytes
  fe_Length :: int

record fileSegment =
  sg_Path :: bytes
  sg_Offset :: int
  sg_Length :: int

record writer =
  w_info :: info
  w_baseDir :: bytes
  w_files :: "fileEntry list"
  w_handles :: "(bytes, bytes) gomap option"
  w_mkdirs :: "(bytes, bool) gomap"

definition fileList :: "info \<Rightarrow> bytes \<Rightarrow> fileEntry list" where
  "fileList info baseDir =
     (if i_Length info > 0
      then [\<lparr>fe_Path = Join [baseDir, i_Name info], fe_Length = i_Length info\<rparr>]
      else map (\<lambda>f. \<lparr>fe_Path = Join ([baseDir, i_Name info] @ f_Path f), fe_Length = f_Length f\<rparr>)
             (i_Files info))"

definition NewWriter :: "info \<Rightarrow> bytes \<Rightarrow> writer" where
  "NewWriter info baseDir =
     \<lparr>w_info = info, w_baseDir = baseDir, w_files = fileList info baseDir,
      w_handles = Some [], w_mkdirs = []\<rparr>"

text \<open>The loop of \<^verbatim>\<open>pieceSegments\<close> over the files, from offset \<open>fileOffset\<close>.\<close>

fun segments_from :: "int \<Rightarrow> int \<Rightarrow> int \<Rightarrow> fileEntry list \<Rightarrow> fileSegment list" where
  "segments_from pieceStart pieceEnd fileOffset [] = []"
| "segments_from pieceStart pieceEnd fileOffset (f # files) =
     (let fileEnd = wrap64 (fileOffset + fe_Length f)
      in if fileEnd \<le> pieceStart then segments_from pieceStart pieceEnd fileEnd files
         else if fileOffset \<ge> pieceEnd then []
         else let start = max pieceStart fileOffset;
                  stop = min pieceEnd fileEnd
              in \<lparr>sg_Path = fe_Path f, sg_Offset = wrap64 (start - fileOffset),
                  sg_Length = wrap64 (stop - start)\<rparr> #
                 segments_from pieceStart pieceEnd fileEnd files)"

definition pieceSegments :: "writer \<Rightarrow> int \<Rightarrow> fileSegment list" where
  "pieceSegments w index =
     (let pieceStart = wrap64 (index * i_PieceLength (w_info w));
          pieceLen = PieceSize (w_info w) index;
          pieceEnd = wrap64 (pieceStart + pieceLen)
      in segments_from pieceStart pieceEnd 0 (w_files w))"

definition openFile :: "bytes \<Rightarrow> writer \<times> os \<Rightarrow> (error + bytes) \<times> writer \<times> os" where
  "openFile path s =
     (case s of (w, d) \<Rightarrow>
      (case Option.bind (w_handles w) (\<lambda>m. mget m path) of Some f \<Rightarrow> (Inr f, w, d)
       | None \<Rightarrow>
           (let dir = Dir path;
                made = (mget (w_mkdirs w) dir = Some True)
            in if \<not> made \<and> mkdir_err d dir then (Inl ErrOther, w, d)
               else
                 let w1 = (if made then w else w\<lparr>w_mkdirs := mput dir True (w_mkdirs w)\<rparr>)
                 in if open_err d path then (Inl ErrOther, w1, d)
                    else
                      let d1 = (case dk d path of Some _ \<Rightarrow> d
                                | None \<Rightarrow> d\<lparr>dk := (dk d)(path \<mapsto> [])\<rparr>)
                      in case w_handles w1 of None \<Rightarrow> (Inl Panic, w1, d1)
                         | Some m \<Rightarrow> (Inr path, w1\<lparr>w_handles := Some (mput path path m)\<rparr>, d1))))"

definition file_WriteAt :: "bytes \<Rightarrow> bytes \<Rightarrow> int \<Rightarrow> os \<Rightarrow> error option \<times> os" where
  "file_WriteAt f data off d =
     (if off < 0 then (Some ErrOther, d)
      else case dk d f of None \<Rightarrow> (Some ErrOther, d)
        | Some content \<Rightarrow>
            (case if data = [] then None else write_err d f off of
               None \<Rightarrow> (None, d\<lparr>dk := (dk d)(f \<mapsto> write_at (nat off) data content)\<rparr>)
             | Some k \<Rightarrow> (Some ErrOther, d\<lparr>dk := (dk d)(f \<mapsto> write_at (nat off) (take k data) content)\<rparr>)))"

text \<open>
  The loop of \<^verbatim>\<open>WritePiece\<close>; a slice outside the data panics. Go allows a slice to end
  between the length and the capacity of the buffer, where old bytes of the pool stand; the segments
  of a torrent with consistent lengths never reach there (\<open>WritePiece_no_error\<close>).
\<close>

fun write_segments ::
  "bytes \<Rightarrow> int \<Rightarrow> fileSegment list \<Rightarrow> writer \<times> os \<Rightarrow> error option \<times> writer \<times> os" where
  "write_segments data offset [] s = (None, s)"
| "write_segments data offset (seg # segs) s =
     (case openFile (sg_Path seg) s of
        (Inl e, s') \<Rightarrow> (Some e, s')
      | (Inr f, w, d) \<Rightarrow>
          (let stop = wrap64 (offset + sg_Length seg)
           in if \<not> (0 \<le> offset \<and> offset \<le> stop \<and> stop \<le> int (length data)) then (Some Panic, w, d)
              else case file_WriteAt f (take (nat (stop - offset)) (drop (nat offset) data))
                          (sg_Offset seg) d of
                (Some e, d') \<Rightarrow> (Some e, w, d')
              | (None, d') \<Rightarrow> write_segments data stop segs (w, d')))"

definition WritePiece :: "int \<Rightarrow> bytes \<Rightarrow> writer \<times> os \<Rightarrow> error option \<times> writer \<times> os" where
  "WritePiece index data s = write_segments data 0 (pieceSegments (fst s) index) s"

text \<open>\<^verbatim>\<open>Close\<close> closes every handle; the first error in the iteration order of the map
  (here the order of the paths) is returned.\<close>

definition Close_writer :: "writer \<times> os \<Rightarrow> error option \<times> writer \<times> os" where
  "Close_writer s =
     (case s of (w, d) \<Rightarrow>
       let fs = (case w_handles w of None \<Rightarrow> [] | Some m \<Rightarrow> map snd m)
       in (if \<exists>f\<in>set fs. close_err d f then Some ErrOther else None, w\<lparr>w_handles := None\<rparr>, d))"

section \<open>The file system as one image of the torrent\<close>

text \<open>
  The abstraction: byte \<open>g\<close> of the torrent's data, looked up through the file list. It is
  absent where the file does not reach that far.
\<close>

fun image :: "fileEntry list \<Rightarrow> (bytes \<rightharpoonup> bytes) \<Rightarrow> int \<Rightarrow> byte option" where
  "image [] d g = None"
| "image (f # files) d g =
     (if g < fe_Length f
      then (case d (fe_Path f) of None \<Rightarrow> None
            | Some c \<Rightarrow> if nat g < length c then Some (c ! nat g) else None)
      else image files d (g - fe_Length f))"

text \<open>What the writer keeps: open handles name files that exist.\<close>

definition handles_ok :: "writer \<times> os \<Rightarrow> bool" where
  "handles_ok s \<longleftrightarrow> (\<exists>m. w_handles (fst s) = Some m \<and> map_ok m \<and>
     (\<forall>p f. mget m p = Some f \<longrightarrow> f = p \<and> dk (snd s) p \<noteq> None)) \<and> map_ok (w_mkdirs (fst s))"

lemma handles_ok_New: "handles_ok (NewWriter info baseDir, d)"
  by (simp add: handles_ok_def NewWriter_def)

lemma openFile_ok:
  assumes "openFile p (w, d) = (Inr f, w', d')" and "handles_ok (w, d)"
  shows "f = p \<and> handles_ok (w', d') \<and> w_files w' = w_files w \<and> w_info w' = w_info w \<and>
    dk d' = (case dk d p of Some _ \<Rightarrow> dk d | None \<Rightarrow> (dk d)(p \<mapsto> []))"
proof -
  from assms(2) obtain m where m: "w_handles w = Some m" "map_ok m" "map_ok (w_mkdirs w)"
    "\<And>p f. mget m p = Some f \<Longrightarrow> f = p \<and> dk d p \<noteq> None"
    by (auto simp: handles_ok_def)
  show ?thesis
  proof (cases "mget m p")
    case (Some g)
    with assms m(1) m(4) [OF Some] show ?thesis by (auto simp: openFile_def)
  next
    case None
    with assms(1) m show ?thesis
      by (auto simp: openFile_def Let_def handles_ok_def mget_mput map_ok_mput
          split: if_splits option.splits)
  qed
qed

lemma image_cong:
  "\<forall>f\<in>set files. d (fe_Path f) = d' (fe_Path f) \<Longrightarrow> image files d g = image files d' g"
  by (induction files arbitrary: g) auto

section \<open>Writing one piece, on the image\<close>

text \<open>
  What a step of the write loop does to the disk, seen through the rest of the file list:
  the bytes in the range \<open>[ps, pe)\<close> are those of the data, bytes that were there outside
  the range stay, no other path is touched and no file grows beyond its length.
\<close>

definition size_at :: "(bytes \<rightharpoonup> bytes) \<Rightarrow> bytes \<Rightarrow> int" where
  "size_at d p = (case d p of None \<Rightarrow> 0 | Some c \<Rightarrow> int (length c))"

definition range_written ::
  "fileEntry list \<Rightarrow> int \<Rightarrow> int \<Rightarrow> int \<Rightarrow> bytes \<Rightarrow> (bytes \<rightharpoonup> bytes) \<Rightarrow> (bytes \<rightharpoonup> bytes) \<Rightarrow> bool" where
  "range_written files fo ps pe data d d' \<longleftrightarrow>
     (\<forall>g. 0 \<le> g \<and> g < (\<Sum>f\<leftarrow>files. fe_Length f) \<longrightarrow>
        (if ps \<le> fo + g \<and> fo + g < pe then image files d' g = Some (data ! nat (fo + g - ps))
         else \<forall>b. image files d g = Some b \<longrightarrow> image files d' g = Some b)) \<and>
     (\<forall>p. p \<notin> fe_Path ` set files \<longrightarrow> d' p = d p) \<and>
     (\<forall>f\<in>set files. size_at d' (fe_Path f) \<le> max (fe_Length f) (size_at d (fe_Path f)))"

lemma range_written_skip:
  assumes "range_written files (fo + fe_Length f) ps pe data d d'"
    and "fo + fe_Length f \<le> ps \<or> pe \<le> fo" and "0 \<le> fe_Length f"
    and "fe_Path f \<notin> fe_Path ` set files"
  shows "range_written (f # files) fo ps pe data d d'"
proof -
  have same: "d' (fe_Path f) = d (fe_Path f)" using assms(1,4) by (simp add: range_written_def)
  show ?thesis
    unfolding range_written_def
  proof (intro conjI allI impI)
    fix g
    assume g: "0 \<le> g \<and> g < (\<Sum>f\<leftarrow>f # files. fe_Length f)"
    show "if ps \<le> fo + g \<and> fo + g < pe then image (f # files) d' g = Some (data ! nat (fo + g - ps))
      else \<forall>b. image (f # files) d g = Some b \<longrightarrow> image (f # files) d' g = Some b"
    proof (cases "g < fe_Length f")
      case True
      with assms(2) g same show ?thesis by auto
    next
      case False
      have "fo + fe_Length f + (g - fe_Length f) = fo + g" by simp
      with False g assms(1) show ?thesis
        unfolding range_written_def by (auto dest!: spec [of _ "g - fe_Length f"])
    qed
  next
    fix q
    assume "q \<notin> fe_Path ` set (f # files)"
    with assms(1) show "d' q = d q" by (auto simp: range_written_def)
  next
    show "\<forall>e\<in>set (f # files). size_at d' (fe_Path e) \<le> max (fe_Length e) (size_at d (fe_Path e))"
      using assms(1) same by (auto simp: range_written_def size_at_def)
  qed
qed

lemma range_written_step:
  assumes r: "range_written files (fo + fe_Length f) ps pe data dm d'"
    and dm: "dm = d(fe_Path f \<mapsto> write_at (nat (start - fo))
        (take (nat (stop - start)) (drop (nat (start - ps)) data)) c)"
    and c: "c = (case d (fe_Path f) of Some c \<Rightarrow> c | None \<Rightarrow> [])"
    and s: "start = max ps fo" "stop = min pe (fo + fe_Length f)" "start \<le> stop"
    and data: "int (length data) = pe - ps" and "0 \<le> fe_Length f"
    and p: "fe_Path f \<notin> fe_Path ` set files"
  shows "range_written (f # files) fo ps pe data d d'"
proof -
  let ?sl = "take (nat (stop - start)) (drop (nat (start - ps)) data)"
  let ?new = "write_at (nat (start - fo)) ?sl c"
  have sl: "length ?sl = nat (stop - start)" using s data by simp
  have slnth: "?sl ! k = data ! (nat (start - ps) + k)" if "k < nat (stop - start)" for k
    using that s data by simp
  have at_p: "d' (fe_Path f) = Some ?new" using r p by (simp add: range_written_def dm)
  have other: "fe_Path e \<noteq> fe_Path f" if "e \<in> set files" for e
    using p that by (metis image_eqI)
  have rest: "image files dm g = image files d g" for g
    using other by (intro image_cong) (simp add: dm)
  show ?thesis
    unfolding range_written_def
  proof (intro conjI allI impI)
    fix g
    assume g: "0 \<le> g \<and> g < (\<Sum>f\<leftarrow>f # files. fe_Length f)"
    show "if ps \<le> fo + g \<and> fo + g < pe then image (f # files) d' g = Some (data ! nat (fo + g - ps))
      else \<forall>b. image (f # files) d g = Some b \<longrightarrow> image (f # files) d' g = Some b"
    proof (cases "g < fe_Length f")
      case False
      have "fo + fe_Length f + (g - fe_Length f) = fo + g" by simp
      with False g r rest show ?thesis
        unfolding range_written_def by (auto dest!: spec [of _ "g - fe_Length f"])
    next
      case True
      show ?thesis
      proof (cases "ps \<le> fo + g \<and> fo + g < pe")
        case in_range: True
        then have "start \<le> fo + g" "fo + g < stop" using True s g by auto
        moreover have "fo \<le> start" using s by simp
        ultimately have ge: "nat (start - fo) \<le> nat g" and lt: "nat g < nat (start - fo) + length ?sl"
          using g sl by linarith+
        then have "?sl \<noteq> []" by auto
        then have "length ?new = max (length c) (nat (start - fo) + length ?sl)"
          by (simp only: length_write_at if_False)
        then have len: "nat g < length ?new" using lt by (simp only: less_max_iff_disj simp_thms)
        have "?new ! nat g = ?sl ! (nat g - nat (start - fo))"
          using nth_write_at [OF len] ge lt by simp
        also have "\<dots> = data ! (nat (start - ps) + (nat g - nat (start - fo)))"
          using lt ge sl by (intro slnth) linarith
        also have "nat (start - ps) + (nat g - nat (start - fo)) = nat (fo + g - ps)"
          using in_range g s by linarith
        finally show ?thesis using True in_range len at_p by simp
      next
        case out: False
        have "image (f # files) d' g = Some b" if b: "image (f # files) d g = Some b" for b
        proof -
          from b True c have old: "nat g < length c" "c ! nat g = b"
            by (auto split: option.splits if_splits)
          then have len: "nat g < length ?new" by (simp add: length_write_at less_max_iff_disj)
          have n: "\<not> (nat (start - fo) \<le> nat g \<and> nat g < nat (start - fo) + length ?sl)"
            using out g s sl by linarith
          have "?new ! nat g = b" using nth_write_at [OF len] by (simp only: n if_False old if_True)
          with True len at_p show ?thesis by simp
        qed
        with out show ?thesis by auto
      qed
    qed
  next
    fix q
    assume "q \<notin> fe_Path ` set (f # files)"
    with r show "d' q = d q" by (auto simp: range_written_def dm)
  next
    have "int (length c) = size_at d (fe_Path f)"
      by (simp add: c size_at_def split: option.splits)
    moreover have "length ?new \<le> max (length c) (nat (start - fo) + length ?sl)"
      by (simp only: length_write_at split: if_split) simp
    moreover have "int (nat (start - fo) + length ?sl) \<le> fe_Length f"
    proof -
      have "fo \<le> start" "stop \<le> fo + fe_Length f" using s by simp_all
      then show ?thesis using sl s(3) by linarith
    qed
    moreover have "size_at d' (fe_Path f) = int (length ?new)"
      using at_p by (simp only: size_at_def option.case)
    ultimately have "size_at d' (fe_Path f) \<le> max (fe_Length f) (size_at d (fe_Path f))"
      by linarith
    moreover have "size_at dm (fe_Path e) = size_at d (fe_Path e)" if "e \<in> set files" for e
      using other [OF that] by (simp add: dm size_at_def)
    ultimately show "\<forall>e\<in>set (f # files). size_at d' (fe_Path e) \<le> max (fe_Length e) (size_at d (fe_Path e))"
      using r by (auto simp: range_written_def)
  qed
qed

lemma range_written_done:
  assumes "pe \<le> fo"
  shows "range_written files fo ps pe data d d"
  using assms by (auto simp: range_written_def)

lemma write_segments_Cons:
  assumes "write_segments data off (seg # segs) (w, d) = (None, w', d')"
  obtains f w1 d1 d2 where "openFile (sg_Path seg) (w, d) = (Inr f, w1, d1)"
    and "file_WriteAt f (take (nat (wrap64 (off + sg_Length seg) - off)) (drop (nat off) data))
      (sg_Offset seg) d1 = (None, d2)"
    and "write_segments data (wrap64 (off + sg_Length seg)) segs (w1, d2) = (None, w', d')"
  using assms by (auto simp: Let_def split: prod.splits sum.splits option.splits if_splits)

lemma overlap_arith:
  assumes "0 \<le> fo" and "0 \<le> ps" and "fo < pe" and "ps < fe" and "ps \<le> pe" and "fo \<le> fe"
    and "pe < 2 ^ 63" and "start = max ps fo" and "stop = min pe fe"
  shows "0 \<le> start - fo" and "start \<le> stop" and "stop \<le> pe" and "ps \<le> start"
    and "wrap64 (start - fo) = start - fo" and "wrap64 (stop - start) = stop - start"
    and "wrap64 (start - ps + (stop - start)) = stop - ps"
proof -
  show ss: "0 \<le> start - fo" "start \<le> stop" "stop \<le> pe" "ps \<le> start"
    using assms by auto
  have "0 \<le> start" "start < 2 ^ 63" "start - fo < 2 ^ 63" "stop - start < 2 ^ 63"
    using assms ss by linarith+
  with ss assms(1,2,7) show "wrap64 (start - fo) = start - fo" "wrap64 (stop - start) = stop - start"
    "wrap64 (start - ps + (stop - start)) = stop - ps"
    by (auto intro!: wrap64_nonneg_id)
qed

text \<open>When no call of the operating system fails, the loop does not fail either: no slice
  is out of range.\<close>

definition os_ok :: "os \<Rightarrow> bool" where
  "os_ok d \<longleftrightarrow> (\<forall>p. \<not> mkdir_err d p \<and> \<not> open_err d p \<and> (\<forall>off. write_err d p off = None))"

lemma openFile_succeeds:
  assumes "os_ok d" and "handles_ok (w, d)"
  shows "\<exists>w' d'. openFile p (w, d) = (Inr p, w', d') \<and> os_ok d'"
proof -
  from assms(2) obtain m where m: "w_handles w = Some m" "\<And>p f. mget m p = Some f \<Longrightarrow> f = p"
    by (auto simp: handles_ok_def)
  show ?thesis
    using assms(1) m by (auto simp: openFile_def Let_def os_ok_def split: option.splits)
qed

lemma openFile_os_ok: "os_ok (snd (snd (openFile p s))) = os_ok (snd s)"
  by (cases s) (simp add: openFile_def Let_def os_ok_def split: option.splits)

lemma file_WriteAt_os_ok: "os_ok (snd (file_WriteAt f data off d)) = os_ok d"
  by (simp add: file_WriteAt_def os_ok_def split: option.split)

lemma write_segments_os_ok: "os_ok (snd (snd (write_segments data off segs s))) = os_ok (snd s)"
proof (induction segs arbitrary: off s)
  case (Cons seg segs)
  obtain r w d where o: "openFile (sg_Path seg) s = (r, w, d)" by (metis surj_pair)
  have d: "os_ok d = os_ok (snd s)" using openFile_os_ok [of "sg_Path seg" s] o by simp
  show ?case
  proof (cases r)
    case (Inr g)
    then show ?thesis
      using o d Cons.IH [of _ "(w, _)"] file_WriteAt_os_ok
      by (auto simp: Let_def split: prod.split option.split) (metis snd_conv)+
  qed (use o d in simp)
qed simp

lemma WritePiece_os_ok: "WritePiece i data s = (e, dsk) \<Longrightarrow> os_ok (snd dsk) = os_ok (snd s)"
  unfolding WritePiece_def using write_segments_os_ok by (metis snd_conv)

lemma write_segments_succeeds:
  assumes "handles_ok (w, d)" and "os_ok d" and "list_all (\<lambda>f. 0 \<le> fe_Length f) files"
    and "0 \<le> fo" and "fo + (\<Sum>f\<leftarrow>files. fe_Length f) < 2 ^ 63"
    and "0 \<le> ps" and "ps \<le> pe" and "pe < 2 ^ 63" and "int (length data) = pe - ps"
    and "fo < pe \<Longrightarrow> off = max 0 (fo - ps)"
  shows "\<exists>w' d'. write_segments data off (segments_from ps pe fo files) (w, d) = (None, w', d')"
  using assms
proof (induction files arbitrary: fo off w d)
  case Nil
  then show ?case by simp
next
  case (Cons f files)
  let ?fe = "fo + fe_Length f"
  have len: "0 \<le> fe_Length f" "0 \<le> (\<Sum>f\<leftarrow>files. fe_Length f)"
    using Cons.prems(3) by (auto simp: list_all_iff intro!: sum_list_nonneg)
  then have fe: "wrap64 ?fe = ?fe" "0 \<le> ?fe" "?fe < 2 ^ 63"
    using Cons.prems(4,5) by (auto intro!: wrap64_nonneg_id)
  consider (skip) "?fe \<le> ps" | (past) "ps < ?fe" "pe \<le> fo" | (overlap) "ps < ?fe" "fo < pe"
    by linarith
  then show ?case
  proof cases
    case skip
    then have "\<exists>w' d'. write_segments data off (segments_from ps pe ?fe files) (w, d) = (None, w', d')"
      using Cons.prems fe len by (intro Cons.IH) auto
    with skip fe show ?thesis by simp
  next
    case past
    with fe show ?thesis by simp
  next
    case overlap
    define start where "start = max ps fo"
    define stop where "stop = min pe ?fe"
    have "fo \<le> ?fe" using len by simp
    note ar = overlap_arith [OF Cons.prems(4,6) overlap(2,1) Cons.prems(7) this Cons.prems(8) start_def stop_def]
    have off: "off = start - ps" using Cons.prems(10) overlap by (simp add: start_def)
    obtain w1 d1 where o: "openFile (fe_Path f) (w, d) = (Inr (fe_Path f), w1, d1)" and ok: "os_ok d1"
      using openFile_succeeds [OF Cons.prems(2,1)] by blast
    note opened = openFile_ok [OF o Cons.prems(1)]
    obtain c where c: "dk d1 (fe_Path f) = Some c" using opened by (auto split: option.splits)
    let ?c = "write_at (nat (start - fo)) (take (nat (stop - start)) (drop (nat (start - ps)) data)) c"
    let ?d2 = "d1\<lparr>dk := (dk d1)(fe_Path f \<mapsto> ?c)\<rparr>"
    have wa: "file_WriteAt (fe_Path f) (take (nat (stop - ps - off)) (drop (nat off) data)) (start - fo) d1 =
        (None, ?d2)"
      using ok c ar(1) by (simp add: file_WriteAt_def os_ok_def off)
    have "handles_ok (w1, ?d2)" "os_ok ?d2" using opened ok by (auto simp: handles_ok_def os_ok_def)
    then have "\<exists>w' d'. write_segments data (stop - ps) (segments_from ps pe ?fe files) (w1, ?d2) = (None, w', d')"
      using Cons.prems fe overlap by (intro Cons.IH) (auto simp: stop_def)
    moreover have "0 \<le> off" "off \<le> stop - ps" "stop - ps \<le> int (length data)"
      using ar(2-4) Cons.prems(9) off by linarith+
    moreover have "segments_from ps pe fo (f # files) = \<lparr>sg_Path = fe_Path f, sg_Offset = start - fo,
        sg_Length = stop - start\<rparr> # segments_from ps pe ?fe files"
      using overlap fe ar(5,6) by (simp add: Let_def start_def stop_def)
    ultimately show ?thesis using o wa ar(7) by (simp add: Let_def off)
  qed
qed

lemma write_segments_image:
  assumes "handles_ok (w, d)" and "list_all (\<lambda>f. 0 \<le> fe_Length f) files"
    and "distinct (map fe_Path files)"
    and "0 \<le> fo" and "fo + (\<Sum>f\<leftarrow>files. fe_Length f) < 2 ^ 63"
    and "0 \<le> ps" and "ps \<le> pe" and "pe < 2 ^ 63" and "int (length data) = pe - ps"
    and "fo < pe \<Longrightarrow> off = max 0 (fo - ps)"
    and "write_segments data off (segments_from ps pe fo files) (w, d) = (None, w', d')"
  shows "handles_ok (w', d') \<and> w_files w' = w_files w \<and> w_info w' = w_info w \<and>
    range_written files fo ps pe data (dk d) (dk d')"
  using assms
proof (induction files arbitrary: fo off w d)
  case Nil
  then show ?case by (simp add: range_written_def)
next
  case (Cons f files)
  let ?fe = "fo + fe_Length f"
  have len: "0 \<le> fe_Length f" "0 \<le> (\<Sum>f\<leftarrow>files. fe_Length f)"
    using Cons.prems(2) by (auto simp: list_all_iff intro!: sum_list_nonneg)
  then have fe: "wrap64 ?fe = ?fe" "0 \<le> ?fe" "?fe < 2 ^ 63"
    using Cons.prems(4,5) by (auto intro!: wrap64_nonneg_id)
  have p: "fe_Path f \<notin> fe_Path ` set files" using Cons.prems(3) by simp
  note IH = Cons.IH [of _ _ ?fe]
  consider (skip) "?fe \<le> ps" | (past) "ps < ?fe" "pe \<le> fo" | (overlap) "ps < ?fe" "fo < pe"
    by linarith
  then show ?case
  proof cases
    case skip
    with Cons.prems(11) fe have "write_segments data off (segments_from ps pe ?fe files) (w, d) = (None, w', d')"
      by simp
    then have "handles_ok (w', d') \<and> w_files w' = w_files w \<and> w_info w' = w_info w \<and>
        range_written files ?fe ps pe data (dk d) (dk d')"
      using Cons.prems skip fe len by (intro IH) auto
    with skip len p show ?thesis by (auto intro: range_written_skip)
  next
    case past
    with Cons.prems(1,11) fe show ?thesis by (simp add: range_written_done)
  next
    case overlap
    define start where "start = max ps fo"
    define stop where "stop = min pe ?fe"
    have off: "off = start - ps" using Cons.prems(10) overlap by (simp add: start_def)
    have "fo \<le> ?fe" using len by simp
    note ar = overlap_arith [OF Cons.prems(4,6) overlap(2,1) Cons.prems(7) this Cons.prems(8) start_def stop_def]
    note ss = ar(1-4) and wr = ar(5-7)
    have segs: "segments_from ps pe fo (f # files) = \<lparr>sg_Path = fe_Path f, sg_Offset = start - fo,
        sg_Length = stop - start\<rparr> # segments_from ps pe ?fe files"
      using overlap fe wr by (simp add: Let_def start_def stop_def)
    define sl where "sl = take (nat (stop - start)) (drop (nat (start - ps)) data)"
    obtain h w1 d1 d2 where o: "openFile (fe_Path f) (w, d) = (Inr h, w1, d1)"
      and wa': "file_WriteAt h (take (nat (wrap64 (off + (stop - start)) - off)) (drop (nat off) data))
        (start - fo) d1 = (None, d2)"
      and rest': "write_segments data (wrap64 (off + (stop - start)))
        (segments_from ps pe ?fe files) (w1, d2) = (None, w', d')"
      using Cons.prems(11) unfolding segs by (elim write_segments_Cons) simp
    note opened = openFile_ok [OF o Cons.prems(1)]
    have wa: "file_WriteAt (fe_Path f) sl (start - fo) d1 = (None, d2)"
      using wa' opened wr(3) by (simp add: off sl_def)
    have rest: "write_segments data (stop - ps) (segments_from ps pe ?fe files) (w1, d2) = (None, w', d')"
      using rest' wr(3) by (simp add: off)
    define c where "c = (case dk d (fe_Path f) of Some c \<Rightarrow> c | None \<Rightarrow> [])"
    have "dk d1 (fe_Path f) = Some c" using opened by (auto simp: c_def split: option.splits)
    with wa have d2: "d2 = d1\<lparr>dk := (dk d1)(fe_Path f \<mapsto> write_at (nat (start - fo)) sl c)\<rparr>"
      by (auto simp: file_WriteAt_def split: if_splits option.splits)
    then have dk2: "dk d2 = (dk d)(fe_Path f \<mapsto> write_at (nat (start - fo)) sl c)"
      using opened by (auto split: option.splits)
    have "handles_ok (w1, d2)" using opened d2 by (auto simp: handles_ok_def)
    then have "handles_ok (w', d') \<and> w_files w' = w_files w1 \<and> w_info w' = w_info w1 \<and>
        range_written files ?fe ps pe data (dk d2) (dk d')"
      using Cons.prems fe rest overlap by (intro IH) (auto simp: stop_def)
    moreover from this have "range_written (f # files) fo ps pe data (dk d) (dk d')"
      using dk2 c_def ss len p Cons.prems(9)
      by (intro range_written_step [where dm = "dk d2" and start = start and stop = stop and c = c])
        (auto simp: sl_def start_def stop_def)
    ultimately show ?thesis using opened by simp
  qed
qed

section \<open>The interface of a piece store\<close>

text \<open>
  What the download collector relies on: a successful write of a piece makes its bytes
  readable at the piece's place and leaves the bytes of every other piece alone.
\<close>

definition piece_stored ::
  "('s \<Rightarrow> int \<Rightarrow> byte option) \<Rightarrow> ('s \<Rightarrow> int \<Rightarrow> int) \<Rightarrow> 's \<Rightarrow> int \<Rightarrow> bytes \<Rightarrow> bool" where
  "piece_stored get start s i data \<longleftrightarrow>
     (\<forall>k < length data. get s (start s i + int k) = Some (data ! k))"

fun write_pieces ::
  "(int \<Rightarrow> bytes \<Rightarrow> 's \<Rightarrow> error option \<times> 's) \<Rightarrow> (int \<times> bytes) list \<Rightarrow> 's \<Rightarrow> error option \<times> 's" where
  "write_pieces wr [] s = (None, s)"
| "write_pieces wr ((i, data) # ps) s =
     (case wr i data s of (Some e, s') \<Rightarrow> (Some e, s') | (None, s') \<Rightarrow> write_pieces wr ps s')"

locale piece_store =
  fixes wr :: "int \<Rightarrow> bytes \<Rightarrow> 's \<Rightarrow> error option \<times> 's"
    and get :: "'s \<Rightarrow> int \<Rightarrow> byte option"
    and ok :: "'s \<Rightarrow> bool"
    and num :: "'s \<Rightarrow> int"
    and start :: "'s \<Rightarrow> int \<Rightarrow> int"
    and psize :: "'s \<Rightarrow> int \<Rightarrow> int"
  assumes wr_ok: "ok s \<Longrightarrow> 0 \<le> i \<Longrightarrow> i < num s \<Longrightarrow> int (length data) = psize s i \<Longrightarrow>
      wr i data s = (None, s') \<Longrightarrow> ok s' \<and> num s' = num s \<and> start s' = start s \<and> psize s' = psize s"
    and wr_get: "ok s \<Longrightarrow> 0 \<le> i \<Longrightarrow> i < num s \<Longrightarrow> int (length data) = psize s i \<Longrightarrow>
      wr i data s = (None, s') \<Longrightarrow> k < length data \<Longrightarrow> get s' (start s i + int k) = Some (data ! k)"
    and wr_keep: "ok s \<Longrightarrow> 0 \<le> i \<Longrightarrow> i < num s \<Longrightarrow> int (length data) = psize s i \<Longrightarrow>
      wr i data s = (None, s') \<Longrightarrow> 0 \<le> j \<Longrightarrow> j < num s \<Longrightarrow> j \<noteq> i \<Longrightarrow> int k < psize s j \<Longrightarrow>
      get s (start s j + int k) = Some b \<Longrightarrow> get s' (start s j + int k) = Some b"
begin

definition fits :: "'s \<Rightarrow> int \<Rightarrow> bytes \<Rightarrow> bool" where
  "fits s i data \<longleftrightarrow> 0 \<le> i \<and> i < num s \<and> int (length data) = psize s i"

lemma wr_stored:
  assumes "ok s" and "fits s i data" and "wr i data s = (None, s')"
  shows "piece_stored get start s' i data"
  using assms wr_ok [of s i data s'] wr_get [of s i data s'] by (simp add: piece_stored_def fits_def)

lemma wr_stored_keep:
  assumes "ok s" and "fits s i data" and "wr i data s = (None, s')"
    and "fits s j old" and "j \<noteq> i" and "piece_stored get start s j old"
  shows "piece_stored get start s' j old"
  unfolding piece_stored_def
proof (intro allI impI)
  fix k
  assume k: "k < length old"
  then have "get s (start s j + int k) = Some (old ! k)" using assms(6) by (simp add: piece_stored_def)
  moreover have "int k < psize s j" using k assms(4) by (simp add: fits_def)
  ultimately have "get s' (start s j + int k) = Some (old ! k)"
    using assms by (intro wr_keep [of s i data s' j k]) (simp_all add: fits_def)
  then show "get s' (start s' j + int k) = Some (old ! k)"
    using wr_ok [of s i data s'] assms(1-3) by (simp add: fits_def)
qed

lemma wr_fits:
  "ok s \<Longrightarrow> fits s i data \<Longrightarrow> wr i data s = (None, s') \<Longrightarrow> ok s' \<and> fits s' = fits s"
  using wr_ok [of s i data s'] by (auto simp: fits_def fun_eq_iff)

text \<open>Pieces written in any order are all there at the end.\<close>

lemma write_pieces_stored:
  assumes "ok s" and "\<forall>(i, data) \<in> set ps. fits s i data" and "distinct (map fst ps)"
    and "write_pieces wr ps s = (None, s')"
  shows "ok s' \<and> fits s' = fits s \<and> (\<forall>(i, data) \<in> set ps. piece_stored get start s' i data) \<and>
    (\<forall>j old. j \<notin> fst ` set ps \<longrightarrow> fits s j old \<longrightarrow> piece_stored get start s j old \<longrightarrow>
      piece_stored get start s' j old)"
  using assms
proof (induction ps arbitrary: s)
  case Nil
  then show ?case by simp
next
  case (Cons p ps)
  obtain i data where p: "p = (i, data)" by (cases p)
  obtain s1 where w: "wr i data s = (None, s1)" and rest: "write_pieces wr ps s1 = (None, s')"
    using Cons.prems(4) p by (auto split: prod.splits option.splits)
  have f: "fits s i data" using Cons.prems(2) p by simp
  note s1 = wr_fits [OF Cons.prems(1) f w]
  have IH: "ok s' \<and> fits s' = fits s1 \<and> (\<forall>(i, data) \<in> set ps. piece_stored get start s' i data) \<and>
    (\<forall>j old. j \<notin> fst ` set ps \<longrightarrow> fits s1 j old \<longrightarrow> piece_stored get start s1 j old \<longrightarrow>
      piece_stored get start s' j old)"
    using Cons.prems s1 rest by (intro Cons.IH) auto
  have "piece_stored get start s1 i data" by (rule wr_stored [OF Cons.prems(1) f w])
  moreover have "i \<notin> fst ` set ps" using Cons.prems(3) p by simp
  ultimately have here: "piece_stored get start s' i data" using IH s1 f by metis
  have "piece_stored get start s' j old"
    if "j \<notin> fst ` set (p # ps)" "fits s j old" "piece_stored get start s j old" for j old
    using that IH s1 p wr_stored_keep [OF Cons.prems(1) f w that(2)] by auto
  with IH here s1 p show ?case by auto
qed

end

section \<open>The writer is a piece store\<close>

definition writer_ok :: "writer \<times> os \<Rightarrow> bool" where
  "writer_ok s \<longleftrightarrow> handles_ok s \<and> layout_ok (w_info (fst s)) \<and>
     list_all (\<lambda>f. 0 \<le> fe_Length f) (w_files (fst s)) \<and> distinct (map fe_Path (w_files (fst s))) \<and>
     (\<Sum>f\<leftarrow>w_files (fst s). fe_Length f) = data_length (w_info (fst s))"

definition disk_byte :: "writer \<times> os \<Rightarrow> int \<Rightarrow> byte option" where
  "disk_byte s g = image (w_files (fst s)) (dk (snd s)) g"

definition piece_start :: "writer \<times> os \<Rightarrow> int \<Rightarrow> int" where
  "piece_start s i = i * i_PieceLength (w_info (fst s))"

lemma fileList_lengths:
  assumes "layout_ok info"
  shows "list_all (\<lambda>f. 0 \<le> fe_Length f) (fileList info base)"
    and "(\<Sum>f\<leftarrow>fileList info base. fe_Length f) = data_length info"
  using assms by (auto simp: fileList_def layout_ok_def data_length_def list_all_iff comp_def)

lemma writer_ok_New:
  assumes "layout_ok info" and "distinct (map fe_Path (fileList info base))"
  shows "writer_ok (NewWriter info base, d)"
  using assms fileList_lengths [OF assms(1), of base] handles_ok_New [of info base d]
  by (simp add: writer_ok_def) (simp add: NewWriter_def)

lemma data_length_bound: "layout_ok info \<Longrightarrow> data_length info < 2 ^ 63"
  by (auto simp: layout_ok_def)

lemma piece_in_range:
  assumes lay: "layout_ok info" and i: "0 \<le> i" "i < NumPieces info"
  shows "0 \<le> i * i_PieceLength info" and "0 < PieceSize info i"
    and "i * i_PieceLength info + PieceSize info i < 2 ^ 63"
    and "wrap64 (i * i_PieceLength info) = i * i_PieceLength info"
    and "wrap64 (i * i_PieceLength info + PieceSize info i) = i * i_PieceLength info + PieceSize info i"
proof -
  let ?p = "i_PieceLength info"
  note sz = PieceSize_layout [OF lay i]
  have p: "0 < ?p" "data_length info < 2 ^ 63"
    using lay data_length_bound by (auto simp: layout_ok_def)
  then show "0 \<le> i * ?p" using i by simp
  have "i * ?p + PieceSize info i \<le> data_length info" by (simp add: sz(1))
  then show b: "i * ?p + PieceSize info i < 2 ^ 63" using p by linarith
  show "wrap64 (i * ?p + PieceSize info i) = i * ?p + PieceSize info i"
    using b sz(3) \<open>0 \<le> i * ?p\<close> by (intro wrap64_nonneg_id) linarith+
qed (use PieceSize_layout(2,3) [OF lay i] in simp_all)

lemma WritePiece_range:
  assumes ok: "writer_ok (w, d)" and i: "0 \<le> i" "i < NumPieces (w_info w)"
    and data: "int (length data) = PieceSize (w_info w) i"
    and wr: "WritePiece i data (w, d) = (None, w', d')"
  shows "writer_ok (w', d') \<and> w_files w' = w_files w \<and> w_info w' = w_info w \<and>
    range_written (w_files w) 0 (i * i_PieceLength (w_info w))
      (i * i_PieceLength (w_info w) + PieceSize (w_info w) i) data (dk d) (dk d')"
proof -
  let ?p = "i_PieceLength (w_info w)"
  have lay: "layout_ok (w_info w)" using ok by (simp add: writer_ok_def)
  note b = piece_in_range [OF lay i]
  have "write_segments data 0 (segments_from (i * ?p) (i * ?p + PieceSize (w_info w) i) 0 (w_files w))
      (w, d) = (None, w', d')"
    using wr by (simp add: WritePiece_def pieceSegments_def Let_def b(4,5))
  then have "handles_ok (w', d') \<and> w_files w' = w_files w \<and> w_info w' = w_info w \<and>
    range_written (w_files w) 0 (i * ?p) (i * ?p + PieceSize (w_info w) i) data (dk d) (dk d')"
    using ok b data data_length_bound [OF lay]
    by (intro write_segments_image [where off = 0]) (auto simp: writer_ok_def)
  then show ?thesis using ok by (simp add: writer_ok_def)
qed

lemma pieces_disjoint:
  assumes "layout_ok info" and "0 \<le> i" "i < NumPieces info" "0 \<le> j" "j < NumPieces info"
    and "i \<noteq> j" and "0 \<le> k" "k < PieceSize info j"
  shows "\<not> (i * i_PieceLength info \<le> j * i_PieceLength info + k \<and>
    j * i_PieceLength info + k < i * i_PieceLength info + PieceSize info i)"
proof -
  let ?p = "i_PieceLength info"
  have p: "0 < ?p" using assms(1) by (simp add: layout_ok_def)
  have sz: "PieceSize info i \<le> ?p" "PieceSize info j \<le> ?p"
    using PieceSize_layout(4) [OF assms(1)] assms by auto
  consider "i + 1 \<le> j" | "j + 1 \<le> i" using assms(6) by linarith
  then show ?thesis
  proof cases
    case 1
    then have "(i + 1) * ?p \<le> j * ?p" using p by (intro mult_right_mono) auto
    with sz assms(7) show ?thesis by (simp add: distrib_right)
  next
    case 2
    then have "(j + 1) * ?p \<le> i * ?p" using p by (intro mult_right_mono) auto
    with sz assms(8) show ?thesis by (simp add: distrib_right)
  qed
qed

interpretation disk: piece_store WritePiece disk_byte writer_ok "\<lambda>s. NumPieces (w_info (fst s))"
  piece_start "\<lambda>s. PieceSize (w_info (fst s))"
proof unfold_locales
  fix s i data s'
  assume a: "writer_ok s" "0 \<le> i" "i < NumPieces (w_info (fst s))"
    "int (length data) = PieceSize (w_info (fst s)) i" "WritePiece i data s = (None, s')"
  obtain w d w' d' where s: "s = (w, d)" "s' = (w', d')" by (cases s; cases s')
  note r = WritePiece_range [of w d i data w' d']
  have lay: "layout_ok (w_info w)" using a(1) s by (simp add: writer_ok_def)
  show "writer_ok s' \<and> NumPieces (w_info (fst s')) = NumPieces (w_info (fst s)) \<and>
      piece_start s' = piece_start s \<and> PieceSize (w_info (fst s')) = PieceSize (w_info (fst s))"
    using r a s by (simp add: piece_start_def fun_eq_iff)
  have inside: "j * i_PieceLength (w_info w) + int k < data_length (w_info w)"
    if "0 \<le> j" "j < NumPieces (w_info w)" "int k < PieceSize (w_info w) j" for j k
    using PieceSize_layout(1) [OF lay that(1,2)] that(3) by simp
  have nonneg: "0 \<le> j * i_PieceLength (w_info w) + int k" if "0 \<le> j" for j k
    using lay that by (simp add: layout_ok_def)
  have total: "(\<Sum>f\<leftarrow>w_files w. fe_Length f) = data_length (w_info w)"
    using a(1) s by (simp add: writer_ok_def)
  show "disk_byte s' (piece_start s i + int k) = Some (data ! k)" if "k < length data" for k
    using r a s that inside [of i k] nonneg [of i k] total
    by (auto simp: disk_byte_def piece_start_def range_written_def)
  show "disk_byte s' (piece_start s j + int k) = Some b"
    if "0 \<le> j" "j < NumPieces (w_info (fst s))" "j \<noteq> i" "int k < PieceSize (w_info (fst s)) j"
      "disk_byte s (piece_start s j + int k) = Some b" for j k b
    using r a s that inside [of j k] nonneg [of j k] total
      pieces_disjoint [OF lay, of i j "int k"]
    by (auto simp: disk_byte_def piece_start_def range_written_def)
qed

section \<open>The files of a finished download\<close>

text \<open>The reference: the data of the torrent cut along the file list.\<close>

fun file_contents :: "fileEntry list \<Rightarrow> bytes \<Rightarrow> (bytes \<times> bytes) list" where
  "file_contents [] whole = []"
| "file_contents (f # files) whole =
     (fe_Path f, take (nat (fe_Length f)) whole) # file_contents files (drop (nat (fe_Length f)) whole)"

lemma image_contents:
  assumes "list_all (\<lambda>f. 0 \<le> fe_Length f) files"
    and "int (length whole) = (\<Sum>f\<leftarrow>files. fe_Length f)"
    and "\<forall>g. 0 \<le> g \<and> g < (\<Sum>f\<leftarrow>files. fe_Length f) \<longrightarrow> image files d g = Some (whole ! nat g)"
    and "\<forall>f\<in>set files. size_at d (fe_Path f) \<le> fe_Length f"
  shows "\<forall>(p, c)\<in>set (file_contents files whole). c \<noteq> [] \<longrightarrow> d p = Some c"
  using assms
proof (induction files arbitrary: whole)
  case Nil
  then show ?case by simp
next
  case (Cons f files)
  let ?n = "nat (fe_Length f)"
  have len: "0 \<le> fe_Length f" "0 \<le> (\<Sum>f\<leftarrow>files. fe_Length f)"
    using Cons.prems(1) by (auto simp: list_all_iff intro!: sum_list_nonneg)
  have at: "image (f # files) d g = Some (whole ! nat g)"
    if "0 \<le> g" "g < fe_Length f + (\<Sum>f\<leftarrow>files. fe_Length f)" for g
    using Cons.prems(3) that by simp
  have "\<forall>(p, c)\<in>set (file_contents files (drop ?n whole)). c \<noteq> [] \<longrightarrow> d p = Some c"
  proof (rule Cons.IH)
    show "\<forall>g. 0 \<le> g \<and> g < (\<Sum>f\<leftarrow>files. fe_Length f) \<longrightarrow>
        image files d g = Some (drop ?n whole ! nat g)"
    proof (intro allI impI)
      fix g
      assume g: "0 \<le> g \<and> g < (\<Sum>f\<leftarrow>files. fe_Length f)"
      then have "image (f # files) d (fe_Length f + g) = Some (whole ! nat (fe_Length f + g))"
        using len by (intro at) auto
      moreover have "nat (fe_Length f + g) = ?n + nat g" using g len by linarith
      moreover have "?n \<le> length whole" using Cons.prems(2) len by simp
      ultimately show "image files d g = Some (drop ?n whole ! nat g)" using g by simp
    qed
  qed (use Cons.prems len in \<open>auto simp: list_all_iff\<close>)
  moreover have "d (fe_Path f) = Some (take ?n whole)" if ne: "take ?n whole \<noteq> []"
  proof -
    have here: "\<exists>c. d (fe_Path f) = Some c \<and> k < length c \<and> c ! k = whole ! k" if "k < ?n" for k
    proof -
      have "int k < fe_Length f" using that by linarith
      then show ?thesis using at [of "int k"] len by (auto split: option.splits if_splits)
    qed
    have "0 < ?n" using ne by (cases "?n") auto
    then obtain c where c: "d (fe_Path f) = Some c" using here by blast
    then have "int (length c) \<le> fe_Length f" using Cons.prems(4) by (simp add: size_at_def)
    then have "length c \<le> ?n" by linarith
    moreover have "\<not> length c < ?n" using here c by (metis option.inject less_irrefl)
    ultimately have "length c = ?n" by linarith
    moreover have "?n \<le> length whole" using Cons.prems(2) len by simp
    ultimately have "c = take ?n whole" using here c by (intro nth_equalityI) auto
    with c show ?thesis by simp
  qed
  ultimately show ?case by auto
qed

lemma write_pieces_sizes:
  assumes "writer_ok s" and "\<forall>(i, data)\<in>set ps. disk.fits s i data"
    and "write_pieces WritePiece ps s = (None, s')"
    and "\<forall>f\<in>set (w_files (fst s)). size_at (dk (snd s)) (fe_Path f) \<le> fe_Length f"
  shows "w_files (fst s') = w_files (fst s) \<and> w_info (fst s') = w_info (fst s) \<and>
    (\<forall>f\<in>set (w_files (fst s)). size_at (dk (snd s')) (fe_Path f) \<le> fe_Length f) \<and>
    (\<forall>p. p \<notin> fe_Path ` set (w_files (fst s)) \<longrightarrow> dk (snd s') p = dk (snd s) p)"
  using assms
proof (induction ps arbitrary: s)
  case Nil
  then show ?case by simp
next
  case (Cons pc ps)
  obtain i data where pc: "pc = (i, data)" by (cases pc)
  obtain w d where s: "s = (w, d)" by (cases s)
  obtain w1 d1 where wr: "WritePiece i data (w, d) = (None, w1, d1)"
    and rest: "write_pieces WritePiece ps (w1, d1) = (None, s')"
    using Cons.prems(3) pc s by (auto split: prod.splits option.splits)
  have f: "disk.fits (w, d) i data" using Cons.prems(2) pc s by simp
  have ok: "writer_ok (w, d)" using Cons.prems(1) s by simp
  note r = WritePiece_range [OF ok _ _ _ wr]
  have one: "writer_ok (w1, d1)" "w_files w1 = w_files w" "w_info w1 = w_info w"
    "\<forall>p. p \<notin> fe_Path ` set (w_files w) \<longrightarrow> dk d1 p = dk d p"
    "\<forall>f\<in>set (w_files w). size_at (dk d1) (fe_Path f) \<le> max (fe_Length f) (size_at (dk d) (fe_Path f))"
    using r f by (auto simp: disk.fits_def range_written_def)
  have "\<forall>f\<in>set (w_files w). size_at (dk d1) (fe_Path f) \<le> fe_Length f"
    using one(5) Cons.prems(4) s by (metis fst_conv max_absorb1 snd_conv)
  moreover have "disk.fits (w1, d1) = disk.fits (w, d)"
    using disk.wr_fits [OF ok f wr] by simp
  ultimately have "w_files (fst s') = w_files w1 \<and> w_info (fst s') = w_info w1 \<and>
    (\<forall>f\<in>set (w_files w1). size_at (dk (snd s')) (fe_Path f) \<le> fe_Length f) \<and>
    (\<forall>p. p \<notin> fe_Path ` set (w_files w1) \<longrightarrow> dk (snd s') p = dk d1 p)"
    using Cons.IH [of "(w1, d1)"] Cons.prems(2) one(1,2) rest s by simp
  with one s show ?case by auto
qed

section \<open>Properties of the writer\<close>

definition sample_os :: os where
  "sample_os = \<lparr>dk = Map.empty, mkdir_err = (\<lambda>_. False), open_err = (\<lambda>_. False),
     write_err = (\<lambda>_ _. None), close_err = (\<lambda>_. False)\<rparr>"

lemma sample_layout: "layout_ok sample_info"
  by (simp add: layout_ok_def sample_info_def NumPieces_def data_length_def)

lemma sample_files:
  "fileList sample_info (str ''/d'') =
    [\<lparr>fe_Path = str ''/d/a/b'', fe_Length = 3\<rparr>, \<lparr>fe_Path = str ''/d/a/c/d'', fe_Length = 2\<rparr>]"
  by code_simp

lemma sample_distinct: "distinct (map fe_Path (fileList sample_info (str ''/d'')))"
  by code_simp

lemma sample_writer_ok: "writer_ok (NewWriter sample_info (str ''/d''), sample_os)"
  by (intro writer_ok_New sample_layout sample_distinct)

text \<open>C28. For a writer as \<^verbatim>\<open>NewWriter\<close> makes it from consistent lengths and distinct
  paths, and as its own writes leave it (\<open>writer_ok\<close>): writing a piece of the right size that
  succeeds puts exactly its bytes at its place in the torrent's data, across file boundaries; bytes that were on disk elsewhere in the torrent stay as they
  were, paths outside the torrent are not touched, and no file grows beyond its length.\<close>

theorem WritePiece_spec:
  assumes "writer_ok (w, d)" and "0 \<le> i" and "i < NumPieces (w_info w)"
    and "int (length data) = PieceSize (w_info w) i" and "WritePiece i data (w, d) = (None, w', d')"
  shows "writer_ok (w', d') \<and> w_files w' = w_files w \<and>
    (\<forall>g. 0 \<le> g \<and> g < TotalLength (w_info w) \<longrightarrow>
      (if i * i_PieceLength (w_info w) \<le> g \<and> g < i * i_PieceLength (w_info w) + PieceSize (w_info w) i
       then image (w_files w) (dk d') g = Some (data ! nat (g - i * i_PieceLength (w_info w)))
       else \<forall>b. image (w_files w) (dk d) g = Some b \<longrightarrow> image (w_files w) (dk d') g = Some b)) \<and>
    (\<forall>p. p \<notin> fe_Path ` set (w_files w) \<longrightarrow> dk d' p = dk d p) \<and>
    (\<forall>f\<in>set (w_files w). size_at (dk d') (fe_Path f) \<le> max (fe_Length f) (size_at (dk d) (fe_Path f)))"
proof -
  have total: "TotalLength (w_info w) = (\<Sum>f\<leftarrow>w_files w. fe_Length f)"
    using assms(1) TotalLength_data by (simp add: writer_ok_def)
  show ?thesis
    using WritePiece_range [OF assms] unfolding range_written_def total by simp
qed

theorem WritePiece_spec_witness:
  "(case WritePiece 0 [1, 2, 3, 4] (NewWriter sample_info (str ''/d''), sample_os) of
      (e, w, d) \<Rightarrow> e = None \<and> writer_ok (w, d) \<and>
        dk d (str ''/d/a/b'') = Some [1, 2, 3] \<and> dk d (str ''/d/a/c/d'') = Some [4])"
proof -
  obtain e w d where r: "WritePiece 0 [1, 2, 3, 4] (NewWriter sample_info (str ''/d''), sample_os) = (e, w, d)"
    by (metis prod.exhaust)
  have "case WritePiece 0 [1, 2, 3, 4] (NewWriter sample_info (str ''/d''), sample_os) of
      (e, w, d) \<Rightarrow> e = None \<and> dk d (str ''/d/a/b'') = Some [1, 2, 3] \<and> dk d (str ''/d/a/c/d'') = Some [4]"
    by code_simp
  with r have c: "e = None" "dk d (str ''/d/a/b'') = Some [1, 2, 3]" "dk d (str ''/d/a/c/d'') = Some [4]"
    by auto
  have "w_info (NewWriter sample_info (str ''/d'')) = sample_info" by (simp add: NewWriter_def)
  moreover have "PieceSize sample_info 0 = 4" "NumPieces sample_info = 2" by code_simp+
  ultimately have "writer_ok (w, d)"
    using WritePiece_spec [OF sample_writer_ok, of 0 "[1, 2, 3, 4]" w d] r c(1) by simp
  with r c show ?thesis by simp
qed

text \<open>Every byte of the data lies in a piece.\<close>

lemma piece_of_byte:
  assumes "layout_ok info" and "0 \<le> g" and "g < data_length info"
  shows "\<exists>i k. 0 \<le> i \<and> i < NumPieces info \<and> g = i * i_PieceLength info + int k \<and> int k < PieceSize info i"
proof -
  let ?p = "i_PieceLength info"
  let ?i = "g div ?p"
  have lay: "0 < ?p" "data_length info \<le> NumPieces info * ?p"
    using assms(1) by (auto simp: layout_ok_def)
  have "g < NumPieces info * ?p" using assms(3) lay(2) by linarith
  moreover have "?i * ?p \<le> g" using lay(1) by (simp add: minus_mod_eq_div_mult [symmetric])
  ultimately have "?i * ?p < NumPieces info * ?p" by linarith
  then have "?i < NumPieces info" using lay(1) by simp
  moreover have "0 \<le> ?i" using assms(2) lay(1) by (simp add: pos_imp_zdiv_nonneg_iff)
  ultimately have i: "0 \<le> ?i" "?i < NumPieces info" by simp_all
  have gi: "g = ?i * ?p + g mod ?p" "0 \<le> g mod ?p" "g mod ?p < ?p" using lay(1) by simp_all
  define k where "k = nat (g mod ?p)"
  have gk: "g = ?i * ?p + int k" "int k < ?p" using gi unfolding k_def by linarith+
  have "int k < PieceSize info ?i"
    unfolding PieceSize_layout(1) [OF assms(1) i] using gk assms(3) by linarith
  with i gk show ?thesis by blast
qed

lemma length_slice:
  fixes a b :: int
  assumes "0 \<le> a" and "0 \<le> b" and "a + b \<le> int (length xs)"
  shows "int (length (take (nat b) (drop (nat a) xs))) = b"
proof -
  have "nat b \<le> length xs - nat a" using assms by linarith
  then show ?thesis using assms by (simp add: min_absorb2)
qed

lemma nth_slice:
  fixes a b :: int
  assumes "0 \<le> a" and "a + b \<le> int (length xs)" and "int k < b"
  shows "k < length (take (nat b) (drop (nat a) xs)) \<and>
    take (nat b) (drop (nat a) xs) ! k = xs ! (nat a + k)"
proof -
  have "k < nat b" "k < length xs - nat a" using assms by linarith+
  then show ?thesis using assms by simp
qed

lemma WritePiece_no_error:
  assumes "writer_ok (w, d)" and "os_ok d" and "0 \<le> i" and "i < NumPieces (w_info w)"
    and "int (length data) = PieceSize (w_info w) i"
  shows "\<exists>w' d'. WritePiece i data (w, d) = (None, w', d')"
proof -
  have lay: "layout_ok (w_info w)" using assms(1) by (simp add: writer_ok_def)
  note b = piece_in_range [OF lay assms(3,4)]
  show ?thesis
    using assms b data_length_bound [OF lay]
    unfolding WritePiece_def pieceSegments_def Let_def fst_conv b(4,5)
    by (intro write_segments_succeeds) (auto simp: writer_ok_def)
qed

text \<open>C29. With consistent lengths and distinct paths (\<open>writer_ok\<close>), writing a piece of the
  right size does not fail unless a call of the operating system fails: no directory, open or write
  error means no error, and no slice out of range.\<close>

theorem WritePiece_succeeds:
  assumes "writer_ok (w, d)" and "os_ok d" and "0 \<le> i" and "i < NumPieces (w_info w)"
    and "int (length data) = PieceSize (w_info w) i"
  shows "\<exists>w' d'. WritePiece i data (w, d) = (None, w', d')"
  by (rule WritePiece_no_error [OF assms])

theorem WritePiece_succeeds_witness:
  "\<exists>w d. WritePiece 1 [9] (NewWriter sample_info (str ''/d''), sample_os) = (None, w, d)"
proof -
  have "w_info (NewWriter sample_info (str ''/d'')) = sample_info" by (simp add: NewWriter_def)
  moreover have "PieceSize sample_info 1 = 1" "NumPieces sample_info = 2" by code_simp+
  ultimately show ?thesis
    by (intro WritePiece_succeeds sample_writer_ok) (simp_all add: os_ok_def sample_os_def)
qed

text \<open>C30. For a torrent with consistent lengths and distinct paths none of whose files exists
  before, as the writer does not truncate them: when all pieces have been written, in whatever
  order, every file that is not empty holds exactly its part of the torrent's data, and no path that
  is not a file of the torrent has changed. Empty files may not be there (\<open>empty_file_missing\<close>).\<close>

theorem torrent_on_disk:
  assumes "layout_ok info" and "distinct (map fe_Path (fileList info base))"
    and "\<forall>f\<in>set (fileList info base). dk d (fe_Path f) = None"
    and "int (length whole) = TotalLength info"
    and "distinct (map fst ps)" and "fst ` set ps = {0..<NumPieces info}"
    and "\<forall>(i, data)\<in>set ps.
      data = take (nat (PieceSize info i)) (drop (nat (i * i_PieceLength info)) whole)"
    and "write_pieces WritePiece ps (NewWriter info base, d) = (None, w', d')"
  shows "(\<forall>(p, c)\<in>set (file_contents (fileList info base) whole). c \<noteq> [] \<longrightarrow> dk d' p = Some c) \<and>
    (\<forall>p. p \<notin> fe_Path ` set (fileList info base) \<longrightarrow> dk d' p = dk d p)"
proof -
  let ?s = "(NewWriter info base, d)"
  let ?fs = "fileList info base"
  have new [simp]: "w_info (NewWriter info base) = info" "w_files (NewWriter info base) = ?fs"
    by (simp_all add: NewWriter_def)
  note fl = fileList_lengths [OF assms(1), of base]
  have ok: "writer_ok ?s" by (rule writer_ok_New [OF assms(1,2)])
  have whole: "int (length whole) = data_length info"
    using assms(4) TotalLength_data [OF assms(1)] by simp
  have bound: "0 \<le> i * i_PieceLength info \<and>
      i * i_PieceLength info + PieceSize info i \<le> int (length whole) \<and> 0 < PieceSize info i"
    if "0 \<le> i" "i < NumPieces info" for i
    using PieceSize_layout [OF assms(1) that] assms(1) that whole by (simp add: layout_ok_def)
  have range: "0 \<le> i \<and> i < NumPieces info" if "(i, data) \<in> set ps" for i data
    using that assms(6) by (metis atLeastLessThan_iff fst_conv image_eqI)
  have fits: "\<forall>(i, data)\<in>set ps. disk.fits ?s i data"
  proof clarify
    fix i data
    assume m: "(i, data) \<in> set ps"
    then have "data = take (nat (PieceSize info i)) (drop (nat (i * i_PieceLength info)) whole)"
      using assms(7) by auto
    then have "int (length data) = PieceSize info i"
      using range [OF m] bound [of i]
      by (metis length_slice less_imp_le)
    then show "disk.fits ?s i data" using range [OF m] by (simp add: disk.fits_def)
  qed
  have stored: "piece_stored disk_byte piece_start (w', d') i data" if "(i, data) \<in> set ps" for i data
    using disk.write_pieces_stored [OF ok fits assms(5,8)] that by auto
  have sizes: "w_files w' = ?fs \<and> w_info w' = info \<and>
      (\<forall>f\<in>set ?fs. size_at (dk d') (fe_Path f) \<le> fe_Length f) \<and>
      (\<forall>p. p \<notin> fe_Path ` set ?fs \<longrightarrow> dk d' p = dk d p)"
    using write_pieces_sizes [OF ok fits assms(8)] assms(3) fl(1)
    by (simp add: size_at_def list_all_iff)
  have "image ?fs (dk d') g = Some (whole ! nat g)" if g: "0 \<le> g" "g < data_length info" for g
  proof -
    obtain i k where i: "0 \<le> i" "i < NumPieces info"
      and k: "g = i * i_PieceLength info + int k" "int k < PieceSize info i"
      using piece_of_byte [OF assms(1) g] by blast
    obtain data where m: "(i, data) \<in> set ps"
      using i assms(6) by (metis (no_types, lifting) atLeastLessThan_iff imageE prod.collapse)
    have data: "data = take (nat (PieceSize info i)) (drop (nat (i * i_PieceLength info)) whole)"
      using assms(7) m by auto
    have "k < length data" "data ! k = whole ! (nat (i * i_PieceLength info) + k)"
      using bound [OF i] k(2) unfolding data by (metis nth_slice)+
    moreover have "nat (i * i_PieceLength info) + k = nat g" using k(1) bound [OF i] by linarith
    ultimately have "disk_byte (w', d') (i * i_PieceLength info + int k) = Some (whole ! nat g)"
      using stored [OF m] sizes by (simp add: piece_stored_def piece_start_def)
    then show ?thesis using k(1) sizes by (simp add: disk_byte_def)
  qed
  then have "\<forall>(p, c)\<in>set (file_contents ?fs whole). c \<noteq> [] \<longrightarrow> dk d' p = Some c"
    using fl whole sizes by (intro image_contents) auto
  with sizes show ?thesis by blast
qed

theorem torrent_on_disk_witness:
  "(case write_pieces WritePiece [(1, [5]), (0, [1, 2, 3, 4])]
      (NewWriter sample_info (str ''/d''), sample_os) of
     (e, w, d) \<Rightarrow> e = None \<and> dk d (str ''/d/a/b'') = Some [1, 2, 3] \<and>
       dk d (str ''/d/a/c/d'') = Some [4, 5])"
proof -
  let ?ps = "[(1, [5]), (0, [1, 2, 3, 4])] :: (int \<times> bytes) list"
  obtain e w d where r: "write_pieces WritePiece ?ps (NewWriter sample_info (str ''/d''), sample_os) = (e, w, d)"
    by (metis prod.exhaust)
  have "case write_pieces WritePiece ?ps (NewWriter sample_info (str ''/d''), sample_os) of
      (e, w, d) \<Rightarrow> e = None"
    by code_simp
  with r have e: "e = None" by simp
  have c: "PieceSize sample_info 0 = 4" "PieceSize sample_info 1 = 1" "NumPieces sample_info = 2"
    "i_PieceLength sample_info = 4" "TotalLength sample_info = 5"
    by code_simp+
  have "{0..<2} = {1, 0 :: int}" by auto
  then have "(\<forall>(p, c)\<in>set (file_contents (fileList sample_info (str ''/d'')) [1, 2, 3, 4, 5]).
      c \<noteq> [] \<longrightarrow> dk d p = Some c) \<and>
    (\<forall>p. p \<notin> fe_Path ` set (fileList sample_info (str ''/d'')) \<longrightarrow> dk d p = dk sample_os p)"
    using r e c
    by (intro torrent_on_disk [where ps = ?ps and w' = w] sample_layout sample_distinct)
      (simp_all add: sample_files str_def sample_os_def)
  moreover have "file_contents (fileList sample_info (str ''/d'')) [1, 2, 3, 4, 5] =
      [(str ''/d/a/b'', [1, 2, 3]), (str ''/d/a/c/d'', [4, 5])]"
    by code_simp
  ultimately show ?thesis using r e by simp
qed

section \<open>File names\<close>

text \<open>
  The writer joins the name and the path elements of the metadata to the base directory as
  they are. Elements without slashes that are neither dot keep every file below the base
  directory, and then files with different paths are different files.
\<close>

definition plain_info :: "info \<Rightarrow> bool" where
  "plain_info info \<longleftrightarrow> plain_elem (i_Name info) \<and>
     list_all (\<lambda>f. list_all plain_elem (f_Path f)) (i_Files info)"

lemma fileList_elems:
  assumes "plain_info info"
  shows "fileList info base = map (\<lambda>f. \<lparr>fe_Path = Join (base # i_Name info # f_Path f),
      fe_Length = f_Length f\<rparr>)
    (if i_Length info > 0 then [\<lparr>f_Length = i_Length info, f_Path = []\<rparr>] else i_Files info)"
  by (simp add: fileList_def)

text \<open>C31. When the name and the path elements in the metadata are plain, each file of the
  torrent lies below the base directory, and files with different paths in the metadata have
  different paths on disk.\<close>

theorem files_below_base:
  assumes "take 1 base = [slash]" and "plain_info info"
  shows "list_all (\<lambda>f. \<exists>es. es \<noteq> [] \<and> list_all plain_elem es \<and>
      fe_Path f = slash # join_with [slash] (dir_elems base @ es)) (fileList info base) \<and>
    (distinct (map f_Path (i_Files info)) \<longrightarrow> distinct (map fe_Path (fileList info base)))"
proof
  have el: "\<forall>e\<in>set (i_Name info # f_Path f). plain_elem e" if "f \<in> set (i_Files info)" for f
    using assms(2) that by (simp add: plain_info_def list_all_iff)
  have name: "plain_elem (i_Name info)" using assms(2) by (simp add: plain_info_def)
  have path: "Join (base # i_Name info # p) = slash # join_with [slash] (dir_elems base @ i_Name info # p)"
    if "\<forall>e\<in>set (i_Name info # p). plain_elem e" for p
    using that by (intro Join_plain [OF assms(1)]) auto
  show "list_all (\<lambda>f. \<exists>es. es \<noteq> [] \<and> list_all plain_elem es \<and>
      fe_Path f = slash # join_with [slash] (dir_elems base @ es)) (fileList info base)"
  proof (cases "i_Length info > 0")
    case True
    have "Join [base, i_Name info] = slash # join_with [slash] (dir_elems base @ [i_Name info])"
      using path [of "[]"] name by simp
    with True name show ?thesis
      by (auto simp: fileList_def intro!: exI [of _ "[i_Name info]"])
  next
    case False
    then show ?thesis
      using path el unfolding fileList_def list_all_iff
      by (auto intro!: exI [of _ "i_Name info # f_Path f" for f])
  qed
  show "distinct (map f_Path (i_Files info)) \<longrightarrow> distinct (map fe_Path (fileList info base))"
  proof (cases "i_Length info > 0")
    case False
    have "f_Path f = f_Path g"
      if "f \<in> set (i_Files info)" "g \<in> set (i_Files info)"
        "Join (base # i_Name info # f_Path f) = Join (base # i_Name info # f_Path g)" for f g
      using Join_plain_inj [OF assms(1) _ el [OF that(1)] _ el [OF that(2)] that(3)] by simp
    then show ?thesis
      using False by (auto simp: fileList_def distinct_map inj_on_def comp_def)
  qed (simp add: fileList_def)
qed

theorem files_below_base_witness:
  "plain_info sample_info \<and> distinct (map fe_Path (fileList sample_info (str ''/d'')))"
proof -
  have p: "plain_info sample_info" by code_simp
  have "take 1 (str ''/d'') = [slash]" by code_simp
  moreover have "distinct (map f_Path (i_Files sample_info))" by code_simp
  ultimately show ?thesis using files_below_base [OF _ p] p by blast
qed

text \<open>Without the guard a torrent writes outside the base directory.\<close>

lemma path_traversal:
  "map fe_Path (fileList (sample_info\<lparr>i_Files := [\<lparr>f_Length = 1, f_Path = [str ''..'', str ''..'', str ''x'']\<rparr>]\<rparr>)
     (str ''/d'')) = [str ''/x'']"
  by code_simp

text \<open>Files of length zero have no byte in any piece and are not created, unless they lie
  strictly inside one.\<close>

lemma empty_file_missing:
  "(case write_pieces WritePiece [(0, [1, 2, 3, 4]), (1, [5])]
      (NewWriter (sample_info\<lparr>i_Files := [\<lparr>f_Length = 5, f_Path = [str ''b'']\<rparr>,
         \<lparr>f_Length = 0, f_Path = [str ''e'']\<rparr>]\<rparr>) (str ''/d''), sample_os) of
     (e, w, d) \<Rightarrow> e = None \<and> dk d (str ''/d/a/b'') = Some [1, 2, 3, 4, 5] \<and> dk d (str ''/d/a/e'') = None)"
  by code_simp

end
