(* ===== verification/Endgame.thy ===== *)
theory Endgame
  imports GoMap "HOL-Library.Multiset"
begin

text \<open>
  \<^verbatim>\<open>torrent/endgame.go\<close>: the tracker of the last pieces, for which all peers race.
  The mutex makes each operation one step of the tracker.
\<close>

section \<open>The tracker\<close>

record pieceWork =
  pw_Index :: int
  pw_Hash :: bytes
  pw_Length :: int
  NumTries :: int

definition EndgameThreshold :: int where
  "EndgameThreshold = 20"

record endgameTracker =
  eg_active :: int
  eg_pieces :: "pieceWork list"
  eg_completed :: "(int, bool) gomap"
  eg_offset :: int

abbreviation flag :: "('k, bool) gomap \<Rightarrow> 'k \<Rightarrow> bool" where
  "flag m k \<equiv> mget m k = Some True"

definition newEndgameTracker :: endgameTracker where
  "newEndgameTracker = \<lparr>eg_active = 0, eg_pieces = [], eg_completed = [], eg_offset = 0\<rparr>"

definition Activate :: "endgameTracker \<Rightarrow> endgameTracker" where
  "Activate e = e\<lparr>eg_active := 1\<rparr>"

definition IsActive :: "endgameTracker \<Rightarrow> bool" where
  "IsActive e = (eg_active e = 1)"

definition AddPiece :: "pieceWork \<Rightarrow> endgameTracker \<Rightarrow> endgameTracker" where
  "AddPiece pw e =
     (if \<not> flag (eg_completed e) (pw_Index pw) then e\<lparr>eg_pieces := eg_pieces e @ [pw]\<rparr> else e)"

text \<open>
  The loop of \<^verbatim>\<open>PickPiece\<close>, with \<open>k\<close> rounds left. A negative remainder, possible
  only once the offset has wrapped around, is an index out of range.
\<close>

fun pick_from :: "(int \<Rightarrow> bool) \<Rightarrow> pieceWork list \<Rightarrow> int \<Rightarrow> nat \<Rightarrow> error + pieceWork option" where
  "pick_from hasPiece ps start 0 = Inr None"
| "pick_from hasPiece ps start (Suc k) =
     (let n = int (length ps); i = n - int (Suc k); j = (start + i) smod n
      in if j < 0 then Inl Panic
         else if hasPiece (pw_Index (ps ! nat j)) then Inr (Some (ps ! nat j))
         else pick_from hasPiece ps start k)"

definition PickPiece ::
  "(int \<Rightarrow> bool) \<Rightarrow> endgameTracker \<Rightarrow> (error + pieceWork option) \<times> endgameTracker" where
  "PickPiece hasPiece e =
     (let n = length (eg_pieces e)
      in if n = 0 then (Inr None, e)
         else let offset = wrap64 (eg_offset e + 1);
                  start = offset smod int n
              in (pick_from hasPiece (eg_pieces e) start n, e\<lparr>eg_offset := offset\<rparr>))"

fun piece_pos :: "int \<Rightarrow> pieceWork list \<Rightarrow> nat option" where
  "piece_pos index [] = None"
| "piece_pos index (pw # ps) =
     (if pw_Index pw = index then Some 0 else map_option Suc (piece_pos index ps))"

definition remove_piece :: "int \<Rightarrow> pieceWork list \<Rightarrow> pieceWork list" where
  "remove_piece index ps =
     (case piece_pos index ps of None \<Rightarrow> ps | Some i \<Rightarrow> butlast (ps[i := last ps]))"

definition Complete :: "int \<Rightarrow> endgameTracker \<Rightarrow> bool \<times> endgameTracker" where
  "Complete index e =
     (if flag (eg_completed e) index then (False, e)
      else (True, e\<lparr>eg_completed := mput index True (eg_completed e),
                    eg_pieces := remove_piece index (eg_pieces e)\<rparr>))"

definition Remaining :: "endgameTracker \<Rightarrow> int" where
  "Remaining e = int (length (eg_pieces e))"

section \<open>Removing a piece\<close>

lemma piece_pos_Some:
  "piece_pos index ps = Some i \<Longrightarrow> i < length ps \<and> pw_Index (ps ! i) = index"
  by (induction ps arbitrary: i) (auto split: if_splits)

lemma piece_pos_None: "piece_pos index ps = None \<longleftrightarrow> index \<notin> pw_Index ` set ps"
  by (induction ps) auto

lemma mset_swap_remove:
  assumes "i < length ps"
  shows "mset (butlast (ps[i := last ps])) = mset ps - {#ps ! i#}"
proof (cases ps rule: rev_cases)
  case Nil
  with assms show ?thesis by simp
next
  case (snoc xs x)
  show ?thesis
  proof (cases "i = length xs")
    case True
    with snoc show ?thesis by (simp add: list_update_append)
  next
    case False
    with assms snoc have i: "i < length xs" by simp
    then have "xs ! i \<in># mset xs" by simp
    with i snoc show ?thesis
      by (simp add: list_update_append nth_append mset_update butlast_append)
  qed
qed

lemma distinct_submset: "distinct ys \<Longrightarrow> mset xs \<subseteq># mset ys \<Longrightarrow> distinct xs"
proof -
  assume d: "distinct ys" and s: "mset xs \<subseteq># mset ys"
  have "count (mset ys) a \<le> 1" for a using d by (simp add: distinct_count_atmost_1)
  then have "count (mset xs) a \<le> 1" for a using mset_subset_eq_count [OF s] le_trans by blast
  then have "count (mset xs) a = (if a \<in> set xs then 1 else 0)" for a
    by (metis count_greater_zero_iff count_eq_zero_iff le_antisym less_one not_le set_mset_mset)
  then show ?thesis by (simp add: distinct_count_atmost_1)
qed

lemma mset_remove_piece:
  assumes "distinct (map pw_Index ps)"
  shows "mset (remove_piece index ps) = filter_mset (\<lambda>pw. pw_Index pw \<noteq> index) (mset ps)"
proof (cases "piece_pos index ps")
  case None
  then have "\<forall>pw\<in>set ps. pw_Index pw \<noteq> index" by (auto simp: piece_pos_None)
  then have "filter_mset (\<lambda>pw. pw_Index pw \<noteq> index) (mset ps) = filter_mset (\<lambda>_. True) (mset ps)"
    by (intro filter_mset_cong) auto
  with None show ?thesis by (simp add: remove_piece_def)
next
  case (Some i)
  note i = piece_pos_Some [OF Some]
  define as bs where "as = take i ps" and "bs = drop (Suc i) ps"
  have ps: "ps = as @ ps ! i # bs" using i by (simp add: as_def bs_def id_take_nth_drop)
  have "distinct (map pw_Index (as @ ps ! i # bs))" using assms ps by simp
  then have "filter_mset (\<lambda>pw. pw_Index pw \<noteq> index) (mset as + mset bs) =
      filter_mset (\<lambda>_. True) (mset as + mset bs)"
    using i by (intro filter_mset_cong) (auto simp: image_iff)
  moreover have "mset ps = add_mset (ps ! i) (mset as + mset bs)"
    by (subst ps) simp
  ultimately have "filter_mset (\<lambda>pw. pw_Index pw \<noteq> index) (mset ps) = mset ps - {#ps ! i#}"
    using i by simp
  with Some i show ?thesis by (simp add: remove_piece_def mset_swap_remove)
qed

section \<open>Picking a piece\<close>

text \<open>
  The reference: the first piece the peer has in the list rotated by the offset.
\<close>

lemma smod_nonneg: "0 \<le> a \<Longrightarrow> 0 < b \<Longrightarrow> a smod b = a mod (b::int)"
  by (cases "a = 0") (simp_all add: signed_modulo_int_def)

lemma pick_from_find:
  assumes "0 \<le> start" and "k \<le> length ps"
  shows "pick_from hasPiece ps start k =
    Inr (find (\<lambda>pw. hasPiece (pw_Index pw)) (drop (length ps - k) (rotate (nat start) ps)))"
  using assms(2)
proof (induction k)
  case 0
  then show ?case by simp
next
  case (Suc k)
  let ?n = "length ps"
  let ?i = "?n - Suc k"
  have i: "?i < ?n" using Suc.prems by simp
  have eq: "(start + (int ?n - int (Suc k))) smod int ?n = int ((nat start + ?i) mod ?n)"
  proof -
    have "start + (int ?n - int (Suc k)) = int (nat start + ?i)" using assms(1) Suc.prems by simp
    then show ?thesis using i by (simp only: smod_nonneg zmod_int)
  qed
  have "drop ?i (rotate (nat start) ps) = rotate (nat start) ps ! ?i # drop (?n - k) (rotate (nat start) ps)"
    using i Suc.prems by (simp add: Cons_nth_drop_Suc [symmetric] Suc_diff_Suc)
  moreover have "rotate (nat start) ps ! ?i = ps ! ((nat start + ?i) mod ?n)"
    using i by (simp add: nth_rotate add.commute)
  ultimately show ?case using Suc by (simp add: Let_def eq del: of_nat_Suc)
qed

definition offset_ok :: "endgameTracker \<Rightarrow> bool" where
  "offset_ok e \<longleftrightarrow> 0 \<le> eg_offset e \<and> eg_offset e < 2 ^ 63 - 1"

lemma PickPiece_find:
  assumes "offset_ok e"
  shows "PickPiece hasPiece e =
    (Inr (find (\<lambda>pw. hasPiece (pw_Index pw)) (rotate (nat (eg_offset e + 1)) (eg_pieces e))),
     if eg_pieces e = [] then e else e\<lparr>eg_offset := eg_offset e + 1\<rparr>)"
proof (cases "eg_pieces e = []")
  case True
  then show ?thesis by (simp add: PickPiece_def)
next
  case False
  let ?o = "eg_offset e + 1"
  let ?n = "length (eg_pieces e)"
  have o: "0 \<le> ?o" "wrap64 ?o = ?o"
    using assms by (auto simp: offset_ok_def intro!: wrap64_nonneg_id)
  have m: "?o smod int ?n = ?o mod int ?n" "0 \<le> ?o mod int ?n"
    using o(1) False by (simp_all add: smod_nonneg)
  have "nat (?o mod int ?n) = nat ?o mod ?n" using o(1) by (simp add: nat_mod_distrib)
  then have "rotate (nat (?o mod int ?n)) (eg_pieces e) = rotate (nat ?o) (eg_pieces e)"
    by (metis rotate_conv_mod)
  then show ?thesis
    using False o m pick_from_find [OF m(2), of ?n "eg_pieces e" hasPiece]
    by (simp add: PickPiece_def Let_def)
qed

section \<open>The invariant\<close>

text \<open>No piece twice, no completed piece among those still offered.\<close>

definition eg_ok :: "endgameTracker \<Rightarrow> bool" where
  "eg_ok e \<longleftrightarrow> distinct (map pw_Index (eg_pieces e)) \<and> map_ok (eg_completed e) \<and>
     (\<forall>pw\<in>set (eg_pieces e). \<not> flag (eg_completed e) (pw_Index pw))"

lemma eg_ok_new: "eg_ok newEndgameTracker"
  by (simp add: eg_ok_def newEndgameTracker_def)

lemma eg_ok_AddPiece:
  "eg_ok e \<Longrightarrow> pw_Index pw \<notin> pw_Index ` set (eg_pieces e) \<Longrightarrow> eg_ok (AddPiece pw e)"
  by (auto simp: eg_ok_def AddPiece_def)

lemma eg_ok_Activate: "eg_ok e \<Longrightarrow> eg_ok (Activate e)"
  by (simp add: eg_ok_def Activate_def)

lemma eg_ok_PickPiece: "eg_ok e \<Longrightarrow> eg_ok (snd (PickPiece h e))"
  by (simp add: eg_ok_def PickPiece_def Let_def)

lemma Complete_pieces:
  assumes "eg_ok e"
  shows "mset (eg_pieces (snd (Complete i e))) =
    filter_mset (\<lambda>pw. pw_Index pw \<noteq> i) (mset (eg_pieces e))"
proof (cases "flag (eg_completed e) i")
  case True
  then have "\<forall>pw\<in>set (eg_pieces e). pw_Index pw \<noteq> i" using assms by (auto simp: eg_ok_def)
  then have "filter_mset (\<lambda>pw. pw_Index pw \<noteq> i) (mset (eg_pieces e)) =
      filter_mset (\<lambda>_. True) (mset (eg_pieces e))"
    by (intro filter_mset_cong) auto
  with True show ?thesis by (simp add: Complete_def)
next
  case False
  then show ?thesis using assms by (simp add: Complete_def mset_remove_piece eg_ok_def)
qed

lemma Complete_set:
  "eg_ok e \<Longrightarrow> set (eg_pieces (snd (Complete i e))) = {pw \<in> set (eg_pieces e). pw_Index pw \<noteq> i}"
  using Complete_pieces [of e i] by (metis set_mset_filter set_mset_mset)

lemma Complete_completed:
  "eg_ok e \<Longrightarrow> flag (eg_completed (snd (Complete i e))) j \<longleftrightarrow> j = i \<or> flag (eg_completed e) j"
  by (auto simp: Complete_def mget_mput eg_ok_def)

lemma eg_ok_Complete:
  assumes "eg_ok e"
  shows "eg_ok (snd (Complete i e))"
proof -
  have "mset (map pw_Index (eg_pieces (snd (Complete i e)))) =
      image_mset pw_Index (filter_mset (\<lambda>pw. pw_Index pw \<noteq> i) (mset (eg_pieces e)))"
    by (simp add: Complete_pieces [OF assms])
  also have "\<dots> \<subseteq># mset (map pw_Index (eg_pieces e))"
    by (metis image_mset_subseteq_mono mset_map multiset_filter_subset)
  finally have "distinct (map pw_Index (eg_pieces (snd (Complete i e))))"
    using assms by (auto simp: eg_ok_def intro: distinct_submset)
  moreover have "map_ok (eg_completed (snd (Complete i e)))"
    using assms by (simp add: Complete_def eg_ok_def map_ok_mput)
  ultimately show ?thesis
    using assms Complete_set [OF assms, of i] Complete_completed [OF assms, of i]
    by (auto simp: eg_ok_def)
qed

section \<open>Sequences of operations\<close>

text \<open>Any interleaving of the workers and the collector is a sequence of these steps.\<close>

datatype eg_op = OpAdd pieceWork | OpPick "int \<Rightarrow> bool" | OpComplete int | OpActivate

datatype eg_res = NoRes | Picked "error + pieceWork option" | Completed bool

fun eg_step :: "eg_op \<Rightarrow> endgameTracker \<Rightarrow> eg_res \<times> endgameTracker" where
  "eg_step (OpAdd pw) e = (NoRes, AddPiece pw e)"
| "eg_step (OpPick h) e = (case PickPiece h e of (r, e') \<Rightarrow> (Picked r, e'))"
| "eg_step (OpComplete i) e = (case Complete i e of (b, e') \<Rightarrow> (Completed b, e'))"
| "eg_step OpActivate e = (NoRes, Activate e)"

fun run_eg :: "eg_op list \<Rightarrow> endgameTracker \<Rightarrow> eg_res list \<times> endgameTracker" where
  "run_eg [] e = ([], e)"
| "run_eg (x # xs) e =
     (case eg_step x e of (r, e1) \<Rightarrow> (case run_eg xs e1 of (rs, e2) \<Rightarrow> (r # rs, e2)))"

fun added :: "eg_op list \<Rightarrow> int list" where
  "added [] = []"
| "added (OpAdd pw # xs) = pw_Index pw # added xs"
| "added (_ # xs) = added xs"

text \<open>How often a completion of \<open>i\<close> was reported as the first.\<close>

fun wins :: "int \<Rightarrow> eg_op list \<Rightarrow> eg_res list \<Rightarrow> nat" where
  "wins i (OpComplete j # xs) (Completed True # rs) = (if j = i then 1 else 0) + wins i xs rs"
| "wins i (x # xs) (r # rs) = wins i xs rs"
| "wins i _ _ = 0"

lemma AddPiece_completed [simp]: "eg_completed (AddPiece pw e) = eg_completed e"
  by (simp add: AddPiece_def)

lemma PickPiece_completed: "PickPiece h e = (r, e') \<Longrightarrow> eg_completed e' = eg_completed e \<and>
    eg_pieces e' = eg_pieces e"
  by (auto simp: PickPiece_def Let_def split: if_splits)

lemma PickPiece_ok: "eg_ok e \<Longrightarrow> PickPiece h e = (r, e') \<Longrightarrow> eg_ok e'"
  using eg_ok_PickPiece [of e h] by simp

lemma Complete_ok:
  "eg_ok e \<Longrightarrow> Complete i e = (r, e') \<Longrightarrow>
    eg_ok e' \<and> set (eg_pieces e') = {pw \<in> set (eg_pieces e). pw_Index pw \<noteq> i} \<and>
    (\<forall>j. flag (eg_completed e') j \<longleftrightarrow> j = i \<or> flag (eg_completed e) j)"
  using eg_ok_Complete [of e i] Complete_set [of e i] Complete_completed [of e i] by simp

lemma eg_step_pieces:
  "eg_ok e \<Longrightarrow> eg_step x e = (r, e') \<Longrightarrow>
    pw_Index ` set (eg_pieces e') \<subseteq> set (added [x]) \<union> pw_Index ` set (eg_pieces e)"
  by (cases x) (auto simp: AddPiece_def Activate_def dest: PickPiece_completed Complete_ok
      split: prod.splits if_splits)

lemma eg_step_ok:
  assumes "eg_ok e" and "set (added [x]) \<inter> pw_Index ` set (eg_pieces e) = {}"
    and "eg_step x e = (r, e')"
  shows "eg_ok e'"
  using assms eg_ok_AddPiece eg_ok_Activate
  by (cases x) (auto dest: PickPiece_ok Complete_ok split: prod.splits)

lemma added_Cons: "added (x # xs) = added [x] @ added xs"
  by (cases x) simp_all

text \<open>Each completion is won once and never by a piece completed before.\<close>

lemma wins_Cons:
  "eg_step x e = (r, e') \<Longrightarrow> wins i (x # xs) (r # rs) =
    (if x = OpComplete i \<and> \<not> flag (eg_completed e) i then 1 else 0) + wins i xs rs"
  by (cases x) (auto simp: Complete_def split: prod.splits if_splits)

lemma run_eg_wins:
  assumes "eg_ok e" and "distinct (added xs)" and "set (added xs) \<inter> pw_Index ` set (eg_pieces e) = {}"
    and "run_eg xs e = (rs, e')"
  shows "wins i xs rs = (if OpComplete i \<in> set xs \<and> \<not> flag (eg_completed e) i then 1 else 0) \<and>
    (flag (eg_completed e') i \<longleftrightarrow> OpComplete i \<in> set xs \<or> flag (eg_completed e) i) \<and> eg_ok e'"
  using assms
proof (induction xs arbitrary: e rs)
  case Nil
  then show ?case by auto
next
  case (Cons x xs)
  obtain r e1 rs1 where x: "eg_step x e = (r, e1)" and rest: "run_eg xs e1 = (rs1, e')"
    and rs: "rs = r # rs1"
    using Cons.prems(4) by (auto split: prod.splits)
  have all: "set (added (x # xs)) = set (added [x]) \<union> set (added xs)" "distinct (added xs)"
    "set (added [x]) \<inter> set (added xs) = {}"
    using Cons.prems(2) by (simp_all add: added_Cons [of x xs])
  have dis: "set (added [x]) \<inter> pw_Index ` set (eg_pieces e) = {}"
    using Cons.prems(3) unfolding all(1) by blast
  have dis': "set (added xs) \<inter> pw_Index ` set (eg_pieces e1) = {}"
    using Cons.prems(3) all(3) eg_step_pieces [OF Cons.prems(1) x] unfolding all(1) by blast
  have ok: "eg_ok e1" by (rule eg_step_ok [OF Cons.prems(1) dis x])
  have fl: "flag (eg_completed e1) i \<longleftrightarrow> x = OpComplete i \<or> flag (eg_completed e) i"
    using x Cons.prems(1)
    by (cases x) (auto simp: Activate_def dest: PickPiece_completed Complete_ok split: prod.splits)
  note IH = Cons.IH [OF ok all(2) dis' rest]
  show ?case using IH fl by (auto simp: rs wins_Cons [OF x])
qed

section \<open>Properties of the tracker\<close>

text \<open>C34. Whatever the interleaving of workers and collector, when each piece is added once,
  each completed index is reported as completed for the first time exactly once, however many
  peers complete it, and the pieces still offered are distinct and none of them is completed.\<close>

theorem completed_once:
  assumes "distinct (added ops)" and "run_eg ops newEndgameTracker = (rs, e)"
  shows "wins i ops rs = (if OpComplete i \<in> set ops then 1 else 0) \<and>
    (flag (eg_completed e) i \<longleftrightarrow> OpComplete i \<in> set ops) \<and>
    distinct (map pw_Index (eg_pieces e)) \<and>
    list_all (\<lambda>pw. OpComplete (pw_Index pw) \<notin> set ops) (eg_pieces e)"
proof -
  have w: "wins j ops rs = (if OpComplete j \<in> set ops then 1 else 0) \<and>
      (flag (eg_completed e) j \<longleftrightarrow> OpComplete j \<in> set ops) \<and> eg_ok e" for j
    using run_eg_wins [OF eg_ok_new assms(1) _ assms(2), of j] by (simp add: newEndgameTracker_def)
  then have "eg_ok e" by blast
  with w show ?thesis by (auto simp: eg_ok_def list_all_iff)
qed

abbreviation sample_work :: "int \<Rightarrow> pieceWork" where
  "sample_work i \<equiv> \<lparr>pw_Index = i, pw_Hash = [], pw_Length = 1, NumTries = 0\<rparr>"

definition sample_race :: "eg_op list" where
  "sample_race = [OpAdd (sample_work 4), OpAdd (sample_work 7), OpActivate, OpPick (\<lambda>i. i = 7),
     OpComplete 7, OpPick (\<lambda>i. i = 4), OpComplete 7, OpComplete 4]"

theorem completed_once_witness:
  "wins 7 sample_race (fst (run_eg sample_race newEndgameTracker)) = 1"
proof -
  obtain rs e where r: "run_eg sample_race newEndgameTracker = (rs, e)" by (metis prod.exhaust)
  have "distinct (added sample_race)" by code_simp
  with completed_once [OF this r, of 7] r show ?thesis by (simp add: sample_race_def)
qed

text \<open>As many picks in a row by peers that have every piece.\<close>

fun picks :: "nat \<Rightarrow> endgameTracker \<Rightarrow> (error + pieceWork option) list" where
  "picks 0 e = []"
| "picks (Suc k) e = (case PickPiece (\<lambda>_. True) e of (r, e') \<Rightarrow> r # picks k e')"

lemma picks_rotate:
  assumes "offset_ok e" and "eg_offset e + int k < 2 ^ 63 - 1" and "eg_pieces e \<noteq> []"
  shows "picks k e = map (\<lambda>j. Inr (Some (eg_pieces e ! ((nat (eg_offset e) + 1 + j) mod length (eg_pieces e))))) [0..<k]"
  using assms
proof (induction k arbitrary: e)
  case 0
  then show ?case by simp
next
  case (Suc k)
  let ?e = "e\<lparr>eg_offset := eg_offset e + 1\<rparr>"
  have o: "0 \<le> eg_offset e" "nat (eg_offset e + 1) = Suc (nat (eg_offset e))"
    using Suc.prems(1) by (auto simp: offset_ok_def nat_add_distrib)
  have r: "find (\<lambda>_. True) xs = Some (hd xs)" if "xs \<noteq> []" for xs :: "pieceWork list"
    using that by (cases xs) simp_all
  have "hd (rotate (nat (eg_offset e + 1)) (eg_pieces e)) =
      eg_pieces e ! (Suc (nat (eg_offset e)) mod length (eg_pieces e))"
    by (metis hd_rotate_conv_nth Suc.prems(3) o(2))
  moreover have "offset_ok ?e" using Suc.prems(1,2) by (simp add: offset_ok_def)
  ultimately show ?case
    using Suc o by (simp add: PickPiece_find [OF Suc.prems(1)] r upt_conv_Cons map_Suc_upt [symmetric]
        comp_def del: upt_Suc)
qed

lemma picks_all:
  assumes "offset_ok e" and "eg_offset e + int (length (eg_pieces e)) < 2 ^ 63 - 1"
  shows "mset (picks (length (eg_pieces e)) e) = mset (map (\<lambda>pw. Inr (Some pw)) (eg_pieces e))"
proof (cases "eg_pieces e = []")
  case False
  let ?n = "length (eg_pieces e)"
  have "picks ?n e = map (\<lambda>pw. Inr (Some pw)) (rotate (nat (eg_offset e) + 1) (eg_pieces e))"
    using picks_rotate [OF assms False]
    by (intro nth_equalityI) (simp_all add: nth_rotate add.commute del: rotate_Suc)
  moreover have "mset (rotate k xs) = mset xs" for k and xs :: "pieceWork list"
    by (simp add: rotate_drop_take flip: mset_append union_commute) (metis append_take_drop_id mset_append union_commute)
  ultimately show ?thesis by (simp only: mset_map)
qed simp

text \<open>C35. A pick returns the first piece the peer has in the list rotated one place further
  than at the last pick: nothing exactly when the peer has none of the pieces, otherwise an
  outstanding piece the peer has; and as many picks in a row as there are pieces, by peers that
  have all of them, return each piece once.\<close>

theorem PickPiece_spec:
  assumes "offset_ok e"
  shows "(\<exists>r e'. PickPiece hasPiece e = (Inr r, e') \<and> eg_pieces e' = eg_pieces e \<and>
      r = find (\<lambda>pw. hasPiece (pw_Index pw)) (rotate (nat (eg_offset e + 1)) (eg_pieces e)) \<and>
      (r = None \<longleftrightarrow> list_all (\<lambda>pw. \<not> hasPiece (pw_Index pw)) (eg_pieces e)) \<and>
      (\<forall>pw. r = Some pw \<longrightarrow> pw \<in> set (eg_pieces e) \<and> hasPiece (pw_Index pw))) \<and>
    (eg_offset e + int (length (eg_pieces e)) < 2 ^ 63 - 1 \<longrightarrow>
      mset (picks (length (eg_pieces e)) e) = mset (map (\<lambda>pw. Inr (Some pw)) (eg_pieces e)))"
proof -
  let ?r = "find (\<lambda>pw. hasPiece (pw_Index pw)) (rotate (nat (eg_offset e + 1)) (eg_pieces e))"
  have "?r = None \<longleftrightarrow> list_all (\<lambda>pw. \<not> hasPiece (pw_Index pw)) (eg_pieces e)"
    by (simp add: find_None_iff list_all_iff Ball_def)
  moreover have "pw \<in> set (eg_pieces e) \<and> hasPiece (pw_Index pw)" if "?r = Some pw" for pw
    using that by (auto simp: find_Some_iff) (metis length_rotate nth_mem set_rotate)
  ultimately show ?thesis
    using picks_all [OF assms] PickPiece_find [OF assms, of hasPiece] by auto
qed

theorem PickPiece_spec_witness:
  "mset (picks 2 (snd (run_eg (take 3 sample_race) newEndgameTracker))) =
    {#Inr (Some (sample_work 4)), Inr (Some (sample_work 7))#}"
proof -
  let ?e = "snd (run_eg (take 3 sample_race) newEndgameTracker)"
  have p: "eg_pieces ?e = [sample_work 4, sample_work 7]" "eg_offset ?e = 0" by code_simp+
  then have "offset_ok ?e" by (simp add: offset_ok_def)
  with PickPiece_spec [OF this] p show ?thesis by (simp add: numeral_2_eq_2)
qed

end
