(* ===== verification/Piece.thy ===== *)
theory Piece
  imports Conn Sha1 Endgame
begin

text \<open>
  \<^verbatim>\<open>torrent/piece.go\<close>: downloading one piece from a peer with pipelined requests, and
  checking its hash. The buffer pool is what it hands out (\<open>pooled\<close>, the backing array of an
  earlier buffer with its old bytes) and what is put back; the deadline is part of the
  connection, which delivers only what arrives in time.
\<close>

section \<open>Results\<close>

record pieceResult =
  pr_Index :: int
  pr_Data :: bytes
  pr_Err :: "error option"

definition MaxPieceTries :: int where
  "MaxPieceTries = 5"

section \<open>The download loop\<close>

text \<open>The inner loop, which sends requests up to the backlog limit.\<close>

function send_requests ::
  "pieceWork \<Rightarrow> int \<Rightarrow> int \<Rightarrow> conn \<Rightarrow> error option \<times> int \<times> int \<times> conn" where
  "send_requests pw requested backlog c =
     (if backlog < 16 \<and> requested < pw_Length pw then
        let remaining = pw_Length pw - requested;
            blockSize = (if remaining < BlockSize then remaining else BlockSize);
            msg = NewRequest (word_of_int (pw_Index pw)) (word_of_int requested) (word_of_int blockSize)
        in (case SendMessage (Some msg) c of
              Inl e \<Rightarrow> (Some e, requested, backlog, c)
            | Inr c' \<Rightarrow> send_requests pw (requested + blockSize) (backlog + 1) c')
      else (None, requested, backlog, c))"
  by pat_completeness auto
termination by (relation "measure (\<lambda>(pw, requested, backlog, c). nat (16 - backlog))") auto

declare send_requests.simps [simp del]

text \<open>One message: the bytes downloaded, the backlog and the buffer after it.\<close>

definition handle_piece_msg ::
  "pieceWork \<Rightarrow> message option \<Rightarrow> int \<Rightarrow> int \<Rightarrow> bytes \<Rightarrow> error + int \<times> int \<times> bytes" where
  "handle_piece_msg pw msg downloaded backlog buf =
     (case msg of None \<Rightarrow> Inr (downloaded, backlog, buf)
      | Some m \<Rightarrow>
          if ID m = MsgPiece then
            (case ParsePiece (Payload m) of Inl e \<Rightarrow> Inl e
             | Inr (idx, begin, block) \<Rightarrow>
                 if uint idx \<noteq> pw_Index pw then Inr (downloaded, backlog, buf)
                 else if uint begin + int (length block) > int (length buf)
                 then Inr (downloaded, backlog, buf)
                 else Inr (downloaded + int (length block), backlog - 1,
                           copy_at (unat begin) buf block))
          else if ID m = MsgChoke then Inl ErrChoked
          else Inr (downloaded, backlog, buf))"

lemma flush_bytes_rx: "flush_bytes bs c = Inr c' \<Longrightarrow> rx c' = rx c"
  by (auto simp: flush_bytes_iff)

lemma send_requests_rx:
  "send_requests pw requested backlog c = (e, r', b', c') \<Longrightarrow> rx c' = rx c"
proof (induction pw requested backlog c rule: send_requests.induct)
  case (1 pw requested backlog c)
  show ?case
  proof (cases "backlog < 16 \<and> requested < pw_Length pw")
    case False
    with 1 show ?thesis by (subst (asm) (2) send_requests.simps) auto
  next
    case True
    let ?bs = "if pw_Length pw - requested < BlockSize then pw_Length pw - requested else BlockSize"
    let ?msg = "NewRequest (word_of_int (pw_Index pw)) (word_of_int requested) (word_of_int ?bs)"
    show ?thesis
    proof (cases "SendMessage (Some ?msg) c")
      case (Inl e)
      with 1(2) True show ?thesis by (subst (asm) send_requests.simps) (simp add: Let_def)
    next
      case (Inr c1)
      then have "send_requests pw (requested + ?bs) (backlog + 1) c1 = (e, r', b', c')"
        using 1(2) True by (subst (asm) send_requests.simps) (simp add: Let_def)
      then have "rx c' = rx c1" using 1(1) [OF True refl refl refl Inr] by simp
      with Inr show ?thesis by (simp add: SendMessage_def flush_bytes_rx)
    qed
  qed
qed

function piece_loop ::
  "pieceWork \<Rightarrow> int \<Rightarrow> int \<Rightarrow> int \<Rightarrow> bytes \<Rightarrow> conn \<Rightarrow> error option \<times> bytes \<times> conn" where
  "piece_loop pw downloaded requested backlog buf c =
     (if downloaded < pw_Length pw then
        (case send_requests pw requested backlog c of
           (Some e, requested', backlog', c1) \<Rightarrow> (Some e, buf, c1)
         | (None, requested', backlog', c1) \<Rightarrow>
             (case RecvMessage c1 of Inl e \<Rightarrow> (Some e, buf, c1)
              | Inr (msg, c2) \<Rightarrow>
                  (case handle_piece_msg pw msg downloaded backlog' buf of
                     Inl e \<Rightarrow> (Some e, buf, c2)
                   | Inr (downloaded', backlog'', buf') \<Rightarrow>
                       piece_loop pw downloaded' requested' backlog'' buf' c2)))
      else (None, buf, c))"
  by pat_completeness auto
termination
  by (relation "measure (\<lambda>(pw, downloaded, requested, backlog, buf, c). length (rx c))")
    (auto dest!: send_requests_rx [OF sym] RecvMessage_length)

declare piece_loop.simps [simp del]

text \<open>
  The buffer: the pooled one where it is large enough (cut to the length, which panics for a
  negative one), a new one otherwise. The first component is its backing array.
\<close>

definition piece_buffer :: "bytes option \<Rightarrow> int \<Rightarrow> error + bytes" where
  "piece_buffer pooled len =
     (case pooled of
        Some p \<Rightarrow> if int (length p) \<ge> len then (if len < 0 then Inl Panic else Inr p) else make_bytes len
      | None \<Rightarrow> make_bytes len)"

definition DownloadPiece ::
  "pieceWork \<Rightarrow> bytes option \<Rightarrow> conn \<Rightarrow> error + pieceResult \<times> bytes option \<times> conn" where
  "DownloadPiece pw pooled c =
     (case piece_buffer pooled (pw_Length pw) of Inl e \<Rightarrow> Inl e
      | Inr arr \<Rightarrow>
          (let n = nat (pw_Length pw)
           in case piece_loop pw 0 0 0 (take n arr) c of
                (Some e, buf, c') \<Rightarrow>
                  Inr (\<lparr>pr_Index = pw_Index pw, pr_Data = [], pr_Err = Some e\<rparr>,
                       Some (buf @ drop n arr), c')
              | (None, buf, c') \<Rightarrow>
                  if sha1 buf \<noteq> pw_Hash pw
                  then Inr (\<lparr>pr_Index = pw_Index pw, pr_Data = [], pr_Err = Some ErrPieceHash\<rparr>,
                            Some (buf @ drop n arr), c')
                  else Inr (\<lparr>pr_Index = pw_Index pw, pr_Data = buf, pr_Err = None\<rparr>, None, c')))"

definition VerifyPiece :: "bytes \<Rightarrow> bytes \<Rightarrow> bool" where
  "VerifyPiece data expected = (sha1 data = expected)"

section \<open>Facts about the requests\<close>

text \<open>The \<open>k\<close>-th request of a piece, as it goes over the wire.\<close>

definition request :: "pieceWork \<Rightarrow> nat \<Rightarrow> bytes" where
  "request pw k = WriteMessage (Some (NewRequest (word_of_int (pw_Index pw))
     (word_of_int (int k * BlockSize))
     (word_of_int (min BlockSize (pw_Length pw - int k * BlockSize)))))"

lemma BlockSize_pos [simp]: "0 < BlockSize"
  by (simp add: BlockSize_def)

lemma send_requests_step:
  assumes "requested = min (int k * BlockSize) (pw_Length pw)"
  shows "send_requests pw requested backlog c =
     (if backlog < 16 \<and> requested < pw_Length pw then
        (case flush_bytes (request pw k) c of
           Inl e \<Rightarrow> (Some e, requested, backlog, c)
         | Inr c' \<Rightarrow> send_requests pw (min (int (Suc k) * BlockSize) (pw_Length pw)) (backlog + 1) c')
      else (None, requested, backlog, c))"
proof (cases "backlog < 16 \<and> requested < pw_Length pw")
  case True
  then have r: "requested = int k * BlockSize" using assms by linarith
  let ?bs = "if pw_Length pw - requested < BlockSize then pw_Length pw - requested else BlockSize"
  have bs: "(if pw_Length pw - int k * BlockSize < BlockSize then pw_Length pw - int k * BlockSize
      else BlockSize) = min BlockSize (pw_Length pw - int k * BlockSize)" by (simp add: min_def)
  have next_r: "requested + ?bs = min (int (Suc k) * BlockSize) (pw_Length pw)"
    using r by (simp add: distrib_right)
  show ?thesis
    using True
    by (subst send_requests.simps)
      (simp only: Let_def if_True simp_thms SendMessage_def next_r, simp only: r bs request_def)
next
  case False
  then show ?thesis by (subst send_requests.simps) auto
qed

text \<open>The connection after \<open>n\<close> more requests, from the \<open>k\<close>-th on.\<close>

definition sent :: "pieceWork \<Rightarrow> nat \<Rightarrow> nat \<Rightarrow> conn \<Rightarrow> conn" where
  "sent pw k n c = c\<lparr>tx := tx c @ concat (map (request pw) [k..<k + n]), sends_ok := sends_ok c - n\<rparr>"

lemma sent_sel [simp]:
  "rx (sent pw k n c) = rx c" "sends_ok (sent pw k n c) = sends_ok c - n"
  by (simp_all add: sent_def)

lemma sent_0 [simp]: "sent pw k 0 c = c"
  by (simp add: sent_def)

lemma sent_append: "sent pw (k + n) m ((sent pw k n c)\<lparr>rx := r\<rparr>) = (sent pw k (n + m) c)\<lparr>rx := r\<rparr>"
  by (cases c) (simp add: sent_def upt_add_eq_append [of k "k + n" m] add.assoc [symmetric])

lemma sent_rx [simp]: "(sent pw k n c)\<lparr>rx := rx c\<rparr> = sent pw k n c"
  by (cases c) (simp add: sent_def)

lemma send_requests_spec:
  assumes "requested = min (int k * BlockSize) (pw_Length pw)" and "backlog \<le> 16"
    and "send_requests pw requested backlog c = (e, requested', backlog', c')"
  shows "\<exists>n. c' = sent pw k n c \<and>
    n \<le> sends_ok c \<and> requested' = min (int (k + n) * BlockSize) (pw_Length pw) \<and>
    backlog' = backlog + int n \<and> backlog' \<le> 16 \<and>
    (e \<noteq> None \<longrightarrow> sends_ok c = n \<and> requested' < pw_Length pw \<and> e \<noteq> Some Panic \<and> e \<noteq> Some ErrChoked)"
  using assms
proof (induction "nat (16 - backlog)" arbitrary: k requested backlog c)
  case 0
  then have "\<not> (backlog < 16 \<and> requested < pw_Length pw)" by simp
  then have "send_requests pw requested backlog c = (None, requested, backlog, c)"
    by (subst send_requests.simps) auto
  with 0 show ?case by (intro exI [of _ 0]) simp
next
  case (Suc j)
  show ?case
  proof (cases "backlog < 16 \<and> requested < pw_Length pw")
    case False
    then have "send_requests pw requested backlog c = (None, requested, backlog, c)"
      by (subst send_requests.simps) auto
    with Suc.prems show ?thesis by (intro exI [of _ 0]) simp
  next
    case True
    show ?thesis
    proof (cases "sends_ok c")
      case 0
      then have "e = Some ErrOther \<and> requested' = requested \<and> backlog' = backlog \<and> c' = c"
        using Suc.prems True by (simp add: send_requests_step flush_bytes_def)
      with 0 True Suc.prems show ?thesis by (intro exI [of _ 0]) simp
    next
      case (Suc m)
      let ?c1 = "c\<lparr>tx := tx c @ request pw k, sends_ok := m\<rparr>"
      have rest: "send_requests pw (min (int (Suc k) * BlockSize) (pw_Length pw)) (backlog + 1) ?c1 =
          (e, requested', backlog', c')"
        using Suc Suc.prems True by (simp add: send_requests_step flush_bytes_def)
      have j: "j = nat (16 - (backlog + 1))" "backlog + 1 \<le> 16" using Suc.hyps(2) True by linarith+
      obtain n where n: "c' = sent pw (Suc k) n ?c1" "n \<le> sends_ok ?c1"
        "requested' = min (int (Suc k + n) * BlockSize) (pw_Length pw)"
        "backlog' = backlog + 1 + int n" "backlog' \<le> 16"
        "e \<noteq> None \<longrightarrow> sends_ok ?c1 = n \<and> requested' < pw_Length pw \<and> e \<noteq> Some Panic \<and> e \<noteq> Some ErrChoked"
        using Suc.hyps(1) [OF j(1) refl j(2) rest] by blast
      have "?c1 = sent pw k 1 c" using Suc by (simp add: sent_def)
      then have "c' = sent pw k (Suc n) c" "k + Suc n = Suc k + n"
        using n(1) sent_append [where n = 1 and m = n and r = "rx c" and c = c] by simp_all
      with n Suc show ?thesis by (intro exI [of _ "Suc n"]) auto
    qed
  qed
qed

section \<open>Facts about the loop\<close>

lemma RecvMessage_Some_length:
  assumes "RecvMessage c = Inr (Some m, c')"
  shows "length (rx c') + 5 + length (Payload m) = length (rx c)"
  using assms
proof -
  obtain r' where r: "ReadMessage (rx c) = Inr (Some m, r')" "c' = c\<lparr>rx := r'\<rparr>"
    using assms by (auto simp: RecvMessage_def split: sum.splits)
  let ?n = "unat (get_u32 (take 4 (rx c)))"
  have "4 \<le> length (rx c)" "?n \<le> length (rx c) - 4" "?n \<noteq> 0"
    "Payload m = tl (take ?n (drop 4 (rx c)))" "r' = drop ?n (drop 4 (rx c))"
    using r(1) by (auto simp: ReadMessage_def ReadFull_def Let_def unat_eq_zero split: if_splits)
  then show ?thesis using r(2) by (simp add: min_absorb2)
qed

lemma handle_piece_msg_spec:
  assumes "RecvMessage c = Inr (msg, c')"
    and "handle_piece_msg pw msg dl bl buf = Inr (dl', bl', buf')"
  shows "length buf' = length buf \<and> (bl' = bl \<or> bl' = bl - 1 \<and> length (rx c') + 13 \<le> length (rx c))"
  using assms RecvMessage_Some_length [of c _ c']
  by (fastforce simp: handle_piece_msg_def ParsePiece_def split: option.splits if_splits sum.splits)

lemma piece_loop_cases:
  assumes "piece_loop pw dl requested backlog buf c = (e, buf', c')"
  obtains (finished) "pw_Length pw \<le> dl" "e = None" "buf' = buf" "c' = c"
  | (send) er r1 b1 where "dl < pw_Length pw"
      "send_requests pw requested backlog c = (Some er, r1, b1, c')" "e = Some er" "buf' = buf"
  | (recv) er r1 b1 where "dl < pw_Length pw"
      "send_requests pw requested backlog c = (None, r1, b1, c')" "RecvMessage c' = Inl er"
      "e = Some er" "buf' = buf"
  | (stop) er r1 b1 c1 msg where "dl < pw_Length pw"
      "send_requests pw requested backlog c = (None, r1, b1, c1)" "RecvMessage c1 = Inr (msg, c')"
      "handle_piece_msg pw msg dl b1 buf = Inl er" "e = Some er" "buf' = buf"
  | (go) r1 b1 c1 msg c2 dl2 b2 buf2 where "dl < pw_Length pw"
      "send_requests pw requested backlog c = (None, r1, b1, c1)" "RecvMessage c1 = Inr (msg, c2)"
      "handle_piece_msg pw msg dl b1 buf = Inr (dl2, b2, buf2)"
      "piece_loop pw dl2 r1 b2 buf2 c2 = (e, buf', c')"
proof (cases "dl < pw_Length pw")
  case False
  with assms show thesis by (subst (asm) piece_loop.simps) (auto intro: finished)
next
  case True
  from assms True show thesis
    by (subst (asm) piece_loop.simps)
      (auto split: prod.splits option.splits sum.splits intro: send recv stop go)
qed

lemma RecvMessage_no_panic: "RecvMessage c \<noteq> Inl Panic"
  by (auto simp: RecvMessage_def ReadMessage_def ReadFull_def Let_def split: if_splits option.splits sum.splits)

lemma handle_piece_msg_no_panic: "handle_piece_msg pw msg dl bl buf \<noteq> Inl Panic"
  by (auto simp: handle_piece_msg_def ParsePiece_def split: option.splits if_splits)

text \<open>The flow of bytes: only requests are sent, in order, and never more than 16 ahead of
  the blocks received.\<close>

definition piece_flow :: "pieceWork \<Rightarrow> nat \<Rightarrow> int \<Rightarrow> conn \<Rightarrow> conn \<Rightarrow> bool" where
  "piece_flow pw k backlog c c' \<longleftrightarrow> length (rx c') \<le> length (rx c) \<and>
     (\<exists>n. c' = (sent pw k n c)\<lparr>rx := rx c'\<rparr> \<and> n \<le> sends_ok c \<and>
       13 * (backlog + int n) \<le> 13 * 16 + int (length (rx c)) - int (length (rx c')))"

lemma piece_flow_sent:
  assumes "c1 = sent pw k n c" and "n \<le> sends_ok c" and "backlog + int n \<le> 16"
    and "c' = c1\<lparr>rx := rx c'\<rparr>" and "length (rx c') \<le> length (rx c1)"
  shows "piece_flow pw k backlog c c'"
  using assms by (auto simp: piece_flow_def intro!: exI [of _ n])

lemma piece_flow_trans:
  assumes "c1 = sent pw k n c" and "n \<le> sends_ok c"
    and "c2 = c1\<lparr>rx := rx c2\<rparr>" and "length (rx c2) \<le> length (rx c1)"
    and "b2 = backlog + int n \<or> b2 = backlog + int n - 1 \<and> length (rx c2) + 13 \<le> length (rx c1)"
    and "piece_flow pw (k + n) b2 c2 c'"
  shows "piece_flow pw k backlog c c'"
proof -
  obtain m where m: "length (rx c') \<le> length (rx c2)" "c' = (sent pw (k + n) m c2)\<lparr>rx := rx c'\<rparr>"
    "m \<le> sends_ok c2" "13 * (b2 + int m) \<le> 13 * 16 + int (length (rx c2)) - int (length (rx c'))"
    using assms(6) by (auto simp: piece_flow_def)
  have c2: "c2 = (sent pw k n c)\<lparr>rx := rx c2\<rparr>" using assms(1,3) by simp
  then have "c' = (sent pw k (n + m) c)\<lparr>rx := rx c'\<rparr>"
    using m(2) sent_append [of pw k n m "rx c2" c] by (metis conn.surjective conn.update_convs(1))
  moreover have "sends_ok c2 = sends_ok c - n" "rx c1 = rx c"
    using c2 assms(1) by (metis conn.select_convs(3) conn.surjective conn.update_convs(1) sent_sel(2), simp)
  ultimately show ?thesis using m assms(2,4,5) by (auto simp: piece_flow_def intro!: exI [of _ "n + m"])
qed

lemma piece_loop_spec:
  assumes "requested = min (int k * BlockSize) (pw_Length pw)" and "backlog \<le> 16"
    and "piece_loop pw dl requested backlog buf c = (e, buf', c')"
  shows "length buf' = length buf \<and> e \<noteq> Some Panic \<and> piece_flow pw k backlog c c'"
  using assms
proof (induction pw dl requested backlog buf c arbitrary: k rule: piece_loop.induct)
  case (1 pw dl requested backlog buf c)
  note ss = send_requests_spec [OF "1.prems"(1,2)]
  from "1.prems"(3) show ?case
  proof (cases rule: piece_loop_cases)
    case finished
    with "1.prems"(2) show ?thesis by (simp add: piece_flow_sent [where n = 0])
  next
    case (send er r1 b1)
    from ss [OF send(2)] send show ?thesis by (auto intro: piece_flow_sent)
  next
    case (recv er r1 b1)
    from ss [OF recv(2)] recv RecvMessage_no_panic show ?thesis by (auto intro: piece_flow_sent)
  next
    case (stop er r1 b1 c1 msg)
    have "piece_flow pw k backlog c c'"
      using ss [OF stop(2)] RecvMessage_frame [OF stop(3)] RecvMessage_length [OF stop(3)]
      by (auto intro: piece_flow_sent)
    with stop handle_piece_msg_no_panic show ?thesis by auto
  next
    case (go r1 b1 c1 msg c2 dl2 b2 buf2)
    obtain n where n: "c1 = sent pw k n c" "n \<le> sends_ok c" "b1 = backlog + int n" "b1 \<le> 16"
      "r1 = min (int (k + n) * BlockSize) (pw_Length pw)"
      using ss [OF go(2)] by auto
    note hs = handle_piece_msg_spec [OF go(3,4)]
    then have le: "b2 \<le> 16" using n(4) by auto
    have "length buf' = length buf2 \<and> e \<noteq> Some Panic \<and> piece_flow pw (k + n) b2 c2 c'"
      using "1.IH" [OF go(1) go(2) [symmetric] refl refl refl go(3) refl go(4) refl refl
          n(5) le go(5)] .
    moreover from this have "piece_flow pw k backlog c c'"
      using hs n RecvMessage_frame [OF go(3)] RecvMessage_length [OF go(3)]
      by (intro piece_flow_trans [OF n(1,2), of c2 b2]) auto
    ultimately show ?thesis using hs by simp
  qed
qed

lemma piece_buffer_length:
  "piece_buffer pooled len = Inr arr \<Longrightarrow> 0 \<le> len \<and> nat len \<le> length arr"
  by (auto simp: piece_buffer_def make_bytes_iff split: option.splits if_splits)

lemma DownloadPiece_loop:
  assumes "DownloadPiece pw pooled c = Inr (r, pool, c')"
  obtains arr e buf where "piece_buffer pooled (pw_Length pw) = Inr arr"
    and "piece_loop pw 0 0 0 (take (nat (pw_Length pw)) arr) c = (e, buf, c')"
    and "pr_Err r = (if e = None \<and> sha1 buf \<noteq> pw_Hash pw then Some ErrPieceHash else e)"
    and "pr_Index r = pw_Index pw" and "pr_Data r = (if pr_Err r = None then buf else [])"
    and "pool = (if pr_Err r = None then None else Some (buf @ drop (nat (pw_Length pw)) arr))"
  using assms
  by (auto simp: DownloadPiece_def Let_def split: sum.splits prod.splits option.splits if_splits)

text \<open>What the callers use: the index of the result, and on success the checked data.\<close>

lemma DownloadPiece_ok:
  assumes "DownloadPiece pw pooled c = Inr (r, pool, c')"
  shows "pr_Index r = pw_Index pw \<and>
    (pr_Err r = None \<longrightarrow> VerifyPiece (pr_Data r) (pw_Hash pw) \<and> int (length (pr_Data r)) = pw_Length pw)"
proof (rule DownloadPiece_loop [OF assms])
  fix arr e buf
  assume arr: "piece_buffer pooled (pw_Length pw) = Inr arr"
    and loop: "piece_loop pw 0 0 0 (take (nat (pw_Length pw)) arr) c = (e, buf, c')"
    and r: "pr_Err r = (if e = None \<and> sha1 buf \<noteq> pw_Hash pw then Some ErrPieceHash else e)"
      "pr_Index r = pw_Index pw" "pr_Data r = (if pr_Err r = None then buf else [])"
  note len = piece_buffer_length [OF arr]
  have "0 = min (int 0 * BlockSize) (pw_Length pw)" using len by simp
  from piece_loop_spec [OF this _ loop] have "length buf = nat (pw_Length pw)" using len by simp
  then show ?thesis using r len by (auto simp: VerifyPiece_def split: if_splits)
qed

section \<open>Properties\<close>

text \<open>C36. A piece is reported as downloaded only with data of the right length and the right
  SHA-1 hash, whatever the peer sends and whatever old bytes the pooled buffer holds; the buffer
  of the data is then not in the pool, and on a failure no data is reported. Only requests
  for blocks of this piece are sent, in order and each once, and never more than 16 requests
  ahead of the blocks received (a block takes at least 13 bytes).\<close>

theorem DownloadPiece_verified:
  assumes "DownloadPiece pw pooled c = Inr (r, pool, c')"
  shows "pr_Index r = pw_Index pw \<and>
    (pr_Err r = None \<longrightarrow> VerifyPiece (pr_Data r) (pw_Hash pw) \<and>
       int (length (pr_Data r)) = pw_Length pw \<and> pool = None) \<and>
    (pr_Err r \<noteq> None \<longrightarrow> pr_Data r = [] \<and> (\<exists>arr. pool = Some arr \<and> pw_Length pw \<le> int (length arr))) \<and>
    (\<exists>n. tx c' = tx c @ concat (map (request pw) [0..<n]) \<and>
       13 * n \<le> 13 * 16 + (length (rx c) - length (rx c')))"
proof (rule DownloadPiece_loop [OF assms])
  fix arr e buf
  assume arr: "piece_buffer pooled (pw_Length pw) = Inr arr"
    and loop: "piece_loop pw 0 0 0 (take (nat (pw_Length pw)) arr) c = (e, buf, c')"
    and r: "pr_Err r = (if e = None \<and> sha1 buf \<noteq> pw_Hash pw then Some ErrPieceHash else e)"
      "pr_Index r = pw_Index pw" "pr_Data r = (if pr_Err r = None then buf else [])"
      "pool = (if pr_Err r = None then None else Some (buf @ drop (nat (pw_Length pw)) arr))"
  note len = piece_buffer_length [OF arr]
  have k: "0 = min (int 0 * BlockSize) (pw_Length pw)" using len by simp
  note s = piece_loop_spec [OF k _ loop]
  then obtain n where n: "c' = (sent pw 0 n c)\<lparr>rx := rx c'\<rparr>" "length (rx c') \<le> length (rx c)"
    "13 * int n \<le> 13 * 16 + int (length (rx c)) - int (length (rx c'))"
    by (auto simp: piece_flow_def)
  have "tx c' = tx (sent pw 0 n c)"
    using n(1) by (metis conn.select_convs(2) conn.surjective conn.update_convs(1))
  then have "tx c' = tx c @ concat (map (request pw) [0..<n])" by (simp add: sent_def)
  moreover have "13 * n \<le> 13 * 16 + (length (rx c) - length (rx c'))" using n(2,3) by linarith
  moreover have "length buf = nat (pw_Length pw)" using s len by simp
  ultimately show ?thesis using r len by (auto simp: VerifyPiece_def split: if_splits)
qed

definition sample_conn :: conn where
  "sample_conn = \<lparr>rx = [], tx = [], sends_ok = 5, InfoHash = [], PeerID = [],
     SupportsExtension = False, ExtensionIDs = [], MetadataSize = 0, ourExtIDs = []\<rparr>"

theorem DownloadPiece_verified_witness:
  "(case DownloadPiece (sample_work 3) (Some [9, 9]) sample_conn of
     Inl e \<Rightarrow> False | Inr (r, pool, c') \<Rightarrow> pr_Err r = Some Peer_ErrUnexpectedEOF \<and> pr_Data r = [] \<and>
       tx c' = request (sample_work 3) 0)"
proof -
  have d: "DownloadPiece (sample_work 3) (Some [9, 9]) sample_conn =
      Inr (\<lparr>pr_Index = 3, pr_Data = [], pr_Err = Some Peer_ErrUnexpectedEOF\<rparr>, Some [9, 9],
        sample_conn\<lparr>tx := request (sample_work 3) 0, sends_ok := 4\<rparr>)"
    by code_simp
  with DownloadPiece_verified [OF d] show ?thesis by simp
qed

text \<open>A download of a piece panics exactly when its length is negative, or is beyond what
  can be allocated with no pooled buffer large enough; every other outcome is a result, whatever
  the connection does.\<close>

theorem DownloadPiece_panics:
  "(\<exists>e. DownloadPiece pw pooled c = Inl e) =
    (pw_Length pw < 0 \<or> max_alloc < pw_Length pw \<and>
       (case pooled of None \<Rightarrow> True | Some p \<Rightarrow> int (length p) < pw_Length pw))"
proof -
  have "(\<exists>e. DownloadPiece pw pooled c = Inl e) = (\<exists>e. piece_buffer pooled (pw_Length pw) = Inl e)"
    by (auto simp: DownloadPiece_def Let_def split: sum.splits prod.splits option.splits)
  also have "\<dots> = (pw_Length pw < 0 \<or> max_alloc < pw_Length pw \<and>
       (case pooled of None \<Rightarrow> True | Some p \<Rightarrow> int (length p) < pw_Length pw))"
    by (auto simp: piece_buffer_def make_bytes_def max_alloc_def split: option.splits)
  finally show ?thesis .
qed

section \<open>An honest peer\<close>

text \<open>What the loop takes from a message: the block, where it belongs to the piece.\<close>

definition block_of :: "pieceWork \<Rightarrow> message option \<Rightarrow> (nat \<times> bytes) option" where
  "block_of pw msg =
     (case msg of None \<Rightarrow> None
      | Some m \<Rightarrow>
          if ID m = MsgPiece then
            (case ParsePiece (Payload m) of Inl e \<Rightarrow> None
             | Inr (idx, begin, block) \<Rightarrow>
                 if uint idx = pw_Index pw \<and> uint begin + int (length block) \<le> pw_Length pw
                 then Some (unat begin, block) else None)
          else None)"

text \<open>A message that does not end the download: no choke, and no piece message too short.\<close>

definition harmless :: "message option \<Rightarrow> bool" where
  "harmless msg = (case msg of None \<Rightarrow> True
     | Some m \<Rightarrow> ID m \<noteq> MsgChoke \<and> (ID m = MsgPiece \<longrightarrow> 8 \<le> length (Payload m)))"

fun blocks :: "pieceWork \<Rightarrow> message option list \<Rightarrow> (nat \<times> bytes) list" where
  "blocks pw [] = []"
| "blocks pw (m # ms) = (case block_of pw m of None \<Rightarrow> blocks pw ms | Some b \<Rightarrow> b # blocks pw ms)"

definition block_bytes :: "(nat \<times> bytes) list \<Rightarrow> int" where
  "block_bytes bs = (\<Sum>(b, d)\<leftarrow>bs. int (length d))"

definition assemble :: "bytes \<Rightarrow> (nat \<times> bytes) list \<Rightarrow> bytes" where
  "assemble buf bs = foldl (\<lambda>buf (b, d). copy_at b buf d) buf bs"

lemma handle_harmless:
  assumes "harmless msg" and "int (length buf) = pw_Length pw"
  shows "handle_piece_msg pw msg dl bl buf =
    Inr (case block_of pw msg of None \<Rightarrow> (dl, bl, buf)
         | Some (b, d) \<Rightarrow> (dl + int (length d), bl - 1, copy_at b buf d))"
  using assms
  by (auto simp: handle_piece_msg_def block_of_def harmless_def ParsePiece_def not_le
      split: option.splits)

lemma assemble_Cons: "assemble buf ((b, d) # bs) = assemble (copy_at b buf d) bs"
  by (simp add: assemble_def)

lemma block_bytes_Cons: "block_bytes ((b, d) # bs) = int (length d) + block_bytes bs"
  by (simp add: block_bytes_def)

lemma block_bytes_nonneg: "0 \<le> block_bytes bs"
  by (auto simp: block_bytes_def intro!: sum_list_nonneg)

lemma piece_loop_run:
  assumes "list_all msg_fits ms" and "list_all harmless ms"
    and "rx c = concat (map WriteMessage ms) @ rest"
    and "requested = min (int k * BlockSize) (pw_Length pw)" and "backlog \<le> 16"
    and "pw_Length pw \<le> int (k + sends_ok c) * BlockSize"
    and "int (length buf) = pw_Length pw"
    and "pw_Length pw \<le> dl + block_bytes (blocks pw ms)"
    and "ms \<noteq> [] \<Longrightarrow> dl + block_bytes (blocks pw (butlast ms)) < pw_Length pw"
  shows "\<exists>c'. piece_loop pw dl requested backlog buf c = (None, assemble buf (blocks pw ms), c') \<and> rx c' = rest"
  using assms
proof (induction ms arbitrary: dl requested backlog buf c k)
  case Nil
  then have "\<not> dl < pw_Length pw" by (simp add: block_bytes_def)
  then have "piece_loop pw dl requested backlog buf c = (None, buf, c)" by (subst piece_loop.simps) simp
  with Nil show ?case by (simp add: assemble_def)
next
  case (Cons m ms)
  have dl: "dl < pw_Length pw"
    using Cons.prems(9) block_bytes_nonneg [of "blocks pw (butlast (m # ms))"] by simp
  obtain se r1 b1 c1 where s: "send_requests pw requested backlog c = (se, r1, b1, c1)"
    by (metis prod.exhaust)
  obtain n where n: "c1 = sent pw k n c" "n \<le> sends_ok c" "r1 = min (int (k + n) * BlockSize) (pw_Length pw)"
    "b1 \<le> 16" "se \<noteq> None \<longrightarrow> sends_ok c = n \<and> r1 < pw_Length pw"
    using send_requests_spec [OF Cons.prems(4,5) s] by auto
  have "se = None"
  proof (rule ccontr)
    assume "se \<noteq> None"
    with n(3,5) have "int (k + sends_ok c) * BlockSize < pw_Length pw" by auto
    with Cons.prems(6) show False by simp
  qed
  moreover have rv: "RecvMessage c1 = Inr (m, c1\<lparr>rx := concat (map WriteMessage ms) @ rest\<rparr>)"
  proof -
    have "c1 = c1\<lparr>rx := WriteMessage m @ concat (map WriteMessage ms) @ rest\<rparr>"
      using n(1) Cons.prems(3) by (metis append_assoc concat.simps(2) list.map(2) sent_rx)
    moreover have "msg_fits m" using Cons.prems(1) by simp
    ultimately show ?thesis using RecvMessage_Write [where m = m and c = c1] by metis
  qed
  ultimately have step: "piece_loop pw dl requested backlog buf c =
      (case handle_piece_msg pw m dl b1 buf of Inl e \<Rightarrow> (Some e, buf, c1\<lparr>rx := concat (map WriteMessage ms) @ rest\<rparr>)
       | Inr (dl', bl', buf') \<Rightarrow> piece_loop pw dl' r1 bl' buf' (c1\<lparr>rx := concat (map WriteMessage ms) @ rest\<rparr>))"
    using dl s by (subst piece_loop.simps) simp
  have ends: "block_bytes (blocks pw (butlast (m # ms))) =
      (case block_of pw m of None \<Rightarrow> 0 | Some (b, d) \<Rightarrow> int (length d)) + block_bytes (blocks pw (butlast ms))"
    if "ms \<noteq> []"
    using that by (auto simp: block_bytes_Cons split: option.splits)
  have sends: "pw_Length pw \<le> int (k + n + sends_ok (c1\<lparr>rx := concat (map WriteMessage ms) @ rest\<rparr>)) * BlockSize"
    using Cons.prems(6) n(1,2) by simp
  obtain dl2 b2 buf2 where h: "handle_piece_msg pw m dl b1 buf = Inr (dl2, b2, buf2)"
    "dl2 = dl + (case block_of pw m of None \<Rightarrow> 0 | Some (b, d) \<Rightarrow> int (length d))" "b2 \<le> 16"
    "int (length buf2) = pw_Length pw" "assemble buf2 (blocks pw ms) = assemble buf (blocks pw (m # ms))"
    "dl2 + block_bytes (blocks pw ms) = dl + block_bytes (blocks pw (m # ms))"
    using handle_harmless [of m buf pw dl b1] Cons.prems(2,7) n(4)
    by (auto simp: assemble_Cons block_bytes_Cons split: option.splits)
  have "\<exists>c'. piece_loop pw dl2 r1 b2 buf2 (c1\<lparr>rx := concat (map WriteMessage ms) @ rest\<rparr>) =
      (None, assemble buf2 (blocks pw ms), c') \<and> rx c' = rest"
    using Cons.prems(1,2,8,9) h ends by (intro Cons.IH [OF _ _ _ n(3) h(3) sends h(4)]) auto
  then show ?case using step h by simp
qed

lemma blocks_in_range:
  "(b, d) \<in> set (blocks pw ms) \<Longrightarrow> int (b + length d) \<le> pw_Length pw"
proof (induction ms)
  case (Cons m ms)
  have "block_of pw m = Some (b, d) \<Longrightarrow> int (b + length d) \<le> pw_Length pw"
    by (auto simp: block_of_def split: option.splits if_splits sum.splits prod.splits)
  with Cons show ?case by (auto split: option.splits)
qed simp

lemma nth_assemble:
  assumes "\<forall>(b, d)\<in>set bs. b + length d \<le> length whole \<and> d = take (length d) (drop b whole)"
    and "length buf = length whole" and "i < length whole"
  shows "length (assemble buf bs) = length whole \<and> assemble buf bs ! i =
    (if \<exists>(b, d)\<in>set bs. b \<le> i \<and> i < b + length d then whole ! i else buf ! i)"
  using assms
proof (induction bs arbitrary: buf)
  case Nil
  then show ?case by (simp add: assemble_def)
next
  case (Cons x bs)
  obtain b d where x: "x = (b, d)" by (cases x)
  have bd: "b + length d \<le> length whole" "d = take (length d) (drop b whole)" using Cons.prems(1) x by auto
  have "d ! (i - b) = whole ! i" if "b \<le> i" "i < b + length d"
    by (subst bd(2)) (use that bd(1) in simp)
  then have "copy_at b buf d ! i = (if b \<le> i \<and> i < b + length d then whole ! i else buf ! i)"
    using Cons.prems bd(1) by (simp add: nth_copy_at)
  with Cons.IH [of "copy_at b buf d"] Cons.prems show ?case by (auto simp: x assemble_Cons)
qed

lemma honest_peer_run:
  assumes "0 < pw_Length pw" and "pw_Length pw \<le> max_alloc"
    and "int (length whole) = pw_Length pw" and "sha1 whole = pw_Hash pw"
    and "list_all msg_fits ms" and "list_all harmless ms"
    and "rx c = concat (map WriteMessage ms) @ rest"
    and "pw_Length pw \<le> int (sends_ok c) * BlockSize"
    and "\<forall>(b, d)\<in>set (blocks pw ms). d = take (length d) (drop b whole)"
    and "\<forall>i<length whole. \<exists>(b, d)\<in>set (blocks pw ms). b \<le> i \<and> i < b + length d"
    and "block_bytes (blocks pw ms) = pw_Length pw"
    and "block_bytes (blocks pw (butlast ms)) < pw_Length pw"
  shows "\<exists>c'. DownloadPiece pw pooled c =
    Inr (\<lparr>pr_Index = pw_Index pw, pr_Data = whole, pr_Err = None\<rparr>, None, c') \<and> rx c' = rest"
proof -
  have "\<exists>arr. piece_buffer pooled (pw_Length pw) = Inr arr"
    using assms(1,2) by (auto simp: piece_buffer_def make_bytes_def split: option.splits)
  then obtain arr where arr: "piece_buffer pooled (pw_Length pw) = Inr arr" by blast
  let ?buf = "take (nat (pw_Length pw)) arr"
  have len: "int (length ?buf) = pw_Length pw" using piece_buffer_length [OF arr] by simp
  have k: "0 = min (int 0 * BlockSize) (pw_Length pw)" "pw_Length pw \<le> int (0 + sends_ok c) * BlockSize"
    using assms(1,8) by auto
  obtain c' where c': "piece_loop pw 0 0 0 ?buf c = (None, assemble ?buf (blocks pw ms), c')" "rx c' = rest"
    using piece_loop_run [OF assms(5,6,7) k(1) _ k(2) len, of 0 0] assms(11,12) by auto
  have lb: "length ?buf = length whole" "0 < length whole" using len assms(1,3) by linarith+
  have sl: "\<forall>(b, d)\<in>set (blocks pw ms). b + length d \<le> length whole \<and> d = take (length d) (drop b whole)"
    using assms(3,9) blocks_in_range by fastforce
  have "length (assemble ?buf (blocks pw ms)) = length whole \<and>
      assemble ?buf (blocks pw ms) ! i = whole ! i" if i: "i < length whole" for i
  proof -
    have cov: "\<exists>(b, d)\<in>set (blocks pw ms). b \<le> i \<and> i < b + length d" using assms(10) i by blast
    show ?thesis using nth_assemble [OF sl lb(1) i] unfolding if_P [OF cov] .
  qed
  then have "assemble ?buf (blocks pw ms) = whole"
    using lb(2) by (metis nth_equalityI)
  with c' arr assms(4) show ?thesis by (simp add: DownloadPiece_def Let_def)
qed

text \<open>C37. The download succeeds with a peer that sends the piece: when among the messages
  before the stream ends there is no choke, the blocks for this piece hold the right bytes and
  tile it, in any order and between any other messages, and the requests can be sent, then the
  piece is returned, with any pooled buffer, and what follows the last block is left unread.\<close>

theorem honest_peer:
  assumes "0 < pw_Length pw" and "pw_Length pw \<le> max_alloc"
    and "int (length whole) = pw_Length pw" and "sha1 whole = pw_Hash pw"
    and "list_all msg_fits ms" and "list_all harmless ms"
    and "rx c = concat (map WriteMessage ms) @ rest"
    and "pw_Length pw \<le> int (sends_ok c) * BlockSize"
    and "\<forall>(b, d)\<in>set (blocks pw ms). d = take (length d) (drop b whole)"
    and "\<forall>i<length whole. \<exists>(b, d)\<in>set (blocks pw ms). b \<le> i \<and> i < b + length d"
    and "block_bytes (blocks pw ms) = pw_Length pw"
    and "block_bytes (blocks pw (butlast ms)) < pw_Length pw"
  shows "\<exists>c'. DownloadPiece pw pooled c =
    Inr (\<lparr>pr_Index = pw_Index pw, pr_Data = whole, pr_Err = None\<rparr>, None, c') \<and> rx c' = rest"
  by (rule honest_peer_run [OF assms])

definition sample_reply :: "message option list" where
  "sample_reply = [None, Some (NewHave 2), Some \<lparr>ID = MsgPiece, Payload = put_u32 3 @ put_u32 1 @ [2, 3]\<rparr>,
     Some \<lparr>ID = MsgPiece, Payload = put_u32 4 @ put_u32 0 @ [7]\<rparr>,
     Some \<lparr>ID = MsgPiece, Payload = put_u32 3 @ put_u32 0 @ [1]\<rparr>]"

lemma blocks_hash: "blocks (pw\<lparr>pw_Hash := h\<rparr>) ms = blocks pw ms"
  by (induction ms) (auto simp: block_of_def split: option.splits sum.splits)

lemma sample_reply_blocks:
  "blocks ((sample_work 3)\<lparr>pw_Length := 3\<rparr>) sample_reply = [(1, [2, 3]), (0, [1])]"
  "blocks ((sample_work 3)\<lparr>pw_Length := 3\<rparr>) (butlast sample_reply) = [(1, [2, 3])]"
  "list_all harmless sample_reply"
  by code_simp+

lemma sample_reply_fits: "list_all msg_fits sample_reply"
  by (simp add: sample_reply_def msg_fits_def MaxMessageLen_def NewHave_def)

theorem honest_peer_witness:
  "\<exists>c'. DownloadPiece ((sample_work 3)\<lparr>pw_Length := 3, pw_Hash := sha1 [1, 2, 3]\<rparr>) (Some [9, 9, 9, 9])
      (sample_conn\<lparr>rx := concat (map WriteMessage sample_reply) @ [8]\<rparr>) =
    Inr (\<lparr>pr_Index = 3, pr_Data = [1, 2, 3], pr_Err = None\<rparr>, None, c') \<and> rx c' = [8]"
proof -
  define h where "h = sha1 [1, 2, 3]"
  let ?pw = "(sample_work 3)\<lparr>pw_Length := 3, pw_Hash := h\<rparr>"
  let ?c = "sample_conn\<lparr>rx := concat (map WriteMessage sample_reply) @ [8]\<rparr>"
  have bl: "blocks ?pw sample_reply = [(1, [2, 3]), (0, [1])]"
    "blocks ?pw (butlast sample_reply) = [(1, [2, 3])]"
    using blocks_hash [of h "(sample_work 3)\<lparr>pw_Length := 3\<rparr>"] sample_reply_blocks(1,2) by simp_all
  have "\<forall>i<3. \<exists>(b, d)\<in>{(1, [2, 3]), (0, [1 :: byte])}. b \<le> i \<and> i < b + length d"
    by (auto simp: less_Suc_eq numeral_3_eq_3)
  then have "\<exists>c'. DownloadPiece ?pw (Some [9, 9, 9, 9]) ?c =
    Inr (\<lparr>pr_Index = pw_Index ?pw, pr_Data = [1, 2, 3], pr_Err = None\<rparr>, None, c') \<and> rx c' = [8]"
    using bl sample_reply_blocks(3) sample_reply_fits
    by (intro honest_peer [where ms = sample_reply])
      (simp_all add: h_def [symmetric] block_bytes_def max_alloc_def sample_conn_def BlockSize_def)
  then show ?thesis by (simp add: h_def)
qed

end
