(* ===== verification/Netaddr.thy ===== *)
theory Netaddr
  imports Bencode
begin

text \<open>
  \<^verbatim>\<open>netaddr/peer.go\<close> and what it and the parsers of peer lists use of the
  standard library: \<^verbatim>\<open>net.IP.String\<close>, \<^verbatim>\<open>net.IP.To4\<close>,
  \<^verbatim>\<open>net.ParseIP\<close> and \<^verbatim>\<open>net.JoinHostPort\<close>. A nil address is the empty
  byte list.
\<close>

section \<open>Addresses as text\<close>

definition To4 :: "bytes \<Rightarrow> bytes option" where
  "To4 ip =
     (if length ip = 4 then Some ip
      else if length ip = 16 \<and> take 12 ip = replicate 10 0 @ [255, 255] then Some (drop 12 ip)
      else None)"

definition show_ipv4 :: "bytes \<Rightarrow> bytes" where
  "show_ipv4 ip = join_with [46] (map (\<lambda>b. show_nat (unat b)) ip)"

definition hex_digit :: "nat \<Rightarrow> byte" where
  "hex_digit n = (if n < 10 then 48 + of_nat n else 87 + of_nat n)"

fun show_hex :: "nat \<Rightarrow> bytes" where
  "show_hex n = (if n < 16 then [hex_digit n] else show_hex (n div 16) @ [hex_digit (n mod 16)])"

declare show_hex.simps [simp del]

text \<open>The longest run of two or more zero groups, the first one of that length.\<close>

definition zero_run :: "nat list \<Rightarrow> nat \<times> nat" where
  "zero_run gs = foldl
     (\<lambda>(s, e) i. let l = length (takeWhile (\<lambda>g. g = 0) (drop i gs))
                 in if l \<ge> 2 \<and> l > e - s then (i, i + l) else (s, e)) (255, 255) [0..<8]"

definition show_ipv6 :: "bytes \<Rightarrow> bytes" where
  "show_ipv6 ip =
     (let gs = map (\<lambda>c. unat (be_word c :: 16 word)) (chunks 2 ip);
          (s, e) = zero_run gs
      in if s = 255 then join_with [58] (map show_hex gs)
         else join_with [58] (map show_hex (take s gs)) @ [58, 58] @
              join_with [58] (map show_hex (drop e gs)))"

definition IP_String :: "bytes \<Rightarrow> bytes" where
  "IP_String ip =
     (if ip = [] then str ''<nil>''
      else if length ip \<noteq> 4 \<and> length ip \<noteq> 16
      then 63 # concat (map (\<lambda>b. [hex_digit (unat b div 16), hex_digit (unat b mod 16)]) ip)
      else case To4 ip of Some p4 \<Rightarrow> show_ipv4 p4 | None \<Rightarrow> show_ipv6 ip)"

definition JoinHostPort :: "bytes \<Rightarrow> bytes \<Rightarrow> bytes" where
  "JoinHostPort host port =
     (if 58 \<in> set host then [91] @ host @ [93, 58] @ port else host @ [58] @ port)"

section \<open>Peers\<close>

record peer =
  IP :: bytes
  Port :: "16 word"

definition Addr :: "peer \<Rightarrow> bytes" where
  "Addr p = JoinHostPort (IP_String (IP p)) (show_int (uint (Port p)))"

section \<open>Parsing addresses\<close>

definition parse_octet :: "bytes \<Rightarrow> byte option" where
  "parse_octet p =
     (if p = [] \<or> \<not> list_all is_digit p \<or> (hd p = 48 \<and> length p > 1) \<or> digits_val p > 255 then None
      else Some (word_of_int (digits_val p)))"

definition parse_ipv4 :: "bytes \<Rightarrow> bytes option" where
  "parse_ipv4 s =
     (let os = map parse_octet (split_on 46 s)
      in if length os \<noteq> 4 \<or> None \<in> set os then None else Some (map the os))"

definition hex_val :: "byte \<Rightarrow> nat option" where
  "hex_val b =
     (if 48 \<le> b \<and> b \<le> 57 then Some (unat b - 48)
      else if 97 \<le> b \<and> b \<le> 102 then Some (unat b - 87)
      else if 65 \<le> b \<and> b \<le> 70 then Some (unat b - 55)
      else None)"

text \<open>
  The loop over the colon-separated groups: the bytes read so far, where the ellipsis was, the
  rest of the text.
\<close>

function ipv6_groups ::
  "bytes \<Rightarrow> nat option \<Rightarrow> bytes \<Rightarrow> (bytes \<times> nat option \<times> bytes) option" where
  "ipv6_groups acc ell s =
     (if length acc \<ge> 16 then Some (acc, ell, s)
      else
        let digs = takeWhile (\<lambda>b. hex_val b \<noteq> None) s;
            rest = drop (length digs) s;
            g = foldl (\<lambda>n b. 16 * n + the (hex_val b)) 0 digs;
            acc' = acc @ [of_nat (g div 256), of_nat (g mod 256)]
        in if digs = [] \<or> length digs > 4 then None
           else if rest \<noteq> [] \<and> hd rest = 46 then
             (if ell = None \<and> length acc \<noteq> 12 \<or> length acc + 4 > 16 then None
              else map_option (\<lambda>v4. (acc @ v4, ell, [])) (parse_ipv4 s))
           else if rest = [] then Some (acc', ell, [])
           else if hd rest \<noteq> 58 \<or> length rest = 1 then None
           else if hd (tl rest) = 58 then
             (if ell \<noteq> None then None
              else if tl (tl rest) = [] then Some (acc', Some (length acc'), [])
              else ipv6_groups acc' (Some (length acc')) (tl (tl rest)))
           else ipv6_groups acc' ell (tl rest))"
  by pat_completeness auto
termination
  by (relation "measure (\<lambda>(acc, ell, s). 16 - length acc)") auto

definition parse_ipv6 :: "bytes \<Rightarrow> bytes option" where
  "parse_ipv6 s =
     (let (ell, s') = (if take 2 s = [58, 58] then (Some 0, drop 2 s) else (None, s))
      in if ell \<noteq> None \<and> s' = [] then Some (replicate 16 0)
         else case ipv6_groups [] ell s' of None \<Rightarrow> None
           | Some (acc, ell', s'') \<Rightarrow>
               if s'' \<noteq> [] then None
               else if length acc < 16 then
                 (case ell' of None \<Rightarrow> None
                  | Some e \<Rightarrow> Some (take e acc @ replicate (16 - length acc) 0 @ drop e acc))
               else if ell' \<noteq> None then None else Some acc)"

text \<open>An address with a zone is refused; the result is nil where parsing fails.\<close>

definition ParseIP :: "bytes \<Rightarrow> bytes" where
  "ParseIP s =
     (if 37 \<in> set s then []
      else case find (\<lambda>b. b = 46 \<or> b = 58) s of
          None \<Rightarrow> []
        | Some b \<Rightarrow>
            if b = 46 then
              (case parse_ipv4 s of None \<Rightarrow> [] | Some v4 \<Rightarrow> replicate 10 0 @ [255, 255] @ v4)
            else (case parse_ipv6 s of None \<Rightarrow> [] | Some v6 \<Rightarrow> v6))"

section \<open>Facts about IPv4 addresses\<close>

lemma digit_not_sep: "is_digit c \<Longrightarrow> c \<noteq> 46 \<and> c \<noteq> 58 \<and> c \<noteq> 37 \<and> c \<noteq> 91"
  by (auto simp: is_digit_def)

lemma show_nat_seps: "x \<in> set (show_nat n) \<Longrightarrow> x \<noteq> 46 \<and> x \<noteq> 58 \<and> x \<noteq> 37 \<and> x \<noteq> 91"
  using show_nat_digits [of n] digit_not_sep by (auto simp: list_all_iff)

lemma unat_byte: "unat (b :: byte) < 256"
proof -
  have "unat b < 2 ^ LENGTH(8)" by (rule unsigned_less)
  then show ?thesis by simp
qed

lemma parse_octet_show: "parse_octet (show_nat (unat b)) = Some b"
proof -
  have "\<not> (hd (show_nat (unat b)) = 48 \<and> length (show_nat (unat b)) > 1)"
    using hd_show_nat [of "unat b"] show_nat_zero by auto
  moreover have "\<not> digits_val (show_nat (unat b)) > 255"
    using unat_byte [of b] by (simp add: digits_val_show_nat del: of_nat_unat)
  ultimately show ?thesis
    by (simp add: parse_octet_def show_nat_nonempty show_nat_digits digits_val_show_nat)
qed

lemma split_show_ipv4: "ip \<noteq> [] \<Longrightarrow> split_on 46 (show_ipv4 ip) = map (\<lambda>b. show_nat (unat b)) ip"
  unfolding show_ipv4_def by (rule split_join) (auto dest: show_nat_seps)

lemma parse_show_ipv4: "length ip = 4 \<Longrightarrow> parse_ipv4 (show_ipv4 ip) = Some ip"
  by (cases "ip = []") (auto simp: parse_ipv4_def Let_def split_show_ipv4 comp_def parse_octet_show)

lemma set_join_with: "set (join_with sep xs) \<subseteq> set sep \<union> (\<Union>x\<in>set xs. set x)"
  by (induction sep xs rule: join_with.induct) auto

lemma show_ipv4_chars: "x \<in> set (show_ipv4 ip) \<Longrightarrow> x \<noteq> 58 \<and> x \<noteq> 37 \<and> x \<noteq> 91"
  using set_join_with [of "[46]" "map (\<lambda>b. show_nat (unat b)) ip"] show_nat_seps
  by (fastforce simp: show_ipv4_def)

lemma show_ipv4_dot: "length ip = 4 \<Longrightarrow> 46 \<in> set (show_ipv4 ip)"
  by (cases ip rule: list.exhaust; cases "tl ip") (auto simp: show_ipv4_def)

lemma To4_length: "To4 ip = Some a \<Longrightarrow> length a = 4 \<and> length ip \<in> {4, 16} \<and> IP_String ip = show_ipv4 a"
  by (cases "length ip = 4") (simp_all add: To4_def IP_String_def split: if_splits, auto)

lemma ParseIP_show:
  assumes "length ip = 4"
  shows "ParseIP (show_ipv4 ip) = replicate 10 0 @ [255, 255] @ ip"
proof -
  have "\<exists>x. find (\<lambda>b. b = 46 \<or> b = 58) (show_ipv4 ip) = Some x"
    using show_ipv4_dot [OF assms] by (auto simp: find_None_iff simp flip: not_None_eq)
  then obtain x where x: "find (\<lambda>b. b = 46 \<or> b = 58) (show_ipv4 ip) = Some x" by blast
  then have "x = 46 \<or> x = 58" "x \<in> set (show_ipv4 ip)" by (auto simp: find_Some_iff intro: nth_mem)
  then have "x = 46" using show_ipv4_chars by blast
  with x have "find (\<lambda>b. b = 46 \<or> b = 58) (show_ipv4 ip) = Some 46" by simp
  then show ?thesis
    using parse_show_ipv4 [OF assms] show_ipv4_chars by (auto simp: ParseIP_def)
qed

lemma Addr_ipv4:
  "To4 (IP p) = Some a \<Longrightarrow> Addr p = show_ipv4 a @ 58 # show_nat (unat (Port p))"
proof -
  assume a: "To4 (IP p) = Some a"
  have n: "58 \<notin> set (show_ipv4 a)" using show_ipv4_chars by blast
  have "\<not> uint (Port p) < 0" by simp
  then have "show_int (uint (Port p)) = show_nat (unat (Port p))"
    by (simp only: show_int_def if_False nat_uint_eq)
  moreover have "IP_String (IP p) = show_ipv4 a" using To4_length [OF a] by blast
  ultimately show ?thesis using n by (simp only: Addr_def JoinHostPort_def if_False append.simps)
qed

section \<open>Properties\<close>

text \<open>The text of an IPv4 address, in its 4-byte or its 16-byte form, is parsed back to
  the same address.\<close>

lemma IPv4_roundtrip:
  assumes "To4 ip = Some a"
  shows "To4 (ParseIP (IP_String ip)) = Some a"
  using To4_length [OF assms] ParseIP_show [of a] by (auto simp: To4_def)

text \<open>The address text under which peers are deduplicated is faithful: two IPv4 peers have
  the same text exactly when they have the same address and the same port.\<close>

theorem Addr_faithful:
  assumes "To4 (IP p) = Some a" and "To4 (IP q) = Some b"
  shows "Addr p = Addr q \<longleftrightarrow> a = b \<and> Port p = Port q"
proof
  assume "Addr p = Addr q"
  then have eq: "show_ipv4 a @ 58 # show_nat (unat (Port p)) = show_ipv4 b @ 58 # show_nat (unat (Port q))"
    using assms by (simp add: Addr_ipv4)
  have tw: "takeWhile (\<lambda>x. x \<noteq> 58) (show_ipv4 c @ 58 # r) = show_ipv4 c" for c r
    using show_ipv4_chars [of _ c] by (simp add: takeWhile_append2)
  have "show_ipv4 a = show_ipv4 b" using tw eq by metis
  moreover from this have "show_nat (unat (Port p)) = show_nat (unat (Port q))" using eq by simp
  then have "unat (Port p) = unat (Port q)" by (metis digits_val_show_nat of_nat_eq_iff)
  ultimately show "a = b \<and> Port p = Port q"
    using assms parse_show_ipv4 To4_length by (metis option.inject word_unat_eq_iff)
qed (use assms in \<open>simp add: Addr_ipv4\<close>)

theorem Addr_faithful_witness:
  "Addr \<lparr>IP = [10, 0, 0, 1], Port = 80\<rparr> \<noteq> Addr \<lparr>IP = [10, 0, 0, 1], Port = 81\<rparr>"
  using Addr_faithful [of "\<lparr>IP = [10, 0, 0, 1], Port = 80\<rparr>" "[10, 0, 0, 1]"
    "\<lparr>IP = [10, 0, 0, 1], Port = 81\<rparr>" "[10, 0, 0, 1]"]
  by (simp add: To4_def)

end
