(* ===== verification/Metadata.thy ===== *)
theory Metadata
  imports Piece Metainfo Netaddr
begin

text \<open>
  \<^verbatim>\<open>torrent/metadata.go\<close>: fetching the info dictionary from peers in pieces
  (the extension protocol of BEP 9), and merging peer lists. The deadlines are part of what
  the connection delivers; the peers asked at once are the list of their results in the order
  of arrival.
\<close>

section \<open>One peer\<close>

definition metadataPieceSize :: int where
  "metadataPieceSize = 16384"

text \<open>The loop that waits for the extension handshake.\<close>

function wait_ext :: "conn \<Rightarrow> error + conn" where
  "wait_ext c =
     (case RecvMessage c of Inl e \<Rightarrow> Inl e
      | Inr (None, c') \<Rightarrow> wait_ext c'
      | Inr (Some m, c') \<Rightarrow>
          if ID m = MsgExtended \<and> length (Payload m) > 0 \<and> Payload m ! 0 = 0
          then HandleExtensionHandshake (drop 1 (Payload m)) c'
          else wait_ext c')"
  by pat_completeness auto
termination by (relation "measure (\<lambda>c. length (rx c))") (auto dest: RecvMessage_length)

declare wait_ext.simps [simp del]

text \<open>The loop that requests the pieces \<open>i\<close>, \<open>i + 1\<close> and so on.\<close>

fun request_all :: "int list \<Rightarrow> conn \<Rightarrow> error option \<times> conn" where
  "request_all [] c = (None, c)"
| "request_all (i # is) c =
     (case RequestMetadataPiece i c of Inl e \<Rightarrow> (Some e, c) | Inr c' \<Rightarrow> request_all is c')"

text \<open>One response: which pieces have been received, and the metadata, after it.\<close>

definition handle_metadata_msg ::
  "message option \<Rightarrow> bool list \<Rightarrow> bytes \<Rightarrow> (bool list \<times> bytes) option" where
  "handle_metadata_msg msg received metadata =
     (case msg of None \<Rightarrow> None
      | Some m \<Rightarrow>
          if ID m \<noteq> MsgExtended \<or> length (Payload m) < 2 \<or> uint (Payload m ! 0) \<noteq> 1 then None
          else case ParseMetadataPiece (drop 1 (Payload m)) of Inl e \<Rightarrow> None
            | Inr (piece, data) \<Rightarrow>
                if piece < 0 \<or> piece \<ge> int (length received) \<or> received ! nat piece then None
                else Some (received[nat piece := True],
                           copy_at (nat (piece * metadataPieceSize)) metadata data))"

text \<open>
  A response whose dictionary announces an impossible string length makes the decoder panic,
  which ends the process.
\<close>

definition metadata_msg_panics :: "message option \<Rightarrow> bool" where
  "metadata_msg_panics msg =
     (case msg of None \<Rightarrow> False
      | Some m \<Rightarrow> ID m = MsgExtended \<and> 2 \<le> length (Payload m) \<and> uint (Payload m ! 0) = 1 \<and>
          ParseMetadataPiece (drop 1 (Payload m)) = Inl Panic)"

function collect_metadata ::
  "int \<Rightarrow> int \<Rightarrow> bool list \<Rightarrow> bytes \<Rightarrow> conn \<Rightarrow> (error + bytes) \<times> conn" where
  "collect_metadata numPieces got received metadata c =
     (if got < numPieces then
        (case RecvMessage c of Inl e \<Rightarrow> (Inl e, c)
         | Inr (msg, c') \<Rightarrow>
             if metadata_msg_panics msg then (Inl Panic, c')
             else (case handle_metadata_msg msg received metadata of
                None \<Rightarrow> collect_metadata numPieces got received metadata c'
              | Some (received', metadata') \<Rightarrow>
                  collect_metadata numPieces (got + 1) received' metadata' c'))
      else (Inr metadata, c))"
  by pat_completeness auto
termination
  by (relation "measure (\<lambda>(numPieces, got, received, metadata, c). length (rx c))")
    (auto dest: RecvMessage_length)

declare collect_metadata.simps [simp del]

definition num_metadata_pieces :: "int \<Rightarrow> int" where
  "num_metadata_pieces sz = wrap64 (wrap64 (sz + metadataPieceSize) - 1) sdiv metadataPieceSize"

definition readMetadataFromPeer :: "bytes \<Rightarrow> conn \<Rightarrow> (error + info) \<times> conn" where
  "readMetadataFromPeer infoHash c =
     (case wait_ext c of Inl e \<Rightarrow> (Inl e, c)
      | Inr c1 \<Rightarrow>
          if MetadataSize c1 = 0 then (Inl ErrNoMetadataSize, c1)
          else
            let numPieces = num_metadata_pieces (MetadataSize c1)
            in case make_bytes (MetadataSize c1) of Inl e \<Rightarrow> (Inl e, c1)
               | Inr metadata \<Rightarrow>
                   (case request_all (map int [0..<nat numPieces]) c1 of
                      (Some e, c2) \<Rightarrow> (Inl e, c2)
                    | (None, c2) \<Rightarrow>
                        (case collect_metadata numPieces 0 (replicate (nat numPieces) False) metadata c2 of
                           (Inl e, c3) \<Rightarrow> (Inl e, c3)
                         | (Inr md, c3) \<Rightarrow> (Parse md infoHash, c3))))"

section \<open>All peers\<close>

text \<open>What the goroutine for one peer sends to the result channel.\<close>

definition fetch_from_peer :: "(bytes \<times> nat) option \<Rightarrow> bytes \<Rightarrow> bytes \<Rightarrow> error + info" where
  "fetch_from_peer link infoHash peerID =
     (case Dial link infoHash peerID of Inl e \<Rightarrow> Inl e
      | Inr c \<Rightarrow>
          if \<not> SupportsExtension c then Inl ErrNoExtension
          else case SendExtensionHandshake c of Inl e \<Rightarrow> Inl e
            | Inr c' \<Rightarrow> fst (readMetadataFromPeer infoHash c'))"

text \<open>The loop over the result channel: the first success wins; a goroutine that panics
  ends the process. The goroutines of the other peers go on after a success; what they may still
  do, which is to panic, is in the theory of the program as a whole.\<close>

fun first_metadata :: "(error + info) list \<Rightarrow> error + info" where
  "first_metadata [] = Inl ErrNoMetadata"
| "first_metadata (Inr info # rs) = Inr info"
| "first_metadata (Inl e # rs) = (if e = Panic then Inl Panic else first_metadata rs)"

definition fetchMetadata :: "(bytes \<times> nat) option list \<Rightarrow> bytes \<Rightarrow> bytes \<Rightarrow> error + info" where
  "fetchMetadata arrivals infoHash peerID =
     first_metadata (map (\<lambda>link. fetch_from_peer link infoHash peerID) arrivals)"

section \<open>Merging peer lists\<close>

fun dedup_loop :: "peer list \<Rightarrow> (bytes, bool) gomap \<Rightarrow> peer list \<Rightarrow> peer list" where
  "dedup_loop [] seen result = result"
| "dedup_loop (p # ps) seen result =
     (if mget seen (Addr p) \<noteq> Some True
      then dedup_loop ps (mput (Addr p) True seen) (result @ [p])
      else dedup_loop ps seen result)"

definition dedupPeers :: "peer list \<Rightarrow> peer list \<Rightarrow> peer list" where
  "dedupPeers existing new =
     dedup_loop new (foldl (\<lambda>seen p. mput (Addr p) True seen) [] existing) existing"

section \<open>Facts about merging\<close>

text \<open>The reference: keep the first peer for each address not seen.\<close>

fun first_by :: "('a \<Rightarrow> 'b) \<Rightarrow> 'b set \<Rightarrow> 'a list \<Rightarrow> 'a list" where
  "first_by f seen [] = []"
| "first_by f seen (x # xs) =
     (if f x \<in> seen then first_by f seen xs else x # first_by f (insert (f x) seen) xs)"

lemma first_by_props:
  "distinct (map f (first_by f seen xs)) \<and> f ` set (first_by f seen xs) = f ` set xs - seen"
proof (induction f seen xs rule: first_by.induct)
  case (2 f seen x xs)
  then show ?case by (cases "f x \<in> seen") auto
qed simp

lemma dedup_loop_first_by:
  assumes "map_ok seen" and "\<And>a. mget seen a = Some True \<longleftrightarrow> a \<in> S"
  shows "dedup_loop ps seen result = result @ first_by Addr S ps"
  using assms
proof (induction ps arbitrary: seen S result)
  case (Cons p ps)
  show ?case
  proof (cases "Addr p \<in> S")
    case True
    with Cons show ?thesis by simp
  next
    case False
    have "dedup_loop ps (mput (Addr p) True seen) (result @ [p]) =
        (result @ [p]) @ first_by Addr (insert (Addr p) S) ps"
      using Cons.prems by (intro Cons.IH) (auto simp: map_ok_mput mget_mput)
    with False Cons.prems(2) show ?thesis by simp
  qed
qed simp

lemma seen_existing:
  "map_ok (foldl (\<lambda>seen p. mput (Addr p) True seen) [] ps) \<and>
   (mget (foldl (\<lambda>seen p. mput (Addr p) True seen) [] ps) a = Some True \<longleftrightarrow> a \<in> Addr ` set ps)"
  by (induction ps arbitrary: a rule: rev_induct) (auto simp: map_ok_mput mget_mput)

lemma dedupPeers_first_by: "dedupPeers existing new = existing @ first_by Addr (Addr ` set existing) new"
  unfolding dedupPeers_def using seen_existing by (intro dedup_loop_first_by) auto

section \<open>Properties of the exchange\<close>

lemma first_metadata_Inr: "first_metadata rs = Inr info \<Longrightarrow> Inr info \<in> set rs"
  by (induction rs rule: first_metadata.induct) (auto split: if_splits)

lemma first_metadata_none:
  "first_metadata rs = Inl ErrNoMetadata \<longleftrightarrow> list_all (\<lambda>r. \<exists>e. r = Inl e \<and> e \<noteq> Panic) rs"
  by (induction rs rule: first_metadata.induct) auto

lemma readMetadata_verified:
  "readMetadataFromPeer ih c = (Inr info, c') \<Longrightarrow> \<exists>raw. Parse raw ih = Inr info"
  by (auto simp: readMetadataFromPeer_def Let_def split: sum.splits if_splits prod.splits option.splits)

lemma fetch_from_peer_Inr:
  "fetch_from_peer link ih pid = Inr info \<Longrightarrow> \<exists>c c'. readMetadataFromPeer ih c = (Inr info, c')"
  by (auto simp: fetch_from_peer_def split: sum.splits if_splits) (metis prod.collapse)

lemma fetchMetadata_hash:
  assumes "fetchMetadata arrivals ih pid = Inr info"
  shows "\<exists>raw. sha1 raw = ih \<and> ParseUnverified raw = Inr info \<and> info_ok info"
proof -
  have "Inr info \<in> (\<lambda>link. fetch_from_peer link ih pid) ` set arrivals"
    using assms first_metadata_Inr by (fastforce simp: fetchMetadata_def)
  then obtain link where "fetch_from_peer link ih pid = Inr info" by force
  then obtain raw where "Parse raw ih = Inr info" using readMetadata_verified fetch_from_peer_Inr by blast
  then have "sha1 raw = ih" "ParseUnverified raw = Inr info" by (auto simp: Parse_def split: if_splits)
  with ParseUnverified_ok show ?thesis by blast
qed

text \<open>C38. Metadata from peers is trusted only by its hash: what is returned was parsed from
  bytes whose SHA-1 hash is the info hash of the magnet link, whatever the peers send; and when
  no goroutine panics, there is no metadata exactly when every peer failed.\<close>

theorem fetchMetadata_verified:
  "(\<forall>info. fetchMetadata arrivals ih pid = Inr info \<longrightarrow>
      (\<exists>raw. sha1 raw = ih \<and> ParseUnverified raw = Inr info \<and> info_ok info)) \<and>
   (fetchMetadata arrivals ih pid = Inl ErrNoMetadata \<longleftrightarrow>
      list_all (\<lambda>link. \<exists>e. fetch_from_peer link ih pid = Inl e \<and> e \<noteq> Panic) arrivals)"
  using fetchMetadata_hash [of arrivals ih pid]
  by (auto simp: fetchMetadata_def first_metadata_none list_all_iff)

theorem fetchMetadata_verified_witness:
  "fetchMetadata [None, None] [] [] = Inl ErrNoMetadata"
proof -
  have "fetch_from_peer None [] [] = Inl ErrOther" by (simp add: fetch_from_peer_def Dial_def)
  with fetchMetadata_verified [of "[None, None]" "[]" "[]"] show ?thesis by simp
qed

text \<open>Merging keeps the peers there were, in their place, and adds the first peer for each
  address not there yet: the addresses are the union, and what is added has each address once.\<close>

theorem dedupPeers_spec:
  "\<exists>added. dedupPeers existing new = existing @ added \<and> distinct (map Addr added) \<and>
     Addr ` set added = Addr ` set new - Addr ` set existing \<and>
     added = first_by Addr (Addr ` set existing) new \<and>
     (distinct (map Addr existing) \<longrightarrow> distinct (map Addr (dedupPeers existing new)))"
  using first_by_props [of Addr "Addr ` set existing" new]
  by (auto simp: dedupPeers_first_by)

theorem dedupPeers_spec_witness:
  "distinct (map Addr (dedupPeers [] [\<lparr>IP = [1, 2, 3, 4], Port = 5\<rparr>, \<lparr>IP = [1, 2, 3, 4], Port = 5\<rparr>]))"
  using dedupPeers_spec [of "[]" "[\<lparr>IP = [1, 2, 3, 4], Port = 5\<rparr>, \<lparr>IP = [1, 2, 3, 4], Port = 5\<rparr>]"] by auto

section \<open>A peer that has the metadata\<close>

text \<open>What such a peer sends: the extension handshake with its id for the extension and the
  size, and for each piece a dictionary with the bytes of the piece behind it.\<close>

definition ext_dict :: "int \<Rightarrow> int \<Rightarrow> (bytes, any) gomap" where
  "ext_dict k n = [(str ''m'', GMap [(str ''ut_metadata'', GInt64 k)]), (str ''metadata_size'', GInt64 n)]"

definition ext_msg :: "int \<Rightarrow> int \<Rightarrow> message option" where
  "ext_msg k n = Some \<lparr>ID = MsgExtended, Payload = 0 # enc (GMap (ext_dict k n))\<rparr>"

definition piece_dict :: "nat \<Rightarrow> int \<Rightarrow> (bytes, any) gomap" where
  "piece_dict i n = [(str ''msg_type'', GInt64 1), (str ''piece'', GInt64 (int i)),
     (str ''total_size'', GInt64 n)]"

definition metadata_chunk :: "bytes \<Rightarrow> nat \<Rightarrow> bytes" where
  "metadata_chunk raw i = take 16384 (drop (i * 16384) raw)"

definition metadata_msg :: "bytes \<Rightarrow> nat \<Rightarrow> message option" where
  "metadata_msg raw i = Some \<lparr>ID = MsgExtended,
     Payload = 1 # enc (GMap (piece_dict i (int (length raw)))) @ metadata_chunk raw i\<rparr>"

lemma ext_dict_ok: "int64_ok k \<Longrightarrow> int64_ok n \<Longrightarrow> val_ok (GMap (ext_dict k n))"
  by (simp add: ext_dict_def str_def map_ok_Cons max_alloc_def)

lemma piece_dict_ok: "int64_ok (int i) \<Longrightarrow> int64_ok n \<Longrightarrow> val_ok (GMap (piece_dict i n))"
  by (simp add: piece_dict_def str_def map_ok_Cons max_alloc_def int64_ok_def)

lemma metadata_msg_fits:
  assumes "int i < 2 ^ 63" and "int (length raw) < 2 ^ 63"
  shows "msg_fits (metadata_msg raw i)"
proof -
  have "length (enc (GMap (piece_dict i (int (length raw))))) \<le> 90"
    using show_int_length [of "int i"] show_int_length [of "int (length raw)"] assms
    by (simp add: enc_def piece_dict_def Encode_def encodeString_def str_def show_int_def show_nat.simps)
  moreover have "length (metadata_chunk raw i) \<le> 16384" by (simp add: metadata_chunk_def)
  ultimately show ?thesis by (simp add: msg_fits_def metadata_msg_def MaxMessageLen_def)
qed

lemma wait_ext_msg:
  assumes "int64_ok k" and "int64_ok n" and "length (enc (GMap (ext_dict k n))) < 2 ^ 23"
    and "rx c = WriteMessage (ext_msg k n) @ rest"
  shows "wait_ext c = Inr (c\<lparr>rx := rest, ExtensionIDs := [(str ''ut_metadata'', k)], MetadataSize := n\<rparr>)"
proof -
  have "msg_fits (ext_msg k n)" using assms(3) by (simp add: msg_fits_def ext_msg_def MaxMessageLen_def)
  moreover have "c\<lparr>rx := WriteMessage (ext_msg k n) @ rest\<rparr> = c" using assms(4) by (cases c) simp
  ultimately have rv: "RecvMessage c = Inr (ext_msg k n, c\<lparr>rx := rest\<rparr>)"
    using RecvMessage_Write [where m = "ext_msg k n" and c = c and r = rest] by simp
  have "HandleExtensionHandshake (enc (GMap (ext_dict k n))) (c\<lparr>rx := rest\<rparr>) =
      Inr (c\<lparr>rx := rest, ExtensionIDs := [(str ''ut_metadata'', k)], MetadataSize := n\<rparr>)"
    by (simp add: HandleExtensionHandshake_def Decode_enc [OF ext_dict_ok [OF assms(1,2)]])
      (simp add: ext_dict_def str_def int64_entries_def)
  with rv show ?thesis by (subst wait_ext.simps) (simp add: ext_msg_def)
qed

lemma request_all_ok:
  assumes "mget (ExtensionIDs c) (str ''ut_metadata'') = Some k" and "length is \<le> sends_ok c"
  shows "\<exists>t. request_all is c = (None, c\<lparr>tx := t, sends_ok := sends_ok c - length is\<rparr>)"
  using assms
proof (induction "is" arbitrary: c)
  case Nil
  then show ?case by (auto intro!: exI [of _ "tx c"])
next
  case (Cons i "is")
  obtain p where p: "Encode (GMap [(str ''msg_type'', GInt64 0), (str ''piece'', GInt64 i)]) = Inr p"
    by (auto simp: Encode_def str_def)
  let ?c = "c\<lparr>tx := tx c @ WriteMessage (Some \<lparr>ID = MsgExtended, Payload = word_of_int k # p\<rparr>),
    sends_ok := sends_ok c - 1\<rparr>"
  have r: "RequestMetadataPiece i c = Inr ?c"
    using Cons.prems p by (auto simp: RequestMetadataPiece_def flush_bytes_iff)
  obtain t where "request_all is ?c = (None, ?c\<lparr>tx := t, sends_ok := sends_ok ?c - length is\<rparr>)"
  proof -
    have "length is \<le> sends_ok ?c" using Cons.prems(2) by simp
    moreover have "mget (ExtensionIDs ?c) (str ''ut_metadata'') = Some k" using Cons.prems(1) by simp
    ultimately show thesis using Cons.IH [of ?c] that by blast
  qed
  with r show ?case by (auto intro!: exI [of _ t])
qed

lemma ParseMetadataPiece_msg:
  assumes "int64_ok (int i)" and "int64_ok n"
  shows "ParseMetadataPiece (enc (GMap (piece_dict i n)) @ data) = Inr (int i, data)"
  by (simp add: ParseMetadataPiece_def DecodeBytes_enc [OF piece_dict_ok [OF assms]])
    (simp add: piece_dict_def str_def)

definition metadata_blocks :: "bytes \<Rightarrow> nat list \<Rightarrow> (nat \<times> bytes) list" where
  "metadata_blocks raw = map (\<lambda>i. (i * 16384, metadata_chunk raw i))"

lemma collect_metadata_run:
  assumes "distinct order" and "\<forall>i\<in>set order. i < length received \<and> \<not> received ! i"
    and "int (length raw) < 2 ^ 63" and "int (length received) < 2 ^ 63"
    and "got + int (length order) = int (length received)"
    and "rx c = concat (map WriteMessage (map (metadata_msg raw) order)) @ rest"
  shows "\<exists>c'. collect_metadata (int (length received)) got received md c =
    (Inr (assemble md (metadata_blocks raw order)), c') \<and> rx c' = rest"
  using assms
proof (induction order arbitrary: received got md c)
  case Nil
  then show ?case by (subst collect_metadata.simps) (simp add: assemble_def metadata_blocks_def)
next
  case (Cons i order)
  have i: "i < length received" "\<not> received ! i" using Cons.prems(2) by auto
  let ?c = "c\<lparr>rx := concat (map WriteMessage (map (metadata_msg raw) order)) @ rest\<rparr>"
  have fits: "msg_fits (metadata_msg raw i)" using Cons.prems(3,4) i by (intro metadata_msg_fits) auto
  have "c\<lparr>rx := WriteMessage (metadata_msg raw i) @ concat (map WriteMessage (map (metadata_msg raw) order)) @ rest\<rparr> = c"
    using Cons.prems(6) by (cases c) simp
  then have rv: "RecvMessage c = Inr (metadata_msg raw i, ?c)"
    using RecvMessage_Write [OF fits, where c = c] by metis
  let ?p = "enc (GMap (piece_dict i (int (length raw)))) @ metadata_chunk raw i"
  have p: "ParseMetadataPiece ?p = Inr (int i, metadata_chunk raw i)"
    using Cons.prems(3,4) i by (intro ParseMetadataPiece_msg) (auto simp: int64_ok_def)
  have ne: "?p \<noteq> []"
  proof
    assume "?p = []"
    with p have "ParseMetadataPiece [] = Inr (int i, metadata_chunk raw i)" by simp
    moreover have "ParseMetadataPiece [] = Inl ErrUnexpectedEOF" by code_simp
    ultimately show False by simp
  qed
  have h: "handle_metadata_msg (metadata_msg raw i) received md =
      Some (received[i := True], copy_at (i * 16384) md (metadata_chunk raw i))"
    "\<not> metadata_msg_panics (metadata_msg raw i)"
    using i p ne by (auto simp: handle_metadata_msg_def metadata_msg_panics_def metadata_msg_def
        metadataPieceSize_def nat_mult_distrib Suc_le_eq numeral_2_eq_2 neq_Nil_conv not_less)
  have "\<exists>c'. collect_metadata (int (length (received[i := True]))) (got + 1) (received[i := True])
      (copy_at (i * 16384) md (metadata_chunk raw i)) ?c =
    (Inr (assemble (copy_at (i * 16384) md (metadata_chunk raw i)) (metadata_blocks raw order)), c') \<and> rx c' = rest"
    using Cons.prems by (intro Cons.IH) (auto simp: nth_list_update)
  moreover have "got < int (length received)" using Cons.prems(5) by simp
  ultimately show ?case
    using rv h by (subst collect_metadata.simps) (simp add: metadata_blocks_def assemble_Cons)
qed

lemma num_metadata_pieces_eq:
  assumes "0 < n" and "n \<le> max_alloc"
  shows "num_metadata_pieces n = (n + 16383) div 16384"
proof -
  have w: "wrap64 (n + 16384) = n + 16384" "wrap64 (n + 16384 - 1) = n + 16383"
    using assms by (auto simp: max_alloc_def wrap64_nonneg_id)
  have "(n + 16383) sdiv 16384 = (n + 16383) div 16384"
    using assms(1) by (simp add: signed_divide_int_def)
  with w show ?thesis by (simp add: num_metadata_pieces_def metadataPieceSize_def)
qed

lemma assemble_metadata:
  assumes "set order = {..<nat (num_metadata_pieces (int (length raw)))}"
    and "0 < length raw" and "int (length raw) \<le> max_alloc" and "length md = length raw"
  shows "assemble md (metadata_blocks raw order) = raw"
proof -
  let ?N = "nat (num_metadata_pieces (int (length raw)))"
  have N: "?N = (length raw + 16383) div 16384"
    using assms(2,3) by (simp add: num_metadata_pieces_eq nat_div_distrib nat_add_distrib)
  have bl: "\<forall>(b, d)\<in>set (metadata_blocks raw order). b + length d \<le> length raw \<and> d = take (length d) (drop b raw)"
  proof clarify
    fix b d
    assume "(b, d) \<in> set (metadata_blocks raw order)"
    then obtain i where i: "b = i * 16384" "d = take 16384 (drop b raw)" "i < ?N"
      using assms(1) by (auto simp: metadata_blocks_def metadata_chunk_def)
    then have "b < length raw" by (simp add: N)
    moreover have "take (length (take m xs)) xs = take m xs" for m and xs :: bytes
      by (simp add: min_def)
    then have "d = take (length d) (drop b raw)" using i(2) by metis
    moreover have "length d \<le> length raw - b" using i(2) by simp
    ultimately show "b + length d \<le> length raw \<and> d = take (length d) (drop b raw)" by linarith
  qed
  have "length (assemble md (metadata_blocks raw order)) = length raw \<and>
      assemble md (metadata_blocks raw order) ! j = raw ! j" if j: "j < length raw" for j
  proof -
    let ?i = "j div 16384"
    have "?i < ?N" using j by (simp add: N)
    then have "(?i * 16384, metadata_chunk raw ?i) \<in> set (metadata_blocks raw order)"
      using assms(1) by (auto simp: metadata_blocks_def)
    moreover have "?i * 16384 \<le> j" "j < ?i * 16384 + length (metadata_chunk raw ?i)"
      using j by (simp_all add: metadata_chunk_def min_def) linarith
    ultimately have cov: "\<exists>(b, d)\<in>set (metadata_blocks raw order). b \<le> j \<and> j < b + length d" by blast
    show ?thesis using nth_assemble [OF bl assms(4) j] unfolding if_P [OF cov] .
  qed
  then show ?thesis using assms(2) by (metis nth_equalityI)
qed

lemma metadata_run:
  assumes "0 < length raw" and "int (length raw) \<le> max_alloc" and "0 \<le> k" and "k < 2 ^ 63"
    and "distinct order" and "set order = {..<nat (num_metadata_pieces (int (length raw)))}"
    and "length order \<le> sends_ok c"
    and "rx c = WriteMessage (ext_msg k (int (length raw))) @
      concat (map WriteMessage (map (metadata_msg raw) order)) @ rest"
  shows "\<exists>c'. readMetadataFromPeer ih c = (Parse raw ih, c') \<and> rx c' = rest"
proof -
  let ?n = "int (length raw)"
  let ?N = "nat (num_metadata_pieces ?n)"
  have n: "?n < 2 ^ 63" "int64_ok ?n" "int64_ok k"
    using assms(2-4) by (auto simp: max_alloc_def int64_ok_def)
  have len: "length order = ?N" using distinct_card [OF assms(5)] assms(6) by simp
  have N: "int ?N = num_metadata_pieces ?n" "int ?N < 2 ^ 63"
    using assms(1,2) by (auto simp: num_metadata_pieces_eq max_alloc_def)
  have "length (enc (GMap (ext_dict k ?n))) < 2 ^ 23"
    using show_int_length [OF assms(3,4)] show_int_length [of ?n] n(1)
    by (simp add: enc_def ext_dict_def Encode_def encodeString_def str_def show_int_def show_nat.simps)
  note w = wait_ext_msg [OF n(3,2) this assms(8)]
  let ?c1 = "c\<lparr>rx := concat (map WriteMessage (map (metadata_msg raw) order)) @ rest,
    ExtensionIDs := [(str ''ut_metadata'', k)], MetadataSize := ?n\<rparr>"
  obtain t where t: "request_all (map int [0..<?N]) ?c1 = (None, ?c1\<lparr>tx := t, sends_ok := sends_ok ?c1 - ?N\<rparr>)"
    using request_all_ok [of ?c1 k "map int [0..<?N]"] assms(7) len by auto
  have mk: "make_bytes ?n = Inr (replicate (length raw) 0)" using assms(2) by (simp add: make_bytes_def)
  let ?rcv = "replicate ?N False"
  obtain c' where c': "collect_metadata (int (length ?rcv)) 0 ?rcv (replicate (length raw) 0)
      (?c1\<lparr>tx := t, sends_ok := sends_ok ?c1 - ?N\<rparr>) =
    (Inr (assemble (replicate (length raw) 0) (metadata_blocks raw order)), c')" "rx c' = rest"
    using collect_metadata_run [of order ?rcv raw 0 "?c1\<lparr>tx := t, sends_ok := sends_ok ?c1 - ?N\<rparr>" rest]
      assms(5,6) n(1) N(2) len by auto
  have "assemble (replicate (length raw) 0) (metadata_blocks raw order) = raw"
    using assemble_metadata [OF assms(6,1,2)] by simp
  with w t mk c' N(1) assms(1) show ?thesis
    by (simp add: readMetadataFromPeer_def Let_def)
qed

text \<open>C39. Metadata is fetched from a peer that has it: when the peer announces the size and
  its id for the extension and sends the pieces, in any order, then the requests go out and the
  bytes put together are exactly the metadata, which is then checked against the info hash;
  what follows on the connection is left unread.\<close>

theorem metadata_from_peer:
  assumes "0 < length raw" and "int (length raw) \<le> max_alloc" and "0 \<le> k" and "k < 2 ^ 63"
    and "distinct order" and "set order = {..<nat (num_metadata_pieces (int (length raw)))}"
    and "length order \<le> sends_ok c"
    and "rx c = WriteMessage (ext_msg k (int (length raw))) @
      concat (map WriteMessage (map (metadata_msg raw) order)) @ rest"
  shows "\<exists>c'. readMetadataFromPeer ih c = (Parse raw ih, c') \<and> rx c' = rest"
  by (rule metadata_run [OF assms])

theorem metadata_from_peer_witness:
  "\<exists>c'. readMetadataFromPeer [7] (sample_conn\<lparr>rx := WriteMessage (ext_msg 3 2) @
      WriteMessage (metadata_msg [100, 101] 0) @ [9]\<rparr>) = (Parse [100, 101] [7], c') \<and> rx c' = [9]"
proof -
  have n: "num_metadata_pieces 2 = 1" by code_simp
  show ?thesis
    using metadata_from_peer [of "[100, 101]" 3 "[0]"
      "sample_conn\<lparr>rx := WriteMessage (ext_msg 3 2) @ WriteMessage (metadata_msg [100, 101] 0) @ [9]\<rparr>" "[9]" "[7]"]
    by (simp add: n max_alloc_def sample_conn_def lessThan_Suc)
qed

text \<open>
  The announced size is not checked: a negative one, or one that cannot be allocated, panics
  as soon as it arrives.
\<close>

lemma metadata_size_panic:
  assumes "wait_ext c = Inr c1" and "MetadataSize c1 < 0"
  shows "readMetadataFromPeer ih c = (Inl Panic, c1)"
  using assms by (simp add: readMetadataFromPeer_def make_bytes_def Let_def)

end
