(* ===== verification/Session.thy ===== *)
theory Session
  imports Piece Netaddr
begin

text \<open>
  \<^verbatim>\<open>torrent/peer_session.go\<close>: the worker for one peer. The parts that only touch
  the connection are functions (the start of a session, waiting for an unchoke); what a worker
  does with the channels and the endgame tracker it shares with the others is a step relation
  on the shared state and the point where the worker is. Sleeping and deadlines only delay.
\<close>

section \<open>The connection parts\<close>

text \<open>The initial loop: the bitfield known so far, until the first unchoke.\<close>

function init_loop :: "int \<Rightarrow> bitfield option \<Rightarrow> conn \<Rightarrow> (bitfield option \<times> conn) option" where
  "init_loop numPieces bf c =
     (case RecvMessage c of Inl e \<Rightarrow> None
      | Inr (None, c') \<Rightarrow> init_loop numPieces bf c'
      | Inr (Some m, c') \<Rightarrow>
          if ID m = MsgBitfield then init_loop numPieces (Some (Payload m)) c'
          else if ID m = MsgUnchoke then Some (bf, c')
          else if ID m = MsgHave then
            (case ParseHave (Payload m) of Inl e \<Rightarrow> init_loop numPieces bf c'
             | Inr idx \<Rightarrow>
                 init_loop numPieces
                   (Some (SetPiece (uint idx)
                      (case bf of None \<Rightarrow> NewBitfield numPieces | Some b \<Rightarrow> b))) c')
          else init_loop numPieces bf c')"
  by pat_completeness auto
termination by (relation "measure (\<lambda>(n, bf, c). length (rx c))") (auto dest: RecvMessage_length)

declare init_loop.simps [simp del]

definition session_start :: "int \<Rightarrow> conn \<Rightarrow> (bitfield option \<times> conn) option" where
  "session_start numPieces c =
     (case SendMessage (Some NewInterested) c of Inl e \<Rightarrow> None
      | Inr c' \<Rightarrow> init_loop numPieces None c')"

function waitForUnchoke :: "bitfield option \<Rightarrow> conn \<Rightarrow> (bitfield option \<times> conn) option" where
  "waitForUnchoke bf c =
     (case RecvMessage c of Inl e \<Rightarrow> None
      | Inr (None, c') \<Rightarrow> waitForUnchoke bf c'
      | Inr (Some m, c') \<Rightarrow>
          if ID m = MsgUnchoke then Some (bf, c')
          else if ID m = MsgHave then
            (case ParseHave (Payload m) of Inl e \<Rightarrow> waitForUnchoke bf c'
             | Inr idx \<Rightarrow> waitForUnchoke (map_option (SetPiece (uint idx)) bf) c')
          else waitForUnchoke bf c')"
  by pat_completeness auto
termination by (relation "measure (\<lambda>(bf, c). length (rx c))") (auto dest: RecvMessage_length)

declare waitForUnchoke.simps [simp del]

definition has_piece :: "bitfield option \<Rightarrow> int \<Rightarrow> bool" where
  "has_piece bf i = (case bf of None \<Rightarrow> True | Some b \<Rightarrow> HasPiece b i)"

section \<open>The worker\<close>

record session =
  ss_conn :: conn
  ss_bitfield :: "bitfield option"
  ss_misses :: int

text \<open>
  Where a worker is: about to dial for the given attempt, at the head of the loop, at the
  second \<^verbatim>\<open>select\<close>, holding a piece the peer does not have, holding a piece to
  download (in endgame mode or not), waiting for an unchoke, sending a result, or gone.
\<close>

datatype wpc =
    WDial nat
  | WLoop nat session
  | WSelect nat session
  | WMiss nat session pieceWork
  | WGot nat session pieceWork bool
  | WWait nat session
  | WSend nat session pieceResult
  | WExit

definition maxReconnects :: nat where
  "maxReconnects = 3"

definition next_attempt :: "nat \<Rightarrow> wpc" where
  "next_attempt a = (if Suc a \<le> maxReconnects then WDial (Suc a) else WExit)"

text \<open>What the workers share; a panic of any of them ends the process.\<close>

record shared =
  workCh :: "pieceWork list"
  doneClosed :: bool
  egClosed :: bool
  endgame :: endgameTracker
  ActivePeers :: "32 word"
  crashed :: bool

text \<open>
  One step of a worker. The link of a dial, the pooled buffer of a download and the choice
  among several ready channels are not determined.
\<close>

inductive wstep :: "int \<Rightarrow> bytes \<Rightarrow> bytes \<Rightarrow> shared \<times> wpc \<Rightarrow> shared \<times> wpc \<Rightarrow> bool"
  for numPieces :: int and infoHash :: bytes and peerID :: bytes where
  dial_done: "doneClosed sh \<Longrightarrow>
    wstep numPieces infoHash peerID (sh, WDial a) (sh, WExit)"
| dial_fail: "\<not> doneClosed sh \<Longrightarrow> Dial link infoHash peerID = Inl e \<Longrightarrow>
    wstep numPieces infoHash peerID (sh, WDial a) (sh, next_attempt a)"
| start_fail: "\<not> doneClosed sh \<Longrightarrow> Dial link infoHash peerID = Inr c \<Longrightarrow>
    session_start numPieces c = None \<Longrightarrow>
    wstep numPieces infoHash peerID (sh, WDial a) (sh, next_attempt a)"
| start: "\<not> doneClosed sh \<Longrightarrow> Dial link infoHash peerID = Inr c \<Longrightarrow>
    session_start numPieces c = Some (bf, c') \<Longrightarrow>
    wstep numPieces infoHash peerID (sh, WDial a)
      (sh\<lparr>ActivePeers := ActivePeers sh + 1\<rparr>,
       WLoop a \<lparr>ss_conn = c', ss_bitfield = bf, ss_misses = 0\<rparr>)"
| loop_done: "doneClosed sh \<Longrightarrow>
    wstep numPieces infoHash peerID (sh, WLoop a s) (sh\<lparr>ActivePeers := ActivePeers sh - 1\<rparr>, next_attempt a)"
| pick: "\<not> doneClosed sh \<Longrightarrow> egClosed sh \<Longrightarrow>
    PickPiece (has_piece (ss_bitfield s)) (endgame sh) = (Inr (Some pw), e) \<Longrightarrow>
    wstep numPieces infoHash peerID (sh, WLoop a s) (sh\<lparr>endgame := e\<rparr>, WGot a s pw True)"
| pick_none: "\<not> doneClosed sh \<Longrightarrow> egClosed sh \<Longrightarrow>
    PickPiece (has_piece (ss_bitfield s)) (endgame sh) = (Inr None, e) \<Longrightarrow>
    wstep numPieces infoHash peerID (sh, WLoop a s)
      (sh\<lparr>endgame := e, ActivePeers := ActivePeers sh - 1\<rparr>, next_attempt a)"
| pick_panic: "\<not> doneClosed sh \<Longrightarrow> egClosed sh \<Longrightarrow>
    PickPiece (has_piece (ss_bitfield s)) (endgame sh) = (Inl er, e) \<Longrightarrow>
    wstep numPieces infoHash peerID (sh, WLoop a s) (sh\<lparr>endgame := e, crashed := True\<rparr>, WExit)"
| check: "\<not> doneClosed sh \<Longrightarrow> \<not> egClosed sh \<Longrightarrow>
    wstep numPieces infoHash peerID (sh, WLoop a s) (sh, WSelect a s)"
| select_done: "doneClosed sh \<Longrightarrow>
    wstep numPieces infoHash peerID (sh, WSelect a s) (sh\<lparr>ActivePeers := ActivePeers sh - 1\<rparr>, next_attempt a)"
| select_eg: "egClosed sh \<Longrightarrow>
    wstep numPieces infoHash peerID (sh, WSelect a s) (sh, WLoop a s)"
| take_miss: "workCh sh = pw # q \<Longrightarrow> \<not> has_piece (ss_bitfield s) (pw_Index pw) \<Longrightarrow>
    wstep numPieces infoHash peerID (sh, WSelect a s) (sh\<lparr>workCh := q\<rparr>, WMiss a s pw)"
| take_work: "workCh sh = pw # q \<Longrightarrow> has_piece (ss_bitfield s) (pw_Index pw) \<Longrightarrow>
    wstep numPieces infoHash peerID (sh, WSelect a s) (sh\<lparr>workCh := q\<rparr>, WGot a (s\<lparr>ss_misses := 0\<rparr>) pw False)"
| miss_again: "ss_misses s + 1 < 15 \<Longrightarrow>
    wstep numPieces infoHash peerID (sh, WMiss a s pw)
      (sh\<lparr>workCh := workCh sh @ [pw]\<rparr>, WLoop a (s\<lparr>ss_misses := ss_misses s + 1\<rparr>))"
| miss_last: "ss_misses s + 1 \<ge> 15 \<Longrightarrow>
    wstep numPieces infoHash peerID (sh, WMiss a s pw)
      (sh\<lparr>workCh := workCh sh @ [pw], ActivePeers := ActivePeers sh - 1\<rparr>, next_attempt a)"
| download_panic: "DownloadPiece pw pooled (ss_conn s) = Inl er \<Longrightarrow>
    wstep numPieces infoHash peerID (sh, WGot a s pw eg) (sh\<lparr>crashed := True\<rparr>, WExit)"
| download: "DownloadPiece pw pooled (ss_conn s) = Inr (r, pool, c) \<Longrightarrow> pr_Err r = None \<Longrightarrow>
    wstep numPieces infoHash peerID (sh, WGot a s pw eg) (sh, WSend a (s\<lparr>ss_conn := c\<rparr>) r)"
| choked: "DownloadPiece pw pooled (ss_conn s) = Inr (r, pool, c) \<Longrightarrow> pr_Err r = Some ErrChoked \<Longrightarrow>
    wstep numPieces infoHash peerID (sh, WGot a s pw eg)
      (if eg then sh else sh\<lparr>workCh := workCh sh @ [pw]\<rparr>, WWait a (s\<lparr>ss_conn := c\<rparr>))"
| download_fail: "DownloadPiece pw pooled (ss_conn s) = Inr (r, pool, c) \<Longrightarrow> pr_Err r = Some er \<Longrightarrow>
    er \<noteq> ErrChoked \<Longrightarrow>
    wstep numPieces infoHash peerID (sh, WGot a s pw eg)
      ((if eg then sh else sh\<lparr>workCh := workCh sh @ [pw]\<rparr>)\<lparr>ActivePeers := ActivePeers sh - 1\<rparr>, next_attempt a)"
| unchoked: "waitForUnchoke (ss_bitfield s) (ss_conn s) = Some (bf, c) \<Longrightarrow>
    wstep numPieces infoHash peerID (sh, WWait a s) (sh, WLoop a (s\<lparr>ss_conn := c, ss_bitfield := bf\<rparr>))"
| wait_fail: "waitForUnchoke (ss_bitfield s) (ss_conn s) = None \<Longrightarrow>
    wstep numPieces infoHash peerID (sh, WWait a s) (sh\<lparr>ActivePeers := ActivePeers sh - 1\<rparr>, next_attempt a)"

inductive_cases wstep_exit: "wstep n ih pid (sh, WExit) t"

section \<open>What a session learns\<close>

text \<open>The effect of one message before the unchoke on the bitfield, and the pieces announced
  one by one.\<close>

definition note_msg :: "int \<Rightarrow> bitfield option \<Rightarrow> message option \<Rightarrow> bitfield option" where
  "note_msg n bf msg =
     (case msg of None \<Rightarrow> bf
      | Some m \<Rightarrow>
          if ID m = MsgBitfield then Some (Payload m)
          else if ID m = MsgHave then
            (case ParseHave (Payload m) of Inl e \<Rightarrow> bf
             | Inr idx \<Rightarrow> Some (SetPiece (uint idx) (case bf of None \<Rightarrow> NewBitfield n | Some b \<Rightarrow> b)))
          else bf)"

definition is_msg :: "byte \<Rightarrow> message option \<Rightarrow> bool" where
  "is_msg k msg = (case msg of None \<Rightarrow> False | Some m \<Rightarrow> ID m = k)"

definition unchoke_msg :: "message option" where
  "unchoke_msg = Some \<lparr>ID = MsgUnchoke, Payload = []\<rparr>"

fun haves :: "message option list \<Rightarrow> int list" where
  "haves [] = []"
| "haves (None # ms) = haves ms"
| "haves (Some m # ms) =
     (if ID m = MsgHave then
        (case ParseHave (Payload m) of Inl e \<Rightarrow> haves ms | Inr idx \<Rightarrow> uint idx # haves ms)
      else haves ms)"

lemma conn_rx_eq: "rx c = r \<Longrightarrow> c\<lparr>rx := r\<rparr> = c"
  by (cases c) simp

lemma RecvMessage_next: "msg_fits m \<Longrightarrow> rx c = WriteMessage m @ r \<Longrightarrow> RecvMessage c = Inr (m, c\<lparr>rx := r\<rparr>)"
  using RecvMessage_Write [where m = m and r = r and c = c] conn_rx_eq by metis

lemma init_loop_run:
  assumes "list_all msg_fits ms" and "list_all (\<lambda>m. \<not> is_msg MsgUnchoke m) ms"
    and "rx c = concat (map WriteMessage ms) @ WriteMessage unchoke_msg @ rest"
  shows "init_loop n bf c = Some (foldl (note_msg n) bf ms, c\<lparr>rx := rest\<rparr>)"
  using assms
proof (induction ms arbitrary: bf c)
  case Nil
  have "msg_fits unchoke_msg" by (simp add: msg_fits_def unchoke_msg_def MaxMessageLen_def)
  then have "RecvMessage c = Inr (unchoke_msg, c\<lparr>rx := rest\<rparr>)"
    using Nil.prems(3) by (intro RecvMessage_next) simp_all
  then show ?case by (subst init_loop.simps) (simp add: unchoke_msg_def msg_ids)
next
  case (Cons m ms)
  let ?c = "c\<lparr>rx := concat (map WriteMessage ms) @ WriteMessage unchoke_msg @ rest\<rparr>"
  have rv: "RecvMessage c = Inr (m, ?c)"
    using Cons.prems by (intro RecvMessage_next) simp_all
  have "init_loop n bf c = init_loop n (note_msg n bf m) ?c"
    using rv Cons.prems(2)
    by (subst init_loop.simps) (auto simp: note_msg_def is_msg_def msg_ids split: option.splits sum.splits)
  with Cons show ?case by simp
qed

lemma note_haves:
  assumes "list_all (\<lambda>m. \<not> is_msg MsgBitfield m) ms"
  shows "foldl (note_msg n) (Some b) ms = Some (fold SetPiece (haves ms) b)"
  using assms
proof (induction ms arbitrary: b rule: haves.induct)
  case (3 m ms)
  then show ?case by (auto simp: note_msg_def is_msg_def split: sum.splits)
qed (simp_all add: note_msg_def)

text \<open>C40. At the start of a session we send that we are interested and read up to the first
  unchoke, which ends the phase; from then on the peer counts as having exactly the pieces of
  the bitfield it sent and those it announced since, whatever other messages came between, and
  the next message is the one after the unchoke.\<close>

theorem session_learns_pieces:
  assumes "0 < sends_ok c" and "list_all msg_fits ms" and "length b < MaxMessageLen"
    and "list_all (\<lambda>m. \<not> is_msg MsgUnchoke m \<and> \<not> is_msg MsgBitfield m) ms"
    and "rx c = WriteMessage (Some \<lparr>ID = MsgBitfield, Payload = b\<rparr>) @
      concat (map WriteMessage ms) @ WriteMessage unchoke_msg @ rest"
  shows "\<exists>bf c'. session_start n c = Some (bf, c') \<and> rx c' = rest \<and>
    tx c' = tx c @ WriteMessage (Some NewInterested) \<and>
    (\<forall>i. has_piece bf i \<longleftrightarrow> HasPiece b i \<or> (i \<in> set (haves ms) \<and> 0 \<le> i \<and> i < 8 * int (length b)))"
proof -
  let ?c = "c\<lparr>tx := tx c @ WriteMessage (Some NewInterested), sends_ok := sends_ok c - 1\<rparr>"
  let ?ms = "Some \<lparr>ID = MsgBitfield, Payload = b\<rparr> # ms"
  have "SendMessage (Some NewInterested) c = Inr ?c"
    using assms(1) by (simp add: SendMessage_def flush_bytes_iff)
  moreover have "init_loop n None ?c = Some (foldl (note_msg n) None ?ms, ?c\<lparr>rx := rest\<rparr>)"
    using assms by (intro init_loop_run) (auto simp: msg_fits_def is_msg_def msg_ids list_all_iff)
  moreover have "foldl (note_msg n) None ?ms = Some (fold SetPiece (haves ms) b)"
    using note_haves [of ms n b] assms(4) by (simp add: note_msg_def list_all_iff)
  ultimately have "session_start n c = Some (Some (fold SetPiece (haves ms) b), ?c\<lparr>rx := rest\<rparr>)"
    by (simp add: session_start_def)
  then show ?thesis by (simp add: has_piece_def bitfield.has_fold)
qed

theorem session_learns_pieces_witness:
  "\<exists>bf c'. session_start 16 (sample_conn\<lparr>rx := WriteMessage (Some \<lparr>ID = MsgBitfield, Payload = [128, 0]\<rparr>) @
      WriteMessage None @ WriteMessage (Some (NewHave 9)) @ WriteMessage unchoke_msg @ [5]\<rparr>) = Some (bf, c') \<and>
    rx c' = [5] \<and> has_piece bf 0 \<and> has_piece bf 9 \<and> \<not> has_piece bf 1"
proof -
  let ?ms = "[None, Some (NewHave 9)]"
  let ?c = "sample_conn\<lparr>rx := WriteMessage (Some \<lparr>ID = MsgBitfield, Payload = [128, 0]\<rparr>) @
      concat (map WriteMessage ?ms) @ WriteMessage unchoke_msg @ [5]\<rparr>"
  have h: "haves ?ms = [9]" "HasPiece [128, 0] 0" "\<not> HasPiece [128, 0] 1" by code_simp+
  obtain bf c' where r: "session_start 16 ?c = Some (bf, c')" "rx c' = [5]"
    "\<And>i. has_piece bf i \<longleftrightarrow> HasPiece [128, 0] i \<or>
       (i \<in> set (haves ?ms) \<and> 0 \<le> i \<and> i < 8 * int (length ([128, 0] :: bytes)))"
    using session_learns_pieces [of ?c ?ms "[128, 0]" "[5]" 16]
    by (auto simp: sample_conn_def msg_fits_def MaxMessageLen_def NewHave_def is_msg_def msg_ids)
  have "has_piece bf 0" "has_piece bf 9" "\<not> has_piece bf 1" using h by (auto simp: r(3))
  with r(1,2) show ?thesis by auto
qed

text \<open>A peer that sends neither a bitfield nor an announcement counts as having every piece.\<close>

lemma no_bitfield_has_all: "has_piece None i"
  by (simp add: has_piece_def)

end
