(* ===== verification/Download.thy ===== *)
theory Download
  imports Session Writer
begin

text \<open>
  The download of all pieces (\<^verbatim>\<open>downloadPieces\<close> and
  \<^verbatim>\<open>transitionToEndgame\<close> of \<^verbatim>\<open>torrent/torrent.go\<close>): any number of workers,
  the work queue, the collector that writes the results, the switch to endgame mode. The
  interleaving of the goroutines is a step relation; new peers may start workers at any time.
\<close>

section \<open>The state\<close>

record stats =
  TotalPieces :: "32 word"
  Downloaded :: "32 word"
  TotalBytes :: int
  DownloadedBytes :: int

text \<open>
  Where the collector is in its loop: it waits for a result; it has taken a new one and noted it in
  its map; it has told the endgame tracker; the piece is written; it is counted; its bytes are
  counted; it drains the queue; it has returned. The others may move between any two of these.
\<close>

datatype collector = Collecting | Received pieceResult | Writing pieceResult | Written pieceResult
  | Counted pieceResult | Deciding | Draining | Finished "error option"

record sys =
  sy_sh :: shared
  sy_workers :: "(bytes \<times> wpc) list"
  sy_waited :: bool
  sy_resultClosed :: bool
  sy_coll :: collector
  sy_completed :: "(int, bool) gomap"
  sy_done :: int
  sy_disk :: "writer \<times> os"
  sy_stats :: stats

definition all_work :: "info \<Rightarrow> pieceWork list" where
  "all_work info = map (\<lambda>i. \<lparr>pw_Index = int i, pw_Hash = i_Pieces info ! i,
     pw_Length = PieceSize info (int i), NumTries = 0\<rparr>) [0..<length (i_Pieces info)]"

definition maxWorkersPerPeer :: nat where
  "maxWorkersPerPeer = 2"

definition active_workers :: "bytes \<Rightarrow> (bytes \<times> wpc) list \<Rightarrow> nat" where
  "active_workers addr ws = length (filter (\<lambda>(a, pc). a = addr \<and> pc \<noteq> WExit) ws)"

definition startWorker :: "bytes \<Rightarrow> (bytes \<times> wpc) list \<Rightarrow> (bytes \<times> wpc) list" where
  "startWorker addr ws = (if active_workers addr ws \<ge> maxWorkersPerPeer then ws else ws @ [(addr, WDial 0)])"

definition init_sys :: "info \<Rightarrow> bytes \<Rightarrow> os \<Rightarrow> peer list \<Rightarrow> sys" where
  "init_sys info outputDir d peers =
     \<lparr>sy_sh = \<lparr>workCh = all_work info, doneClosed = False, egClosed = False,
               endgame = newEndgameTracker, ActivePeers = 0, crashed = False\<rparr>,
      sy_workers = foldl (\<lambda>ws p. startWorker (Addr p) ws) [] peers,
      sy_waited = False, sy_resultClosed = False, sy_coll = Collecting, sy_completed = [], sy_done = 0,
      sy_disk = (NewWriter info outputDir, d),
      sy_stats = \<lparr>TotalPieces = word_of_int (NumPieces info), Downloaded = 0,
                  TotalBytes = TotalLength info, DownloadedBytes = 0\<rparr>\<rparr>"

section \<open>The collector\<close>

definition finish :: "error option \<Rightarrow> sys \<Rightarrow> sys" where
  "finish e s = s\<lparr>sy_coll := Finished e, sy_disk := snd (Close_writer (sy_disk s))\<rparr>"

text \<open>\<^verbatim>\<open>transitionToEndgame\<close> up to its loop, which is the steps \<open>drain\<close> and
  \<open>drain_end\<close> below.\<close>

definition start_endgame :: "info \<Rightarrow> sys \<Rightarrow> sys" where
  "start_endgame info s =
     s\<lparr>sy_sh := (sy_sh s)\<lparr>endgame := Activate (fold AddPiece
          (filter (\<lambda>pw. \<not> flag (sy_completed s) (pw_Index pw)) (all_work info)) (endgame (sy_sh s)))\<rparr>,
       sy_coll := Draining\<rparr>"

definition eg_after :: "int \<Rightarrow> endgameTracker \<Rightarrow> endgameTracker" where
  "eg_after i e = (if IsActive e then snd (Complete i e) else e)"

text \<open>
  The body of the loop over the result channel, cut where the others can see what happens: the
  result is taken from the channel, where failed and duplicate ones are dropped; the tracker is
  told; the piece is written and counted locally; the two counters of \<^verbatim>\<open>Stats\<close>
  are added to one after the other; then the collector decides how to go on.
\<close>

definition receive :: "pieceResult \<Rightarrow> sys \<Rightarrow> sys" where
  "receive r s =
     (if pr_Err r \<noteq> None then s
      else if flag (sy_completed s) (pr_Index r) then s
      else s\<lparr>sy_completed := mput (pr_Index r) True (sy_completed s), sy_coll := Received r\<rparr>)"

definition tell_endgame :: "pieceResult \<Rightarrow> sys \<Rightarrow> sys" where
  "tell_endgame r s =
     s\<lparr>sy_sh := (sy_sh s)\<lparr>endgame := eg_after (pr_Index r) (endgame (sy_sh s))\<rparr>, sy_coll := Writing r\<rparr>"

definition write_result :: "pieceResult \<Rightarrow> sys \<Rightarrow> sys" where
  "write_result r s =
     (case WritePiece (pr_Index r) (pr_Data r) (sy_disk s) of
        (Some e, dsk) \<Rightarrow>
          if e = Panic then s\<lparr>sy_disk := dsk, sy_sh := (sy_sh s)\<lparr>crashed := True\<rparr>\<rparr>
          else finish (Some e) (s\<lparr>sy_disk := dsk\<rparr>)
      | (None, dsk) \<Rightarrow> s\<lparr>sy_disk := dsk, sy_done := sy_done s + 1, sy_coll := Written r\<rparr>)"

definition count_piece :: "pieceResult \<Rightarrow> sys \<Rightarrow> sys" where
  "count_piece r s =
     s\<lparr>sy_stats := (sy_stats s)\<lparr>Downloaded := Downloaded (sy_stats s) + 1\<rparr>, sy_coll := Counted r\<rparr>"

definition count_bytes :: "pieceResult \<Rightarrow> sys \<Rightarrow> sys" where
  "count_bytes r s =
     s\<lparr>sy_stats := (sy_stats s)\<lparr>DownloadedBytes :=
         wrap64 (DownloadedBytes (sy_stats s) + int (length (pr_Data r)))\<rparr>, sy_coll := Deciding\<rparr>"

definition decide :: "info \<Rightarrow> sys \<Rightarrow> sys" where
  "decide info s =
     (if sy_done s \<ge> NumPieces info
      then finish None (s\<lparr>sy_sh := (sy_sh s)\<lparr>doneClosed := True\<rparr>\<rparr>)
      else if NumPieces info - sy_done s \<le> EndgameThreshold \<and> \<not> IsActive (endgame (sy_sh s))
      then start_endgame info s
      else s\<lparr>sy_coll := Collecting\<rparr>)"

text \<open>What the collector does next when it waits for nothing.\<close>

fun busy :: "collector \<Rightarrow> bool" where
  "busy Collecting = False"
| "busy Draining = False"
| "busy (Finished e) = False"
| "busy _ = True"

definition advance :: "info \<Rightarrow> sys \<Rightarrow> sys" where
  "advance info s =
     (case sy_coll s of
        Received r \<Rightarrow> tell_endgame r s
      | Writing r \<Rightarrow> write_result r s
      | Written r \<Rightarrow> count_piece r s
      | Counted r \<Rightarrow> count_bytes r s
      | Deciding \<Rightarrow> decide info s
      | _ \<Rightarrow> s)"

section \<open>The steps\<close>

text \<open>
  A worker moves; the collector takes the result of a worker that sends one (the channel has
  no buffer), goes on with it, or drains the work queue at the switch to endgame mode; the wait for
  the workers ends when every worker is gone, then the result channel is closed, and the collector
  ends its loop. Sending on the closed channel panics.
\<close>

inductive dl_step :: "info \<Rightarrow> bytes \<Rightarrow> bytes \<Rightarrow> sys \<Rightarrow> sys \<Rightarrow> bool"
  for info :: info and infoHash :: bytes and peerID :: bytes where
  work: "\<not> crashed (sy_sh s) \<Longrightarrow> i < length (sy_workers s) \<Longrightarrow> sy_workers s ! i = (ad, pc) \<Longrightarrow>
    wstep (NumPieces info) infoHash peerID (sy_sh s, pc) (sh, pc') \<Longrightarrow>
    dl_step info infoHash peerID s (s\<lparr>sy_sh := sh, sy_workers := (sy_workers s)[i := (ad, pc')]\<rparr>)"
| collect: "\<not> crashed (sy_sh s) \<Longrightarrow> i < length (sy_workers s) \<Longrightarrow> sy_workers s ! i = (ad, WSend a ss r) \<Longrightarrow>
    sy_coll s = Collecting \<Longrightarrow> \<not> sy_resultClosed s \<Longrightarrow>
    dl_step info infoHash peerID s
      (receive r (s\<lparr>sy_workers := (sy_workers s)[i := (ad, WLoop a ss)]\<rparr>))"
| advance: "\<not> crashed (sy_sh s) \<Longrightarrow> busy (sy_coll s) \<Longrightarrow> dl_step info infoHash peerID s (advance info s)"
| send_closed: "\<not> crashed (sy_sh s) \<Longrightarrow> i < length (sy_workers s) \<Longrightarrow> sy_workers s ! i = (ad, WSend a ss r) \<Longrightarrow>
    sy_resultClosed s \<Longrightarrow>
    dl_step info infoHash peerID s (s\<lparr>sy_sh := (sy_sh s)\<lparr>crashed := True\<rparr>\<rparr>)"
| drain: "\<not> crashed (sy_sh s) \<Longrightarrow> sy_coll s = Draining \<Longrightarrow> workCh (sy_sh s) = pw # q \<Longrightarrow>
    dl_step info infoHash peerID s (s\<lparr>sy_sh := (sy_sh s)\<lparr>workCh := q\<rparr>\<rparr>)"
| drain_end: "\<not> crashed (sy_sh s) \<Longrightarrow> sy_coll s = Draining \<Longrightarrow> workCh (sy_sh s) = [] \<Longrightarrow>
    dl_step info infoHash peerID s (s\<lparr>sy_sh := (sy_sh s)\<lparr>egClosed := True\<rparr>, sy_coll := Collecting\<rparr>)"
| wait_done: "\<not> crashed (sy_sh s) \<Longrightarrow> list_all (\<lambda>(ad, pc). pc = WExit) (sy_workers s) \<Longrightarrow>
    \<not> sy_waited s \<Longrightarrow>
    dl_step info infoHash peerID s (s\<lparr>sy_waited := True\<rparr>)"
| close_results: "\<not> crashed (sy_sh s) \<Longrightarrow> sy_waited s \<Longrightarrow> \<not> sy_resultClosed s \<Longrightarrow>
    dl_step info infoHash peerID s (s\<lparr>sy_resultClosed := True\<rparr>)"
| range_end: "\<not> crashed (sy_sh s) \<Longrightarrow> sy_coll s = Collecting \<Longrightarrow> sy_resultClosed s \<Longrightarrow>
    dl_step info infoHash peerID s
      (finish (if sy_done s < NumPieces info then Some ErrAllFailed else None) s)"

text \<open>A peer found by a later announce starts a worker; the \<^verbatim>\<open>select\<close> may still take it
  after \<^verbatim>\<open>doneCh\<close> is closed.\<close>

inductive spawn_step :: "sys \<Rightarrow> sys \<Rightarrow> bool" where
  spawn: "\<not> crashed (sy_sh s) \<Longrightarrow>
    spawn_step s (s\<lparr>sy_workers := startWorker addr (sy_workers s)\<rparr>)"

inductive reachable :: "info \<Rightarrow> bytes \<Rightarrow> bytes \<Rightarrow> bytes \<Rightarrow> os \<Rightarrow> peer list \<Rightarrow> sys \<Rightarrow> bool"
  for info :: info and infoHash :: bytes and peerID :: bytes and base :: bytes and d :: os
    and peers :: "peer list" where
  init: "reachable info infoHash peerID base d peers (init_sys info base d peers)"
| step: "reachable info infoHash peerID base d peers s \<Longrightarrow> dl_step info infoHash peerID s t \<Longrightarrow>
    reachable info infoHash peerID base d peers t"
| peer_found: "reachable info infoHash peerID base d peers s \<Longrightarrow> spawn_step s t \<Longrightarrow>
    reachable info infoHash peerID base d peers t"

end
