(* ===== verification/DownloadInv.thy ===== *)
theory DownloadInv
  imports Download
begin

text \<open>
  The invariants of the download of all pieces and their proof for every reachable state:
  where each piece is (tokens), what the workers hold, what is on disk, what the endgame
  tracker offers, and how full the work queue can be.
\<close>

section \<open>Tokens: where the pieces are\<close>

text \<open>The pieces a worker holds that came from the work queue, and the result it sends.\<close>

fun held :: "wpc \<Rightarrow> int list" where
  "held (WMiss a s pw) = [pw_Index pw]"
| "held (WGot a s pw eg) = (if eg then [] else [pw_Index pw])"
| "held (WSend a s r) = [pr_Index r]"
| "held _ = []"

definition all_held :: "(bytes \<times> wpc) list \<Rightarrow> int multiset" where
  "all_held ws = (\<Sum>w\<leftarrow>ws. mset (held (snd w)))"

definition tokens :: "sys \<Rightarrow> int multiset" where
  "tokens s = mset (map pw_Index (workCh (sy_sh s))) + all_held (sy_workers s)"

lemma all_held_update:
  assumes "i < length ws" and "ws ! i = (ad, pc)"
  obtains R where "all_held ws = R + mset (held pc)"
    and "\<And>w. all_held (ws[i := w]) = R + mset (held (snd w))"
proof -
  have ws: "ws = take i ws @ (ad, pc) # drop (Suc i) ws" using assms by (metis id_take_nth_drop)
  have "all_held ws = all_held (take i ws) + all_held (drop (Suc i) ws) + mset (held pc)"
    by (subst ws) (simp add: all_held_def)
  moreover have "all_held (ws[i := w]) = all_held (take i ws) + all_held (drop (Suc i) ws) + mset (held (snd w))" for w
    using assms(1) by (simp add: upd_conv_take_nth_drop all_held_def)
  ultimately show thesis by (rule that)
qed

lemma all_held_start: "all_held (startWorker ad ws) = all_held ws"
  by (simp add: startWorker_def all_held_def)

lemma held_next_attempt [simp]: "held (next_attempt a) = []"
  by (simp add: next_attempt_def)

text \<open>A worker's step moves pieces between the queue and itself and drops none.\<close>

lemma wstep_tokens:
  assumes "wstep n ih pid (sh, pc) (sh', pc')" and "\<not> crashed sh'"
  shows "mset (map pw_Index (workCh sh')) + mset (held pc') =
      mset (map pw_Index (workCh sh)) + mset (held pc) \<or>
    (\<exists>a s pw s' r. pc = WGot a s pw True \<and> pc' = WSend a s' r \<and> workCh sh' = workCh sh)"
  using assms
proof (cases rule: wstep.cases)
  case (download pw pooled s r pool c a eg)
  note r = DownloadPiece_ok [OF download(4)]
  show ?thesis using download r by (cases eg) auto
qed (auto split: if_splits)

section \<open>The invariants\<close>

definition work_ok :: "info \<Rightarrow> pieceWork \<Rightarrow> bool" where
  "work_ok info pw \<longleftrightarrow> 0 \<le> pw_Index pw \<and> pw_Index pw < NumPieces info \<and>
     pw_Hash pw = i_Pieces info ! nat (pw_Index pw) \<and> pw_Length pw = PieceSize info (pw_Index pw)"

definition result_ok :: "info \<Rightarrow> pieceResult \<Rightarrow> bool" where
  "result_ok info r \<longleftrightarrow> pr_Err r = None \<and> 0 \<le> pr_Index r \<and> pr_Index r < NumPieces info \<and>
     VerifyPiece (pr_Data r) (i_Pieces info ! nat (pr_Index r)) \<and>
     int (length (pr_Data r)) = PieceSize info (pr_Index r)"

fun wpc_ok :: "info \<Rightarrow> bool \<Rightarrow> wpc \<Rightarrow> bool" where
  "wpc_ok info eg (WMiss a s pw) = work_ok info pw"
| "wpc_ok info eg (WGot a s pw e) = (work_ok info pw \<and> (e \<longrightarrow> eg))"
| "wpc_ok info eg (WSend a s r) = result_ok info r"
| "wpc_ok info eg _ = True"

definition shared_ok :: "info \<Rightarrow> shared \<Rightarrow> bool" where
  "shared_ok info sh \<longleftrightarrow> list_all (work_ok info) (workCh sh) \<and> list_all (work_ok info) (eg_pieces (endgame sh)) \<and>
     eg_ok (endgame sh) \<and> (egClosed sh \<longrightarrow> IsActive (endgame sh)) \<and>
     (\<not> IsActive (endgame sh) \<longrightarrow> eg_pieces (endgame sh) = [] \<and> eg_completed (endgame sh) = [])"

lemma wpc_ok_next [simp]: "wpc_ok info eg (next_attempt a)"
  by (simp add: next_attempt_def)

lemma smod_less: "0 < b \<Longrightarrow> a smod b < (b::int)"
proof -
  assume b: "0 < b"
  show ?thesis
  proof (cases "a < 0")
    case True
    then have "a smod b = - (- a mod b)" using b by (simp add: signed_modulo_int_def)
    moreover have "0 \<le> - a mod b" using b by simp
    ultimately show ?thesis using b by linarith
  next
    case False
    then show ?thesis using b by (simp add: smod_nonneg)
  qed
qed

lemma pick_from_mem: "pick_from h ps start k = Inr (Some pw) \<Longrightarrow> ps \<noteq> [] \<Longrightarrow> pw \<in> set ps"
proof (induction k)
  case (Suc k)
  let ?j = "(start + (int (length ps) - int (Suc k))) smod int (length ps)"
  have "?j < int (length ps)" using Suc.prems(2) by (intro smod_less) simp
  then have "0 \<le> ?j \<Longrightarrow> nat ?j < length ps" by linarith
  with Suc show ?case by (auto simp: Let_def split: if_splits)
qed simp

lemma PickPiece_mem:
  "PickPiece h e = (Inr (Some pw), e') \<Longrightarrow> pw \<in> set (eg_pieces e)"
  by (auto simp: PickPiece_def Let_def split: if_splits dest: pick_from_mem)

lemma PickPiece_frame:
  "PickPiece h e = (r, e') \<Longrightarrow> eg_pieces e' = eg_pieces e \<and> eg_completed e' = eg_completed e \<and>
    eg_active e' = eg_active e"
  by (auto simp: PickPiece_def Let_def split: if_splits)

text \<open>A step of a worker keeps what is shared in order and touches nothing of the collector's.\<close>

lemma wstep_frame:
  assumes "wstep n ih pid (sh, pc) (sh', pc')"
  shows "doneClosed sh' = doneClosed sh \<and> egClosed sh' = egClosed sh \<and>
    eg_pieces (endgame sh') = eg_pieces (endgame sh) \<and>
    eg_completed (endgame sh') = eg_completed (endgame sh) \<and>
    IsActive (endgame sh') = IsActive (endgame sh) \<and> (crashed sh \<longrightarrow> crashed sh')"
  using assms by (cases rule: wstep.cases) (auto simp: IsActive_def dest: PickPiece_frame)

lemma wstep_ok:
  assumes "wstep n ih pid (sh, pc) (sh', pc')" and "shared_ok info sh" and "wpc_ok info (egClosed sh) pc"
  shows "shared_ok info sh' \<and> (crashed sh' \<or> wpc_ok info (egClosed sh') pc')"
proof -
  have sh: "list_all (work_ok info) (workCh sh')" and pc: "crashed sh' \<or> wpc_ok info (egClosed sh') pc'"
    using assms
    by (cases rule: wstep.cases;
        auto simp: shared_ok_def result_ok_def work_ok_def list_all_iff
          dest: PickPiece_mem DownloadPiece_ok)+
  have "eg_ok (endgame sh')"
    using assms(2) wstep_frame [OF assms(1)] by (simp add: shared_ok_def eg_ok_def)
  then show ?thesis
    using sh pc assms(2) wstep_frame [OF assms(1)] by (simp add: shared_ok_def)
qed

section \<open>The disk\<close>

text \<open>
  What the collector keeps of the disk: the layout of the writer, no file longer than its
  length, paths outside the torrent as they were; and a piece counts as there when its place
  holds data of its size with its hash.
\<close>

definition disk_facts :: "info \<Rightarrow> bytes \<Rightarrow> os \<Rightarrow> writer \<times> os \<Rightarrow> bool" where
  "disk_facts info base d s \<longleftrightarrow> w_info (fst s) = info \<and> w_files (fst s) = fileList info base \<and>
     (\<forall>f\<in>set (fileList info base). size_at (dk (snd s)) (fe_Path f) \<le> fe_Length f) \<and>
     (\<forall>p. p \<notin> fe_Path ` set (fileList info base) \<longrightarrow> dk (snd s) p = dk d p)"

definition piece_on_disk :: "info \<Rightarrow> writer \<times> os \<Rightarrow> int \<Rightarrow> bool" where
  "piece_on_disk info s i \<longleftrightarrow>
     (\<exists>data. VerifyPiece data (i_Pieces info ! nat i) \<and> int (length data) = PieceSize info i \<and>
        piece_stored disk_byte piece_start s i data)"

lemma disk_facts_write:
  assumes "writer_ok s" and "disk_facts info base d s" and "result_ok info r"
    and "WritePiece (pr_Index r) (pr_Data r) s = (None, s')"
  shows "writer_ok s' \<and> disk_facts info base d s' \<and> piece_on_disk info s' (pr_Index r) \<and>
    (\<forall>j. 0 \<le> j \<longrightarrow> j < NumPieces info \<longrightarrow> piece_on_disk info s j \<longrightarrow> piece_on_disk info s' j)"
proof -
  have inf: "w_info (fst s) = info" "w_files (fst s) = fileList info base"
    using assms(2) by (simp_all add: disk_facts_def)
  have f: "disk.fits s (pr_Index r) (pr_Data r)"
    using assms(3) inf by (simp add: result_ok_def disk.fits_def)
  have "write_pieces WritePiece [(pr_Index r, pr_Data r)] s = (None, s')" using assms(4) by simp
  then have sz: "disk_facts info base d s'"
    using write_pieces_sizes [of s "[(pr_Index r, pr_Data r)]" s'] assms(1,2) f
    by (simp add: disk_facts_def)
  have new: "piece_on_disk info s' (pr_Index r)"
    using disk.wr_stored [OF assms(1) f assms(4)] assms(3) by (auto simp: piece_on_disk_def result_ok_def)
  have "piece_on_disk info s' j" if j: "0 \<le> j" "j < NumPieces info" "piece_on_disk info s j" for j
  proof (cases "j = pr_Index r")
    case False
    obtain data where data: "VerifyPiece data (i_Pieces info ! nat j)" "int (length data) = PieceSize info j"
      "piece_stored disk_byte piece_start s j data"
      using j(3) by (auto simp: piece_on_disk_def)
    have "disk.fits s j data" using j data(2) inf by (simp add: disk.fits_def)
    from disk.wr_stored_keep [OF assms(1) f assms(4) this False data(3)] data(1,2) show ?thesis
      by (auto simp: piece_on_disk_def)
  qed (use new in simp)
  with new sz disk.wr_fits [OF assms(1) f assms(4)] show ?thesis by blast
qed

lemma Close_writer_facts:
  "disk_facts info base d (snd (Close_writer s)) \<longleftrightarrow> disk_facts info base d s"
  "piece_on_disk info (snd (Close_writer s)) i \<longleftrightarrow> piece_on_disk info s i"
  by (auto simp: Close_writer_def disk_facts_def piece_on_disk_def piece_stored_def disk_byte_def
      piece_start_def Let_def split: prod.splits)

text \<open>When every piece is there, the files hold data of which every piece has its hash.\<close>

lemma all_pieces_files:
  assumes lay: "layout_ok info" and "disk_facts info base d s"
    and there: "\<forall>i. 0 \<le> i \<and> i < NumPieces info \<longrightarrow> piece_on_disk info s i"
  obtains whole where "int (length whole) = TotalLength info"
    and "\<forall>i < length (i_Pieces info). sha1 (take (nat (PieceSize info (int i)))
      (drop (i * nat (i_PieceLength info)) whole)) = i_Pieces info ! i"
    and "\<forall>(p, c)\<in>set (file_contents (fileList info base) whole). c \<noteq> [] \<longrightarrow> dk (snd s) p = Some c"
proof -
  let ?p = "i_PieceLength info"
  let ?n = "nat (data_length info)"
  let ?fs = "fileList info base"
  have inf: "w_info (fst s) = info" "w_files (fst s) = ?fs" using assms(2) by (simp_all add: disk_facts_def)
  have p: "0 < ?p" using lay by (simp add: layout_ok_def)
  define whole where "whole = map (\<lambda>g. the (image ?fs (dk (snd s)) (int g))) [0..<?n]"
  have len: "int (length whole) = data_length info" using layout_pos [OF lay] by (simp add: whole_def)
  have stored: "\<exists>data. sha1 data = i_Pieces info ! nat i \<and> int (length data) = PieceSize info i \<and>
      (\<forall>k < length data. image ?fs (dk (snd s)) (i * ?p + int k) = Some (data ! k))"
    if "0 \<le> i" "i < NumPieces info" for i
    using there that inf
    by (auto simp: piece_on_disk_def VerifyPiece_def piece_stored_def disk_byte_def piece_start_def)
  have img: "image ?fs (dk (snd s)) g = Some (whole ! nat g)" if g: "0 \<le> g" "g < data_length info" for g
  proof -
    obtain i k where i: "0 \<le> i" "i < NumPieces info" and k: "g = i * ?p + int k" "int k < PieceSize info i"
      using piece_of_byte [OF lay g] by blast
    obtain data where "int (length data) = PieceSize info i"
      "\<forall>k < length data. image ?fs (dk (snd s)) (i * ?p + int k) = Some (data ! k)"
      using stored [OF i] by blast
    then have "image ?fs (dk (snd s)) g \<noteq> None" using k by auto
    then show ?thesis using g by (auto simp: whole_def)
  qed
  have "sha1 (take (nat (PieceSize info (int i))) (drop (i * nat ?p) whole)) = i_Pieces info ! i"
    if i: "i < length (i_Pieces info)" for i
  proof -
    have ir: "0 \<le> int i" "int i < NumPieces info" using i by (auto simp: NumPieces_def)
    obtain data where data: "sha1 data = i_Pieces info ! i" "int (length data) = PieceSize info (int i)"
      "\<And>k. k < length data \<Longrightarrow> image ?fs (dk (snd s)) (int i * ?p + int k) = Some (data ! k)"
      using stored [OF ir] by auto
    note rg = PieceSize_layout [OF lay ir]
    have st: "nat (int i * ?p) = i * nat ?p" using p by (simp add: nat_mult_distrib)
    have b: "0 \<le> int i * ?p" "int i * ?p + PieceSize info (int i) \<le> int (length whole)"
      using p rg(1) len by auto
    have "take (nat (PieceSize info (int i))) (drop (nat (int i * ?p)) whole) = data"
    proof (rule nth_equalityI)
      show "length (take (nat (PieceSize info (int i))) (drop (nat (int i * ?p)) whole)) = length data"
        using length_slice [OF b(1) _ b(2)] rg(3) data(2) by linarith
      fix k
      assume "k < length (take (nat (PieceSize info (int i))) (drop (nat (int i * ?p)) whole))"
      then have k: "int k < PieceSize info (int i)" "k < length data" using data(2) by auto
      have "image ?fs (dk (snd s)) (int i * ?p + int k) = Some (whole ! nat (int i * ?p + int k))"
        using b k len by (intro img) linarith+
      moreover have "nat (int i * ?p + int k) = nat (int i * ?p) + k" using b by linarith
      ultimately show "take (nat (PieceSize info (int i))) (drop (nat (int i * ?p)) whole) ! k = data ! k"
        using nth_slice [OF b(1,2) k(1)] data(3) [OF k(2)] by simp
    qed
    then show ?thesis using data(1) st by simp
  qed
  moreover have "\<forall>(p, c)\<in>set (file_contents ?fs whole). c \<noteq> [] \<longrightarrow> dk (snd s) p = Some c"
    using fileList_lengths [OF lay, of base] len img assms(2)
    by (intro image_contents) (auto simp: disk_facts_def)
  moreover have "int (length whole) = TotalLength info" using len TotalLength_data [OF lay] by simp
  ultimately show thesis by (intro that allI impI)
qed

section \<open>The system invariant\<close>

definition flagged :: "sys \<Rightarrow> int set" where
  "flagged s = {i. flag (sy_completed s) i}"

definition running :: "sys \<Rightarrow> bool" where
  "running s \<longleftrightarrow> (\<forall>e. sy_coll s \<noteq> Finished e)"

definition failed :: "sys \<Rightarrow> bool" where
  "failed s \<longleftrightarrow> (\<exists>e. sy_coll s = Finished (Some e))"

text \<open>
  The result the collector is at work on; its piece while it is not written yet, and while the
  tracker has not heard of it; the pieces written.
\<close>

fun in_hand :: "collector \<Rightarrow> pieceResult option" where
  "in_hand (Received r) = Some r"
| "in_hand (Writing r) = Some r"
| "in_hand (Written r) = Some r"
| "in_hand (Counted r) = Some r"
| "in_hand _ = None"

fun unwritten :: "collector \<Rightarrow> int set" where
  "unwritten (Received r) = {pr_Index r}"
| "unwritten (Writing r) = {pr_Index r}"
| "unwritten _ = {}"

fun untold :: "collector \<Rightarrow> int set" where
  "untold (Received r) = {pr_Index r}"
| "untold _ = {}"

definition written :: "sys \<Rightarrow> int set" where
  "written s = flagged s - unwritten (sy_coll s)"

definition inv_workers :: "info \<Rightarrow> sys \<Rightarrow> bool" where
  "inv_workers info s \<longleftrightarrow> shared_ok info (sy_sh s) \<and>
     list_all (\<lambda>w. wpc_ok info (egClosed (sy_sh s)) (snd w)) (sy_workers s)"

definition inv_disk :: "info \<Rightarrow> bytes \<Rightarrow> os \<Rightarrow> sys \<Rightarrow> bool" where
  "inv_disk info base d s \<longleftrightarrow> map_ok (sy_completed s) \<and> flagged s \<subseteq> {0..<NumPieces info} \<and>
     (\<forall>r. in_hand (sy_coll s) = Some r \<longrightarrow> result_ok info r \<and> pr_Index r \<in> flagged s) \<and>
     (running s \<longrightarrow> writer_ok (sy_disk s)) \<and>
     (\<not> failed s \<longrightarrow> disk_facts info base d (sy_disk s) \<and> (\<forall>i\<in>written s. piece_on_disk info (sy_disk s) i)) \<and>
     (sy_coll s = Finished None \<longrightarrow> flagged s = {0..<NumPieces info})"

text \<open>
  No piece is lost: before endgame mode every piece not completed is in the work queue or with
  exactly one worker; in endgame mode the tracker offers exactly those pieces, and the one it has
  not heard of yet.
\<close>

definition inv_pieces :: "info \<Rightarrow> sys \<Rightarrow> bool" where
  "inv_pieces info s \<longleftrightarrow> (running s \<longrightarrow>
     sy_done s = int (card (written s)) \<and>
     (sy_coll s = Draining \<longrightarrow> IsActive (endgame (sy_sh s)) \<and> \<not> egClosed (sy_sh s)) \<and>
     (sy_coll s \<noteq> Draining \<longrightarrow> IsActive (endgame (sy_sh s)) = egClosed (sy_sh s)) \<and>
     (IsActive (endgame (sy_sh s)) \<longrightarrow>
        pw_Index ` set (eg_pieces (endgame (sy_sh s))) = {0..<NumPieces info} - (flagged s - untold (sy_coll s)) \<and>
        {i. flag (eg_completed (endgame (sy_sh s))) i} \<subseteq> flagged s) \<and>
     (\<not> IsActive (endgame (sy_sh s)) \<longrightarrow> tokens s = mset_set ({0..<NumPieces info} - flagged s)))"

definition inv :: "info \<Rightarrow> bytes \<Rightarrow> os \<Rightarrow> sys \<Rightarrow> bool" where
  "inv info base d s \<longleftrightarrow> crashed (sy_sh s) \<or>
     (inv_workers info s \<and> inv_disk info base d s \<and> inv_pieces info s)"

lemmas sys_fields = flagged_def running_def failed_def tokens_def written_def

lemma in_set_upd: "x \<in> set (xs[i := y]) \<Longrightarrow> x = y \<or> x \<in> set xs"
  by (meson insert_iff set_update_subset_insert subsetD)

lemma list_all_update: "list_all P xs \<Longrightarrow> P x \<Longrightarrow> list_all P (xs[i := x])"
  by (auto simp: list_all_iff dest: in_set_upd)

lemma list_all_index: "list_all P xs \<Longrightarrow> i < length xs \<Longrightarrow> P (xs ! i)"
  by (simp add: list_all_length)

text \<open>A step of a worker.\<close>

lemma inv_work:
  assumes "inv info base d s" and "\<not> crashed (sy_sh s)" and i: "i < length (sy_workers s)"
    and w: "sy_workers s ! i = (ad, pc)" and st: "wstep (NumPieces info) ih pid (sy_sh s, pc) (sh, pc')"
  shows "inv info base d (s\<lparr>sy_sh := sh, sy_workers := (sy_workers s)[i := (ad, pc')]\<rparr>)"
proof (cases "crashed sh")
  case False
  let ?t = "s\<lparr>sy_sh := sh, sy_workers := (sy_workers s)[i := (ad, pc')]\<rparr>"
  have iw: "inv_workers info s" and id: "inv_disk info base d s" and ip: "inv_pieces info s"
    using assms(1,2) by (simp_all add: inv_def)
  have pc: "wpc_ok info (egClosed (sy_sh s)) pc"
    using list_all_index [OF _ i] iw w by (fastforce simp: inv_workers_def)
  note fr = wstep_frame [OF st] and ok = wstep_ok [OF st _ pc]
  have "inv_workers info ?t"
    using iw ok fr False by (auto simp: inv_workers_def intro!: list_all_update)
  moreover have "inv_disk info base d ?t" using id by (simp add: inv_disk_def sys_fields)
  moreover have "inv_pieces info ?t"
  proof (cases "running s \<and> \<not> IsActive (endgame (sy_sh s))")
    case True
    then have eg: "\<not> egClosed (sy_sh s)" using iw by (auto simp: inv_workers_def shared_ok_def)
    obtain R where R: "all_held (sy_workers s) = R + mset (held pc)"
      "\<And>w. all_held ((sy_workers s)[i := w]) = R + mset (held (snd w))"
      using all_held_update [OF i w] by metis
    have "mset (map pw_Index (workCh sh)) + mset (held pc') =
        mset (map pw_Index (workCh (sy_sh s))) + mset (held pc)"
      using wstep_tokens [OF st False] pc eg by auto
    then have "tokens ?t = tokens s" by (simp add: tokens_def R add.left_commute [of _ R])
    then show ?thesis using ip fr True by (simp add: inv_pieces_def running_def flagged_def written_def)
  next
    case False
    then show ?thesis using ip fr by (auto simp: inv_pieces_def running_def flagged_def written_def)
  qed
  ultimately show ?thesis by (simp add: inv_def)
qed (simp add: inv_def)

text \<open>The steps of the collector other than taking a result.\<close>

lemma inv_drain:
  assumes "inv info base d s" and "\<not> crashed (sy_sh s)" and "sy_coll s = Draining"
    and "workCh (sy_sh s) = pw # q"
  shows "inv info base d (s\<lparr>sy_sh := (sy_sh s)\<lparr>workCh := q\<rparr>\<rparr>)"
  using assms
  by (auto simp: inv_def inv_workers_def shared_ok_def inv_disk_def inv_pieces_def sys_fields)

lemma inv_drain_end:
  assumes "inv info base d s" and "\<not> crashed (sy_sh s)" and "sy_coll s = Draining"
  shows "inv info base d (s\<lparr>sy_sh := (sy_sh s)\<lparr>egClosed := True\<rparr>, sy_coll := Collecting\<rparr>)"
proof -
  have "wpc_ok info eg pc \<Longrightarrow> wpc_ok info True pc" for eg pc by (cases pc) auto
  then show ?thesis
    using assms
    by (auto simp: inv_def inv_workers_def shared_ok_def inv_disk_def inv_pieces_def sys_fields
        list_all_iff)
qed

lemma inv_finish_range:
  assumes "inv info base d s" and "\<not> crashed (sy_sh s)" and "sy_coll s = Collecting"
  shows "inv info base d (finish (if sy_done s < NumPieces info then Some ErrAllFailed else None) s)"
proof -
  have id: "inv_disk info base d s" and ip: "inv_pieces info s"
    using assms(1,2) by (simp_all add: inv_def)
  have "flagged s = {0..<NumPieces info}" if "\<not> sy_done s < NumPieces info"
  proof -
    have "int (card (flagged s)) \<ge> NumPieces info"
      using that ip assms(3) by (simp add: inv_pieces_def running_def written_def)
    then show ?thesis using id by (intro card_seteq) (auto simp: inv_disk_def)
  qed
  then show ?thesis
    using assms
    by (auto simp: inv_def inv_workers_def inv_disk_def inv_pieces_def finish_def sys_fields
        Close_writer_facts)
qed

text \<open>Taking a result.\<close>

lemma all_work_index: "map pw_Index (all_work info) = map int [0..<length (i_Pieces info)]"
  by (simp add: all_work_def comp_def)

lemma all_work_ok: "list_all (work_ok info) (all_work info)"
  by (auto simp: all_work_def list_all_iff work_ok_def NumPieces_def)

lemma all_work_set: "pw_Index ` set (all_work info) = {0..<NumPieces info}"
proof -
  have "int ` {0..<length (i_Pieces info)} = {0..<int (length (i_Pieces info))}"
    by (auto simp: image_iff intro!: bexI [of _ "nat _"])
  then show ?thesis
    using all_work_index [of info] by (metis NumPieces_def atLeastLessThan_upt image_set)
qed

lemma all_work_distinct: "distinct (map pw_Index (all_work info))"
  by (simp add: all_work_index distinct_map)

lemma fold_AddPiece:
  "eg_completed e = [] \<Longrightarrow> fold AddPiece ps e = e\<lparr>eg_pieces := eg_pieces e @ ps\<rparr>"
  by (induction ps arbitrary: e) (simp_all add: AddPiece_def)

lemma Complete_active: "Complete i e = (b, e') \<Longrightarrow> IsActive e' = IsActive e"
  by (auto simp: Complete_def IsActive_def split: if_splits)

text \<open>The tracker after a new result, and after the switch to endgame mode.\<close>

lemma eg_after_ok:
  assumes "shared_ok info sh"
  shows "shared_ok info (sh\<lparr>endgame := eg_after i (endgame sh)\<rparr>)" and "IsActive (eg_after i (endgame sh)) = IsActive (endgame sh)"
    and "IsActive (endgame sh) \<Longrightarrow> pw_Index ` set (eg_pieces (eg_after i (endgame sh))) =
      pw_Index ` set (eg_pieces (endgame sh)) - {i}"
    and "IsActive (endgame sh) \<Longrightarrow> {j. flag (eg_completed (eg_after i (endgame sh))) j} =
      insert i {j. flag (eg_completed (endgame sh)) j}"
proof -
  obtain b e' where c: "Complete i (endgame sh) = (b, e')" by (cases "Complete i (endgame sh)")
  have ok: "eg_ok (endgame sh)" using assms by (simp add: shared_ok_def)
  note C = Complete_ok [OF ok c] and A = Complete_active [OF c]
  show "shared_ok info (sh\<lparr>endgame := eg_after i (endgame sh)\<rparr>)"
    using assms C A c by (auto simp: shared_ok_def eg_after_def list_all_iff)
  show "IsActive (eg_after i (endgame sh)) = IsActive (endgame sh)" using A c by (simp add: eg_after_def)
  show "pw_Index ` set (eg_pieces (eg_after i (endgame sh))) = pw_Index ` set (eg_pieces (endgame sh)) - {i}"
    if "IsActive (endgame sh)" using C c that by (auto simp: eg_after_def)
  show "{j. flag (eg_completed (eg_after i (endgame sh))) j} = insert i {j. flag (eg_completed (endgame sh)) j}"
    if "IsActive (endgame sh)" using C c that by (auto simp: eg_after_def)
qed

lemma start_endgame_ok:
  assumes "shared_ok info (sy_sh s)" and "\<not> IsActive (endgame (sy_sh s))"
  shows "shared_ok info (sy_sh (start_endgame info s))" and "IsActive (endgame (sy_sh (start_endgame info s)))"
    and "pw_Index ` set (eg_pieces (endgame (sy_sh (start_endgame info s)))) = {0..<NumPieces info} - flagged s"
    and "eg_completed (endgame (sy_sh (start_endgame info s))) = []"
    and "egClosed (sy_sh (start_endgame info s)) = egClosed (sy_sh s)"
proof -
  let ?ps = "filter (\<lambda>pw. \<not> flag (sy_completed s) (pw_Index pw)) (all_work info)"
  have e: "eg_pieces (endgame (sy_sh s)) = []" "eg_completed (endgame (sy_sh s)) = []"
    using assms by (simp_all add: shared_ok_def)
  then have st: "endgame (sy_sh (start_endgame info s)) = Activate ((endgame (sy_sh s))\<lparr>eg_pieces := ?ps\<rparr>)"
    by (simp add: start_endgame_def fold_AddPiece)
  have "distinct (map pw_Index ?ps)" by (metis all_work_distinct distinct_map_filter)
  then have "eg_ok (endgame (sy_sh (start_endgame info s)))" by (simp add: st eg_ok_def Activate_def e)
  moreover have "list_all (work_ok info) ?ps" using all_work_ok [of info] by (auto simp: list_all_iff)
  ultimately show "shared_ok info (sy_sh (start_endgame info s))"
    using assms(1) st by (simp add: shared_ok_def Activate_def IsActive_def start_endgame_def)
  show "IsActive (endgame (sy_sh (start_endgame info s)))" by (simp add: st Activate_def IsActive_def)
  show "pw_Index ` set (eg_pieces (endgame (sy_sh (start_endgame info s)))) = {0..<NumPieces info} - flagged s"
    using all_work_set [of info] by (auto simp: st Activate_def flagged_def image_iff)
  show "eg_completed (endgame (sy_sh (start_endgame info s))) = []" by (simp add: st Activate_def e)
  show "egClosed (sy_sh (start_endgame info s)) = egClosed (sy_sh s)" by (simp add: start_endgame_def)
qed

text \<open>A result is taken from a worker: its piece passes from the worker to the collector.\<close>

lemma flagged_mput: "map_ok m \<Longrightarrow> {i. flag (mput j True m) i} = insert j {i. flag m i}"
  by (auto simp: mget_mput)

lemma inv_receive:
  assumes "inv info base d s" and nc: "\<not> crashed (sy_sh s)" and i: "i < length (sy_workers s)"
    and w: "sy_workers s ! i = (ad, WSend a ss r)" and co: "sy_coll s = Collecting"
  shows "inv info base d (receive r (s\<lparr>sy_workers := (sy_workers s)[i := (ad, WLoop a ss)]\<rparr>))"
proof -
  let ?t = "s\<lparr>sy_workers := (sy_workers s)[i := (ad, WLoop a ss)]\<rparr>"
  have iw: "inv_workers info s" and id: "inv_disk info base d s" and ip: "inv_pieces info s"
    using assms(1,2) by (simp_all add: inv_def)
  have r: "result_ok info r"
    using list_all_index [OF _ i] iw w by (fastforce simp: inv_workers_def)
  have iw': "inv_workers info ?t" using iw by (auto simp: inv_workers_def intro: list_all_update)
  have id': "inv_disk info base d ?t" using id by (simp add: inv_disk_def sys_fields)
  obtain R where R: "all_held (sy_workers s) = R + {#pr_Index r#}"
    "\<And>w. all_held ((sy_workers s)[i := w]) = R + mset (held (snd w))"
    using all_held_update [OF i w] by (metis held.simps(3) mset_single_iff_right)
  then have tok: "tokens s = add_mset (pr_Index r) (tokens ?t)" by (simp add: tokens_def)
  have run: "running s" "written s = flagged s" using co by (simp_all add: running_def written_def)
  have ip': "sy_done s = int (card (flagged s))" "IsActive (endgame (sy_sh s)) = egClosed (sy_sh s)"
    using ip co run by (simp_all add: inv_pieces_def)
  show ?thesis
  proof (cases "pr_Index r \<in> flagged s")
    case True
    have "IsActive (endgame (sy_sh s))"
    proof (rule ccontr)
      assume "\<not> IsActive (endgame (sy_sh s))"
      then have "tokens s = mset_set ({0..<NumPieces info} - flagged s)"
        using ip run by (simp add: inv_pieces_def)
      moreover have "pr_Index r \<in># tokens s" by (simp add: tok)
      ultimately show False using True by simp
    qed
    then have "inv_pieces info ?t" using ip by (simp add: inv_pieces_def sys_fields)
    moreover have "receive r ?t = ?t" using True by (simp add: receive_def flagged_def)
    ultimately show ?thesis using iw' id' by (simp add: inv_def)
  next
    case False
    let ?u = "receive r ?t"
    have u: "?u = ?t\<lparr>sy_completed := mput (pr_Index r) True (sy_completed s), sy_coll := Received r\<rparr>"
      using False r by (simp add: receive_def flagged_def result_ok_def)
    have fl: "flagged ?u = insert (pr_Index r) (flagged s)"
      using id by (simp add: u flagged_def flagged_mput inv_disk_def)
    then have wr: "written ?u = flagged s" using False by (simp add: written_def u)
    have tokens: "tokens ?u = tokens ?t" by (simp add: u tokens_def)
    have "tokens ?t = mset_set ({0..<NumPieces info} - insert (pr_Index r) (flagged s))"
      if "\<not> IsActive (endgame (sy_sh s))"
    proof -
      have "add_mset (pr_Index r) (tokens ?t) = mset_set ({0..<NumPieces info} - flagged s)"
        using ip run that tok by (simp add: inv_pieces_def)
      then have "tokens ?t = mset_set ({0..<NumPieces info} - flagged s) - {#pr_Index r#}"
        by (metis add_mset_remove_trivial)
      moreover have "pr_Index r \<in> {0..<NumPieces info} - flagged s"
        using r False by (simp add: result_ok_def)
      moreover have "{0..<NumPieces info} - insert (pr_Index r) (flagged s) =
          {0..<NumPieces info} - flagged s - {pr_Index r}" by blast
      ultimately show ?thesis
        using mset_set_Diff [of "{0..<NumPieces info} - flagged s" "{pr_Index r}"] by simp
    qed
    then have "inv_pieces info ?u"
      using ip ip' run False wr fl tokens co by (auto simp: inv_pieces_def u running_def)
    moreover have "inv_disk info base d ?u"
      using id r run wr fl co by (simp add: inv_disk_def u running_def failed_def map_ok_mput result_ok_def)
    moreover have "inv_workers info ?u" using iw' by (simp add: u inv_workers_def)
    ultimately show ?thesis by (simp add: inv_def)
  qed
qed

text \<open>The collector goes on with it.\<close>

lemma inv_tell:
  assumes "inv info base d s" and "\<not> crashed (sy_sh s)" and co: "sy_coll s = Received r"
  shows "inv info base d (tell_endgame r s)"
proof -
  let ?t = "tell_endgame r s"
  have iw: "inv_workers info s" and id: "inv_disk info base d s" and ip: "inv_pieces info s"
    using assms(1,2) by (simp_all add: inv_def)
  have sok: "shared_ok info (sy_sh s)" using iw by (simp add: inv_workers_def)
  note E = eg_after_ok [OF sok, of "pr_Index r"]
  have same: "flagged ?t = flagged s" "written ?t = written s" "tokens ?t = tokens s"
    by (simp_all add: tell_endgame_def flagged_def written_def tokens_def co)
  have mem: "pr_Index r \<in> flagged s" "result_ok info r" using id co by (simp_all add: inv_disk_def)
  have "inv_workers info ?t" using iw E(1) by (simp add: inv_workers_def tell_endgame_def)
  moreover have "inv_disk info base d ?t"
    using id mem unfolding inv_disk_def same by (simp add: tell_endgame_def co running_def failed_def)
  moreover have "inv_pieces info ?t"
  proof (cases "IsActive (endgame (sy_sh s))")
    case True
    then show ?thesis
      using ip mem E(2-4) unfolding inv_pieces_def same by (auto simp: tell_endgame_def co running_def)
  next
    case False
    then show ?thesis using ip E(2) unfolding inv_pieces_def same by (simp add: tell_endgame_def co running_def)
  qed
  ultimately show ?thesis by (simp add: inv_def)
qed

lemma inv_write:
  assumes "inv info base d s" and "\<not> crashed (sy_sh s)" and co: "sy_coll s = Writing r"
  shows "inv info base d (write_result r s)"
proof -
  have iw: "inv_workers info s" and id: "inv_disk info base d s" and ip: "inv_pieces info s"
    using assms(1,2) by (simp_all add: inv_def)
  have r: "pr_Index r \<in> flagged s" "result_ok info r" and run: "running s" "\<not> failed s"
    using id co by (simp_all add: inv_disk_def running_def failed_def)
  obtain e dsk where wp: "WritePiece (pr_Index r) (pr_Data r) (sy_disk s) = (e, dsk)" by (metis prod.exhaust)
  show ?thesis
  proof (cases e)
    case (Some er)
    have "inv info base d (finish (Some er) (s\<lparr>sy_disk := dsk\<rparr>))"
      using iw id by (simp add: inv_def inv_workers_def inv_disk_def inv_pieces_def finish_def running_def failed_def flagged_def)
    with Some wp show ?thesis by (simp add: write_result_def inv_def)
  next
    case None
    let ?t = "s\<lparr>sy_disk := dsk, sy_done := sy_done s + 1, sy_coll := Written r\<rparr>"
    have fin: "finite (flagged s)" using id by (auto simp: inv_disk_def intro: finite_subset)
    have wr: "written s = flagged s - {pr_Index r}" "written ?t = flagged s" "flagged ?t = flagged s" "tokens ?t = tokens s"
      by (simp_all add: written_def flagged_def tokens_def co)
    have "writer_ok (sy_disk s)" "disk_facts info base d (sy_disk s)" "\<forall>i\<in>written s. piece_on_disk info (sy_disk s) i"
      using id run by (simp_all add: inv_disk_def)
    note D = disk_facts_write [OF this(1,2) r(2) wp [unfolded None]] this(3)
    have "piece_on_disk info dsk i" if "i \<in> flagged s" for i
    proof (cases "i = pr_Index r")
      case False
      then have "i \<in> written s" "0 \<le> i" "i < NumPieces info" using that wr id by (auto simp: inv_disk_def)
      then show ?thesis using D by blast
    qed (use D in simp)
    then have "inv_disk info base d ?t"
      using id r D run unfolding inv_disk_def wr by (simp add: running_def failed_def)
    moreover have "card (flagged s) = Suc (card (written s))" using card_Suc_Diff1 [OF fin r(1)] by (simp add: wr)
    then have "inv_pieces info ?t"
      using ip run unfolding inv_pieces_def wr by (simp add: co running_def)
    moreover have "inv_workers info ?t" using iw by (simp add: inv_workers_def)
    ultimately show ?thesis using None wp by (simp add: write_result_def inv_def)
  qed
qed

lemma inv_count:
  assumes "inv info base d s" and "\<not> crashed (sy_sh s)"
  shows "sy_coll s = Written r \<Longrightarrow> inv info base d (count_piece r s)"
    and "sy_coll s = Counted r \<Longrightarrow> inv info base d (count_bytes r s)"
  using assms
  by (simp_all add: inv_def inv_workers_def inv_disk_def inv_pieces_def sys_fields count_piece_def count_bytes_def)

lemma inv_decide:
  assumes "inv info base d s" and "\<not> crashed (sy_sh s)" and co: "sy_coll s = Deciding"
  shows "inv info base d (decide info s)"
proof -
  have iw: "inv_workers info s" and id: "inv_disk info base d s" and ip: "inv_pieces info s"
    using assms(1,2) by (simp_all add: inv_def)
  have run: "running s" "written s = flagged s" using co by (simp_all add: running_def written_def)
  consider (all) "sy_done s \<ge> NumPieces info"
    | (endgame) "\<not> sy_done s \<ge> NumPieces info" "\<not> IsActive (endgame (sy_sh s))"
        "NumPieces info - sy_done s \<le> EndgameThreshold"
    | (go) "\<not> sy_done s \<ge> NumPieces info" "\<not> (NumPieces info - sy_done s \<le> EndgameThreshold \<and>
        \<not> IsActive (endgame (sy_sh s)))"
    by blast
  then show ?thesis
  proof cases
    case all
    have "NumPieces info \<le> int (card (flagged s))" using all ip run by (simp add: inv_pieces_def)
    then have "flagged s = {0..<NumPieces info}" using id by (intro card_seteq) (simp_all add: inv_disk_def)
    then show ?thesis
      using all iw id run co
      by (simp add: decide_def inv_def inv_workers_def inv_disk_def inv_pieces_def shared_ok_def finish_def
          sys_fields Close_writer_facts)
  next
    case endgame
    let ?t = "start_endgame info s"
    have sok: "shared_ok info (sy_sh s)" using iw by (simp add: inv_workers_def)
    note S = start_endgame_ok [OF sok endgame(2)]
    have ne: "\<not> egClosed (sy_sh s)" using sok endgame(2) by (auto simp: shared_ok_def)
    have t: "sy_workers ?t = sy_workers s" "sy_coll ?t = Draining" "sy_completed ?t = sy_completed s"
      "sy_disk ?t = sy_disk s" "sy_done ?t = sy_done s" "flagged ?t = flagged s" "written ?t = written s"
      using run(2) by (simp_all add: start_endgame_def flagged_def written_def)
    have "inv info base d ?t"
      using S iw id ip ne t run co
      by (simp add: inv_def inv_workers_def inv_disk_def inv_pieces_def running_def failed_def)
    with endgame show ?thesis by (simp add: decide_def)
  next
    case go
    have "inv info base d (s\<lparr>sy_coll := Collecting\<rparr>)"
      using iw id ip co by (simp add: inv_def inv_workers_def inv_disk_def inv_pieces_def sys_fields)
    with go show ?thesis by (auto simp: decide_def)
  qed
qed

lemma inv_advance:
  assumes "inv info base d s" and "\<not> crashed (sy_sh s)"
  shows "inv info base d (advance info s)"
  using assms inv_tell inv_write inv_count inv_decide by (auto simp: advance_def split: collector.split)

section \<open>Every reachable state\<close>

definition torrent_ok :: "info \<Rightarrow> bytes \<Rightarrow> os \<Rightarrow> bool" where
  "torrent_ok info base d \<longleftrightarrow> layout_ok info \<and> distinct (map fe_Path (fileList info base)) \<and>
     list_all (\<lambda>f. dk d (fe_Path f) = None) (fileList info base)"

lemma start_workers:
  "all_held (foldl (\<lambda>ws p. startWorker (Addr p) ws) ws peers) = all_held ws \<and>
   (list_all (\<lambda>w. wpc_ok info eg (snd w)) ws \<longrightarrow>
     list_all (\<lambda>w. wpc_ok info eg (snd w)) (foldl (\<lambda>ws p. startWorker (Addr p) ws) ws peers))"
  by (induction peers arbitrary: ws) (simp_all add: all_held_start, simp add: startWorker_def)

lemma inv_init:
  assumes "torrent_ok info base d"
  shows "inv info base d (init_sys info base d peers)"
proof -
  let ?s = "init_sys info base d peers"
  have ws: "all_held (sy_workers ?s) = {#}" "list_all (\<lambda>w. wpc_ok info False (snd w)) (sy_workers ?s)"
    using start_workers [of "[]" peers info False] by (simp_all add: init_sys_def all_held_def)
  have "writer_ok (NewWriter info base, d)"
    using assms by (intro writer_ok_New) (simp_all add: torrent_ok_def)
  moreover have "disk_facts info base d (NewWriter info base, d)"
    using assms fileList_lengths(1) [of info base]
    by (auto simp: disk_facts_def NewWriter_def torrent_ok_def list_all_iff size_at_def)
  moreover have "tokens ?s = mset_set {0..<NumPieces info}"
  proof -
    have "tokens ?s = mset (map pw_Index (all_work info))" using ws(1) by (simp add: tokens_def init_sys_def)
    also have "\<dots> = mset_set (pw_Index ` set (all_work info))"
      using all_work_distinct [of info] by (metis mset_set_set set_map)
    finally show ?thesis by (simp add: all_work_set)
  qed
  ultimately show ?thesis
    using ws(2) all_work_ok [of info]
    by (simp add: inv_def inv_workers_def inv_disk_def inv_pieces_def sys_fields init_sys_def
        shared_ok_def newEndgameTracker_def IsActive_def eg_ok_def)
qed

lemma inv_spawn:
  assumes "inv info base d s"
  shows "inv info base d (s\<lparr>sy_workers := startWorker ad (sy_workers s)\<rparr>)"
proof -
  let ?t = "s\<lparr>sy_workers := startWorker ad (sy_workers s)\<rparr>"
  have "inv_disk info base d ?t = inv_disk info base d s" by (simp add: inv_disk_def sys_fields)
  moreover have "tokens ?t = tokens s" by (simp add: tokens_def all_held_start)
  then have "inv_pieces info ?t = inv_pieces info s" by (simp add: inv_pieces_def running_def flagged_def written_def)
  moreover have "inv_workers info ?t = inv_workers info s"
    by (simp add: inv_workers_def startWorker_def)
  ultimately show ?thesis using assms by (simp add: inv_def)
qed

lemma inv_close_results:
  "inv info base d (s\<lparr>sy_resultClosed := True\<rparr>) = inv info base d s"
  "inv info base d (s\<lparr>sy_waited := True\<rparr>) = inv info base d s"
  unfolding inv_def inv_workers_def inv_disk_def inv_pieces_def sys_fields by simp_all

lemma inv_step:
  assumes "dl_step info ih pid s t" and "inv info base d s"
  shows "inv info base d t"
  using assms
proof (cases rule: dl_step.cases)
  case (work i ad pc sh pc')
  then show ?thesis using inv_work [OF assms(2)] by blast
next
  case (collect i ad a ss r)
  then show ?thesis using inv_receive [OF assms(2)] by blast
next
  case advance
  then show ?thesis using inv_advance [OF assms(2)] by blast
next
  case (drain pw q)
  then show ?thesis using inv_drain [OF assms(2)] by blast
next
  case drain_end
  then show ?thesis using inv_drain_end [OF assms(2)] by blast
next
  case wait_done
  then show ?thesis using assms(2) by (simp add: inv_close_results)
next
  case close_results
  then show ?thesis using assms(2) by (simp add: inv_close_results)
next
  case range_end
  then show ?thesis using inv_finish_range [OF assms(2)] by blast
qed (simp add: inv_def)

lemma reachable_inv:
  assumes "reachable info ih pid base d peers s" and "torrent_ok info base d"
  shows "inv info base d s"
  using assms
proof (induction rule: reachable.induct)
  case init
  then show ?case by (rule inv_init)
next
  case (step s t)
  then show ?case by (blast intro: inv_step)
next
  case (peer_found s t)
  from peer_found(2) show ?case
    by (cases rule: spawn_step.cases) (use peer_found in \<open>blast intro: inv_spawn\<close>)
qed

section \<open>The work queue is never over its capacity\<close>

text \<open>The pieces a worker may put back.\<close>

fun kept :: "wpc \<Rightarrow> nat" where
  "kept (WMiss a s pw) = 1"
| "kept (WGot a s pw eg) = (if eg then 0 else 1)"
| "kept _ = 0"

definition slots :: "sys \<Rightarrow> nat" where
  "slots s = length (workCh (sy_sh s)) + (\<Sum>w\<leftarrow>sy_workers s. kept (snd w))"

lemma kept_next [simp]: "kept (next_attempt a) = 0"
  by (simp add: next_attempt_def)

lemma kept_update:
  assumes "i < length ws" and "ws ! i = (ad, pc)"
  shows "(\<Sum>w\<leftarrow>ws[i := w']. kept (snd w)) + kept pc = (\<Sum>w\<leftarrow>ws. kept (snd w)) + kept (snd w')"
proof -
  have ws: "ws = take i ws @ (ad, pc) # drop (Suc i) ws" using assms by (metis id_take_nth_drop)
  have "(\<Sum>w\<leftarrow>ws. kept (snd w)) = (\<Sum>w\<leftarrow>take i ws. kept (snd w)) + (\<Sum>w\<leftarrow>drop (Suc i) ws. kept (snd w)) + kept pc"
    by (subst ws) simp
  then show ?thesis using assms(1) by (simp add: upd_conv_take_nth_drop)
qed

lemma wstep_slots:
  "wstep n ih pid (sh, pc) (sh', pc') \<Longrightarrow> length (workCh sh') + kept pc' \<le> length (workCh sh) + kept pc"
  by (cases rule: wstep.cases, assumption) (auto split: if_splits)

lemma receive_frame [simp]:
  "sy_workers (receive r s) = sy_workers s" "sy_sh (receive r s) = sy_sh s" "sy_disk (receive r s) = sy_disk s"
  "sy_resultClosed (receive r s) = sy_resultClosed s" "sy_waited (receive r s) = sy_waited s"
  "sy_done (receive r s) = sy_done s" "sy_stats (receive r s) = sy_stats s"
  by (simp_all add: receive_def)

lemmas collector_defs = advance_def tell_endgame_def write_result_def count_piece_def count_bytes_def decide_def
  finish_def start_endgame_def

lemma advance_frame [simp]:
  "sy_workers (advance info s) = sy_workers s" "workCh (sy_sh (advance info s)) = workCh (sy_sh s)"
  "egClosed (sy_sh (advance info s)) = egClosed (sy_sh s)"
  "sy_resultClosed (advance info s) = sy_resultClosed s" "sy_waited (advance info s) = sy_waited s"
  "ActivePeers (sy_sh (advance info s)) = ActivePeers (sy_sh s)"
  by (simp_all add: collector_defs split: collector.split prod.split option.split)

lemma dl_step_slots:
  assumes "dl_step info ih pid s t"
  shows "slots t \<le> slots s"
  using assms
proof (cases rule: dl_step.cases)
  case (work i ad pc sh pc')
  then show ?thesis
    using kept_update [OF work(3,4), where w' = "(ad, pc')"] wstep_slots [OF work(5)] by (simp add: slots_def)
next
  case (collect i ad a ss r)
  then show ?thesis
    using kept_update [OF collect(3,4), where w' = "(ad, WLoop a ss)"] by (simp add: slots_def)
qed (auto simp: slots_def finish_def)

lemma reachable_slots:
  "reachable info ih pid base d peers s \<Longrightarrow> slots s \<le> length (i_Pieces info)"
proof (induction rule: reachable.induct)
  case init
  have "(\<Sum>w\<leftarrow>foldl (\<lambda>ws p. startWorker (Addr p) ws) ws peers. kept (snd w)) = (\<Sum>w\<leftarrow>ws. kept (snd w))" for ws
    by (induction peers arbitrary: ws) (simp_all add: startWorker_def)
  then show ?case by (simp add: slots_def init_sys_def all_work_def)
next
  case (step s t)
  then show ?case using dl_step_slots le_trans by blast
next
  case (peer_found s t)
  from peer_found(2) show ?case
    by (cases rule: spawn_step.cases) (use peer_found in \<open>auto simp: slots_def startWorker_def\<close>)
qed

end
