(* ===== verification/DownloadProps.thy ===== *)
theory DownloadProps
  imports DownloadInv
begin

text \<open>
  What the invariant gives for the download as a whole: a finished download is the torrent, no
  piece is ever lost, the queue never overflows, and while the collector runs some step is
  possible, so that the workers and the collector never block each other.
\<close>

section \<open>A finished download\<close>

lemma finished_download:
  assumes "reachable info infoHash peerID base d peers s" and "torrent_ok info base d"
    and "\<not> crashed (sy_sh s)" and "sy_coll s = Finished None"
  shows "\<exists>whole. int (length whole) = TotalLength info \<and>
    (\<forall>i < length (i_Pieces info). sha1 (take (nat (PieceSize info (int i)))
       (drop (i * nat (i_PieceLength info)) whole)) = i_Pieces info ! i) \<and>
    (\<forall>(p, c)\<in>set (file_contents (fileList info base) whole).
       c \<noteq> [] \<longrightarrow> dk (snd (sy_disk s)) p = Some c) \<and>
    (\<forall>p. p \<notin> fe_Path ` set (fileList info base) \<longrightarrow> dk (snd (sy_disk s)) p = dk d p)"
proof -
  have "inv info base d s" by (rule reachable_inv [OF assms(1,2)])
  then have D: "disk_facts info base d (sy_disk s)"
    "\<forall>i. 0 \<le> i \<and> i < NumPieces info \<longrightarrow> piece_on_disk info (sy_disk s) i"
    using assms(3,4) by (auto simp: inv_def inv_disk_def failed_def written_def)
  have "layout_ok info" using assms(2) by (simp add: torrent_ok_def)
  from all_pieces_files [OF this D] obtain whole where
    "int (length whole) = TotalLength info"
    "\<forall>i < length (i_Pieces info). sha1 (take (nat (PieceSize info (int i)))
       (drop (i * nat (i_PieceLength info)) whole)) = i_Pieces info ! i"
    "\<forall>(p, c)\<in>set (file_contents (fileList info base) whole).
       c \<noteq> [] \<longrightarrow> dk (snd (sy_disk s)) p = Some c" .
  moreover have "\<forall>p. p \<notin> fe_Path ` set (fileList info base) \<longrightarrow> dk (snd (sy_disk s)) p = dk d p"
    using D(1) by (simp add: disk_facts_def)
  ultimately show ?thesis by blast
qed

text \<open>C2. For a torrent with consistent lengths, a path of its own for every file, and files
  that are not there before the download (\<open>torrent_ok\<close>): when the collector ends without
  an error and nothing has panicked, in whatever order the workers and the collector ran, whatever
  the peers sent and however many peers were found on the way, there is data of the torrent's length
  of which every piece has its hash, every file that is not empty holds exactly its part of it, and
  no path that is not a file of the torrent has changed. Of empty files it says nothing.\<close>

theorem download_verified:
  assumes "reachable info infoHash peerID base d peers s" and "torrent_ok info base d"
    and "\<not> crashed (sy_sh s)" and "sy_coll s = Finished None"
  shows "\<exists>whole. int (length whole) = TotalLength info \<and>
    (\<forall>i < length (i_Pieces info). sha1 (take (nat (PieceSize info (int i)))
       (drop (i * nat (i_PieceLength info)) whole)) = i_Pieces info ! i) \<and>
    (\<forall>(p, c)\<in>set (file_contents (fileList info base) whole).
       c \<noteq> [] \<longrightarrow> dk (snd (sy_disk s)) p = Some c) \<and>
    (\<forall>p. p \<notin> fe_Path ` set (fileList info base) \<longrightarrow> dk (snd (sy_disk s)) p = dk d p)"
  by (rule finished_download [OF assms])

section \<open>No piece is lost\<close>

text \<open>Until the collector has written another piece, there is one left to write.\<close>

fun may_be_last :: "collector \<Rightarrow> bool" where
  "may_be_last (Written r) = True"
| "may_be_last (Counted r) = True"
| "may_be_last Deciding = True"
| "may_be_last (Finished e) = True"
| "may_be_last _ = False"

lemma advance_unfinished:
  "\<not> may_be_last (sy_coll (advance info s)) \<Longrightarrow> (\<not> may_be_last (sy_coll s) \<longrightarrow> sy_done s < NumPieces info) \<Longrightarrow>
    sy_done (advance info s) < NumPieces info"
  by (auto simp: collector_defs split: collector.splits prod.splits option.splits if_splits)

lemma running_unfinished:
  assumes "reachable info infoHash peerID base d peers s" and "0 < NumPieces info"
  shows "\<not> may_be_last (sy_coll s) \<longrightarrow> sy_done s < NumPieces info"
  using assms
proof (induction rule: reachable.induct)
  case init
  then show ?case by (simp add: init_sys_def)
next
  case (step s t)
  from step(2) show ?case
  proof (cases rule: dl_step.cases)
    case advance
    then show ?thesis using step advance_unfinished by blast
  qed (use step in \<open>auto simp: finish_def receive_def\<close>)
next
  case (peer_found s t)
  from peer_found(2) show ?case
    by (cases rule: spawn_step.cases) (use peer_found in simp)
qed

text \<open>C3. While the collector runs, whatever it is at, and nothing has panicked, no piece is lost:
  the pieces written, all of them on disk with their hash, are as many as it has counted. Every
  other piece is somewhere: before endgame mode the work queue, the workers and the collector hold
  each missing piece exactly once; in endgame mode the tracker offers exactly the missing pieces,
  but for the one the collector is writing. While the collector waits for a result not every
  piece is written. The queue, which holds as many entries as the torrent has pieces, never
  overflows, so a worker putting a piece back never blocks. This is for a torrent with at least
  one piece and consistent lengths, distinct paths and files not there before.\<close>

theorem no_piece_lost:
  assumes "reachable info infoHash peerID base d peers s" and "torrent_ok info base d"
    and "0 < NumPieces info" and "\<not> crashed (sy_sh s)" and "running s"
  shows "sy_done s = int (card (written s)) \<and> written s \<subseteq> {0..<NumPieces info} \<and>
    (\<forall>i\<in>written s. piece_on_disk info (sy_disk s) i) \<and>
    (IsActive (endgame (sy_sh s)) \<longrightarrow>
       pw_Index ` set (eg_pieces (endgame (sy_sh s))) \<union> unwritten (sy_coll s) = {0..<NumPieces info} - written s) \<and>
    (\<not> IsActive (endgame (sy_sh s)) \<longrightarrow>
       tokens s + mset_set (unwritten (sy_coll s)) = mset_set ({0..<NumPieces info} - written s)) \<and>
    (sy_coll s \<in> {Collecting, Draining} \<longrightarrow> sy_done s < NumPieces info) \<and>
    int (length (workCh (sy_sh s))) \<le> NumPieces info"
proof -
  have "inv info base d s" by (rule reachable_inv [OF assms(1,2)])
  then have ip: "inv_pieces info s" and id: "inv_disk info base d s" using assms(4) by (simp_all add: inv_def)
  let ?all = "{0..<NumPieces info}" and ?u = "unwritten (sy_coll s)"
  have u: "?u \<subseteq> flagged s" "untold (sy_coll s) \<subseteq> ?u" "finite ?u" "flagged s \<subseteq> ?all"
    using id by (cases "sy_coll s"; simp add: inv_disk_def)+
  have split: "?all - written s = (?all - flagged s) \<union> ?u" "(?all - flagged s) \<inter> ?u = {}"
    using u(1,4) unfolding written_def by blast+
  have eg: "(?all - (flagged s - untold (sy_coll s))) \<union> ?u = ?all - written s"
    using u(1,2,4) unfolding written_def by blast
  have "tokens s + mset_set (unwritten (sy_coll s)) = mset_set ({0..<NumPieces info} - written s)"
    if "\<not> IsActive (endgame (sy_sh s))"
    using ip assms(5) that mset_set_Union [OF _ u(3) split(2)] unfolding split(1) by (simp add: inv_pieces_def)
  moreover have "IsActive (endgame (sy_sh s)) \<longrightarrow>
      pw_Index ` set (eg_pieces (endgame (sy_sh s))) \<union> unwritten (sy_coll s) = {0..<NumPieces info} - written s"
    using ip assms(5) eg by (simp add: inv_pieces_def)
  moreover have "sy_coll s \<in> {Collecting, Draining} \<longrightarrow> sy_done s < NumPieces info"
    using running_unfinished [OF assms(1,3)] by auto
  moreover have "int (length (workCh (sy_sh s))) \<le> NumPieces info"
    using reachable_slots [OF assms(1)] by (simp add: slots_def NumPieces_def)
  moreover have "\<not> failed s" using assms(5) by (simp add: running_def failed_def)
  then have "\<forall>i\<in>written s. piece_on_disk info (sy_disk s) i" using id by (simp add: inv_disk_def)
  moreover have "written s \<subseteq> {0..<NumPieces info}" using id by (auto simp: inv_disk_def written_def)
  ultimately show ?thesis using ip assms(5) by (simp add: inv_pieces_def)
qed

section \<open>Some step is possible\<close>

text \<open>Only a worker waiting in the second \<^verbatim>\<open>select\<close> or handing over a result may
  have to wait for the others.\<close>

fun may_wait :: "wpc \<Rightarrow> bool" where
  "may_wait (WSelect a s) = True"
| "may_wait (WSend a s r) = True"
| "may_wait WExit = True"
| "may_wait _ = False"

lemma Dial_None: "\<exists>e. Dial None ih pid = Inl e"
  by (simp add: Dial_def)

lemma wstep_enabled:
  assumes "\<not> may_wait pc"
  shows "\<exists>t. wstep n ih pid (sh, pc) t"
proof (cases pc)
  case (WDial a)
  then show ?thesis using Dial_None [of ih pid] wstep.dial_done wstep.dial_fail by blast
next
  case (WLoop a s)
  obtain r e where "PickPiece (has_piece (ss_bitfield s)) (endgame sh) = (r, e)" by fastforce
  then consider er where "PickPiece (has_piece (ss_bitfield s)) (endgame sh) = (Inl er, e)"
    | "PickPiece (has_piece (ss_bitfield s)) (endgame sh) = (Inr None, e)"
    | pw where "PickPiece (has_piece (ss_bitfield s)) (endgame sh) = (Inr (Some pw), e)"
    by (metis not_None_eq sum.exhaust)
  then show ?thesis
  proof cases
  qed (use WLoop in \<open>blast intro: wstep.loop_done wstep.check wstep.pick wstep.pick_none wstep.pick_panic\<close>)+
next
  case (WMiss a s pw)
  then show ?thesis
    using wstep.miss_again [of s] wstep.miss_last [of s] by (metis linorder_not_less)
next
  case (WGot a s pw eg)
  consider e where "DownloadPiece pw None (ss_conn s) = Inl e"
    | r pool c where "DownloadPiece pw None (ss_conn s) = Inr (r, pool, c)" "pr_Err r = None"
    | r pool c where "DownloadPiece pw None (ss_conn s) = Inr (r, pool, c)" "pr_Err r = Some ErrChoked"
    | r pool c e where "DownloadPiece pw None (ss_conn s) = Inr (r, pool, c)" "pr_Err r = Some e" "e \<noteq> ErrChoked"
    by (metis option.exhaust prod_cases3 sum.exhaust)
  then show ?thesis
  proof cases
  qed (use WGot in \<open>blast intro: wstep.download_panic wstep.download wstep.choked wstep.download_fail\<close>)+
next
  case (WWait a s)
  consider "waitForUnchoke (ss_bitfield s) (ss_conn s) = None"
    | bf c where "waitForUnchoke (ss_bitfield s) (ss_conn s) = Some (bf, c)"
    by fastforce
  then show ?thesis
  proof cases
  qed (use WWait in \<open>blast intro: wstep.unchoked wstep.wait_fail\<close>)+
qed (use assms in simp_all)

text \<open>In the second \<^verbatim>\<open>select\<close> a worker waits only while nothing is in the queue.\<close>

lemma wstep_select:
  assumes "workCh sh \<noteq> [] \<or> egClosed sh"
  shows "\<exists>t. wstep n ih pid (sh, WSelect a s) t"
proof (cases "workCh sh")
  case Nil
  with assms show ?thesis using wstep.select_eg by blast
next
  case (Cons pw q)
  then show ?thesis using wstep.take_work wstep.take_miss by blast
qed

lemma worker_moves:
  assumes "\<not> crashed (sy_sh s)" and "(ad, pc) \<in> set (sy_workers s)"
    and "\<exists>t. wstep (NumPieces info) ih pid (sy_sh s, pc) t"
  shows "\<exists>t. dl_step info ih pid s t"
proof -
  obtain i where "i < length (sy_workers s)" "sy_workers s ! i = (ad, pc)"
    using assms(2) by (metis in_set_conv_nth)
  then show ?thesis using dl_step.work assms(1,3) by (metis surj_pair)
qed

lemma all_held_waiting:
  "\<forall>w\<in>set ws. (\<exists>a s. snd w = WSelect a s) \<or> snd w = WExit \<Longrightarrow> all_held ws = {#}"
  by (induction ws) (auto simp: all_held_def)

text \<open>Workers and collector never wait for each other forever.\<close>

lemma download_step:
  assumes "reachable info infoHash peerID base d peers s" and "torrent_ok info base d"
    and "0 < NumPieces info" and nc: "\<not> crashed (sy_sh s)" and run: "running s"
  shows "\<exists>t. dl_step info infoHash peerID s t"
proof -
  have ip: "inv_pieces info s" using reachable_inv [OF assms(1,2)] nc by (simp add: inv_def)
  consider (drain) "sy_coll s = Draining" | (busy) "busy (sy_coll s)" | (closed) "sy_coll s = Collecting" "sy_resultClosed s"
    | (gone) "\<not> sy_resultClosed s" "\<forall>w\<in>set (sy_workers s). snd w = WExit"
    | (move) ad pc where "(ad, pc) \<in> set (sy_workers s)" "\<not> may_wait pc"
    | (send) ad a ss r where "sy_coll s = Collecting" "\<not> sy_resultClosed s" "(ad, WSend a ss r) \<in> set (sy_workers s)"
    | (wait) ad a ss where "sy_coll s = Collecting" "(ad, WSelect a ss) \<in> set (sy_workers s)"
        "\<forall>w\<in>set (sy_workers s). (\<exists>a s. snd w = WSelect a s) \<or> snd w = WExit"
    using run unfolding running_def by (metis busy.elims(3) may_wait.elims(2) prod.collapse)
  then show ?thesis
  proof cases
    case drain
    then show ?thesis using nc dl_step.drain dl_step.drain_end by (metis list.exhaust)
  next
    case busy
    then show ?thesis using nc dl_step.advance by blast
  next
    case closed
    then show ?thesis using nc dl_step.range_end by blast
  next
    case gone
    then have "list_all (\<lambda>(ad, pc). pc = WExit) (sy_workers s)" by (auto simp: list_all_iff)
    then show ?thesis using gone nc dl_step.close_results dl_step.wait_done by (cases "sy_waited s") blast+
  next
    case move
    then show ?thesis using worker_moves [OF nc] wstep_enabled by blast
  next
    case send
    obtain i where "i < length (sy_workers s)" "sy_workers s ! i = (ad, WSend a ss r)"
      using send(3) by (metis in_set_conv_nth)
    then show ?thesis using send nc dl_step.collect by blast
  next
    case wait
    have "workCh (sy_sh s) \<noteq> [] \<or> egClosed (sy_sh s)"
    proof (rule ccontr)
      assume no: "\<not> ?thesis"
      then have "tokens s = {#}" using all_held_waiting [OF wait(3)] by (simp add: tokens_def)
      then have "mset_set ({0..<NumPieces info} - flagged s) = {#}"
        using ip run wait(1) no by (simp add: inv_pieces_def)
      then have "{0..<NumPieces info} \<subseteq> flagged s" by (simp add: mset_set_empty_iff)
      moreover have "finite (flagged s)" using reachable_inv [OF assms(1,2)] nc
        by (auto simp: inv_def inv_disk_def intro: finite_subset)
      ultimately have "NumPieces info \<le> int (card (flagged s))"
        using card_mono [of "flagged s" "{0..<NumPieces info}"] by simp
      moreover have "sy_done s = int (card (flagged s))" using ip run wait(1) by (simp add: inv_pieces_def written_def)
      ultimately show False using running_unfinished [OF assms(1,3)] wait(1) by simp
    qed
    then show ?thesis using worker_moves [OF nc wait(2)] wstep_select by blast
  qed
qed

end
