(* ===== verification/DownloadEnds.thy ===== *)
theory DownloadEnds
  imports DownloadProps
begin

text \<open>
  The download ends: what a session reads only shrinks what its connection delivers, a worker
  has four attempts and fifteen consecutive misses, so every worker and with them the whole
  download takes finitely many steps once no new peer is found.
\<close>

section \<open>What is read is gone\<close>

lemma flush_bytes_error: "flush_bytes bs c = Inl e \<Longrightarrow> e = ErrOther"
  by (auto simp: flush_bytes_def split: nat.splits)

lemma send_requests_error:
  "send_requests pw requested backlog c = (Some e, r', b', c') \<Longrightarrow> e = ErrOther"
proof (induction pw requested backlog c rule: send_requests.induct)
  case (1 pw requested backlog c)
  show ?case
  proof (cases "backlog < 16 \<and> requested < pw_Length pw")
    case False
    with 1 show ?thesis by (subst (asm) (2) send_requests.simps) auto
  next
    case True
    let ?bs = "if pw_Length pw - requested < BlockSize then pw_Length pw - requested else BlockSize"
    let ?msg = "NewRequest (word_of_int (pw_Index pw)) (word_of_int requested) (word_of_int ?bs)"
    show ?thesis
    proof (cases "SendMessage (Some ?msg) c")
      case (Inl e1)
      with 1(2) True show ?thesis
        by (subst (asm) send_requests.simps) (auto simp: Let_def SendMessage_def dest: flush_bytes_error)
    next
      case (Inr c1)
      then have "send_requests pw (requested + ?bs) (backlog + 1) c1 = (Some e, r', b', c')"
        using 1(2) True by (subst (asm) send_requests.simps) (simp add: Let_def)
      with 1(1) [OF True refl refl refl Inr] show ?thesis by simp
    qed
  qed
qed

lemma RecvMessage_not_choked: "RecvMessage c \<noteq> Inl ErrChoked"
  by (auto simp: RecvMessage_def ReadMessage_def ReadFull_def Let_def split: if_splits option.splits sum.splits)

lemma piece_loop_reads:
  "piece_loop pw dl requested backlog buf c = (e, buf', c') \<Longrightarrow> length (rx c') \<le> length (rx c) \<and>
    (dl < pw_Length pw \<and> (e = None \<or> e = Some ErrChoked) \<longrightarrow> length (rx c') < length (rx c))"
proof (induction "length (rx c)" arbitrary: dl requested backlog buf c rule: less_induct)
  case less
  from less(2) show ?case
  proof (cases rule: piece_loop_cases)
    case (send er r1 b1)
    then show ?thesis using send_requests_rx send_requests_error by fastforce
  next
    case (recv er r1 b1)
    then show ?thesis using send_requests_rx [OF recv(2)] RecvMessage_not_choked [of c'] by auto
  next
    case (stop er r1 b1 c1 msg)
    then show ?thesis using send_requests_rx [OF stop(2)] RecvMessage_length [OF stop(3)] by simp
  next
    case (go r1 b1 c1 msg c2 dl2 b2 buf2)
    have "length (rx c2) < length (rx c)"
      using send_requests_rx [OF go(2)] RecvMessage_length [OF go(3)] by simp
    from less(1) [OF this go(5)] this show ?thesis by linarith
  qed simp
qed

lemma DownloadPiece_reads:
  assumes "DownloadPiece pw pooled c = Inr (r, pool, c')" and "0 < pw_Length pw"
    and "pr_Err r = None \<or> pr_Err r = Some ErrChoked"
  shows "length (rx c') < length (rx c)"
proof (rule DownloadPiece_loop [OF assms(1)])
  fix arr e buf
  assume "piece_loop pw 0 0 0 (take (nat (pw_Length pw)) arr) c = (e, buf, c')"
    and "pr_Err r = (if e = None \<and> sha1 buf \<noteq> pw_Hash pw then Some ErrPieceHash else e)"
  then show ?thesis using piece_loop_reads assms(2,3) by (auto split: if_splits)
qed

lemma waitForUnchoke_reads:
  "waitForUnchoke bf c = Some (bf', c') \<Longrightarrow> length (rx c') < length (rx c)"
proof (induction "length (rx c)" arbitrary: bf c rule: less_induct)
  case less
  obtain m c1 where m: "RecvMessage c = Inr (m, c1)"
    using less(2) by (subst (asm) waitForUnchoke.simps) (auto split: sum.splits)
  note len = RecvMessage_length [OF m]
  have "c' = c1 \<or> (\<exists>bf1. waitForUnchoke bf1 c1 = Some (bf', c'))"
    using less(2) m by (subst (asm) waitForUnchoke.simps) (auto split: option.splits if_splits sum.splits)
  then show ?case using less(1) [OF len] len by force
qed

section \<open>A worker's steps\<close>

text \<open>
  The measures, in order: the attempt, the bytes the connection still delivers (and whether a
  piece is being downloaded), the misses in a row, and the place in the loop, which is left by
  the second \<^verbatim>\<open>select\<close> before endgame mode and by the pick of a piece in it.
\<close>

fun stage :: "wpc \<Rightarrow> nat" where
  "stage (WDial a) = 2 * (4 - a) + 2"
| "stage (WLoop a s) = 2 * (4 - a) + 1"
| "stage (WSelect a s) = 2 * (4 - a) + 1"
| "stage (WMiss a s pw) = 2 * (4 - a) + 1"
| "stage (WGot a s pw eg) = 2 * (4 - a) + 1"
| "stage (WWait a s) = 2 * (4 - a) + 1"
| "stage (WSend a s r) = 2 * (4 - a) + 1"
| "stage WExit = 0"

fun unread :: "wpc \<Rightarrow> nat" where
  "unread (WLoop a s) = 3 * length (rx (ss_conn s)) + 1"
| "unread (WSelect a s) = 3 * length (rx (ss_conn s)) + 1"
| "unread (WMiss a s pw) = 3 * length (rx (ss_conn s)) + 1"
| "unread (WGot a s pw eg) = 3 * length (rx (ss_conn s))"
| "unread (WWait a s) = 3 * length (rx (ss_conn s)) + 2"
| "unread (WSend a s r) = 3 * length (rx (ss_conn s)) + 2"
| "unread _ = 0"

fun patience :: "wpc \<Rightarrow> nat" where
  "patience (WLoop a s) = nat (15 - ss_misses s)"
| "patience (WSelect a s) = nat (15 - ss_misses s)"
| "patience (WMiss a s pw) = nat (15 - ss_misses s)"
| "patience _ = 0"

fun place :: "bool \<Rightarrow> wpc \<Rightarrow> nat" where
  "place eg (WLoop a s) = (if eg then 1 else 3)"
| "place eg (WSelect a s) = (if eg then 3 else 2)"
| "place eg (WMiss a s pw) = (if eg then 2 else 1)"
| "place eg _ = 0"

definition worker_less :: "((bool \<times> wpc) \<times> (bool \<times> wpc)) set" where
  "worker_less = measures [\<lambda>x. stage (snd x), \<lambda>x. unread (snd x), \<lambda>x. patience (snd x), \<lambda>x. place (fst x) (snd x)]"

lemma stage_next: "a \<le> maxReconnects \<Longrightarrow> stage (next_attempt a) < 2 * (4 - a) + 1"
  and stage_next': "\<not> a \<le> maxReconnects \<Longrightarrow> stage (next_attempt a) < 2 * (4 - a) + 1"
  by (auto simp: next_attempt_def maxReconnects_def)

lemma stage_drops [simp]: "stage (next_attempt a) < Suc (2 * (4 - a))" "stage (next_attempt a) < Suc (Suc (2 * (4 - a)))"
  using stage_next [of a] stage_next' [of a] by linarith+

lemma work_ok_pos: "layout_ok info \<Longrightarrow> work_ok info pw \<Longrightarrow> 0 < pw_Length pw"
  using PieceSize_layout [of info "pw_Index pw"] by (simp add: work_ok_def)

lemma wstep_less:
  assumes "wstep n ih pid (sh, pc) (sh', pc')" and "layout_ok info" and "wpc_ok info eg' pc"
  shows "((egClosed sh, pc'), (egClosed sh, pc)) \<in> worker_less"
  using assms(1)
proof (cases rule: wstep.cases)
  case (download pw pooled s r pool c a eg)
  then show ?thesis
    using DownloadPiece_reads [OF download(4)] work_ok_pos [OF assms(2)] assms(3) by (simp add: worker_less_def)
next
  case (choked pw pooled s r pool c a eg)
  then show ?thesis
    using DownloadPiece_reads [OF choked(4)] work_ok_pos [OF assms(2)] assms(3) by (simp add: worker_less_def)
next
  case (unchoked s bf c a)
  then show ?thesis using waitForUnchoke_reads [OF unchoked(4)] by (simp add: worker_less_def)
qed (simp_all add: worker_less_def)

section \<open>The system's steps\<close>

definition switches :: "sys \<Rightarrow> nat" where
  "switches s = (if crashed (sy_sh s) then 0 else 1) + (if sy_waited s then 0 else 1) +
     (if sy_resultClosed s then 0 else 1) + (if running s then 1 else 0)"

text \<open>What the collector has still to do with the result in its hands.\<close>

fun chores :: "collector \<Rightarrow> nat" where
  "chores (Received r) = 5"
| "chores (Writing r) = 4"
| "chores (Written r) = 3"
| "chores (Counted r) = 2"
| "chores Deciding = 1"
| "chores _ = 0"

definition sys_rank :: "sys \<Rightarrow> nat \<times> (bool \<times> wpc) multiset \<times> nat \<times> nat \<times> nat" where
  "sys_rank s = (if egClosed (sy_sh s) then 0 else 1,
     mset (map (\<lambda>w. (egClosed (sy_sh s), snd w)) (sy_workers s)), switches s, chores (sy_coll s), length (workCh (sy_sh s)))"

definition rank_less where
  "rank_less = less_than <*lex*> mult1 worker_less <*lex*> less_than <*lex*> less_than <*lex*> less_than"

lemma wf_rank_less: "wf rank_less"
  by (simp add: rank_less_def worker_less_def wf_lex_prod wf_mult1)

lemma workers_less:
  assumes "i < length ws" and "ws ! i = (ad, pc)" and "((eg, pc'), (eg, pc)) \<in> worker_less"
  shows "(mset (map (\<lambda>w. (eg, snd w)) (ws[i := (ad, pc')])), mset (map (\<lambda>w. (eg, snd w)) ws)) \<in> mult1 worker_less"
proof -
  let ?f = "\<lambda>w. (eg, snd w)"
  have ws: "ws = take i ws @ (ad, pc) # drop (Suc i) ws" using assms by (metis id_take_nth_drop)
  let ?M = "mset (map ?f (take i ws)) + mset (map ?f (drop (Suc i) ws))"
  have "mset (map ?f ws) = add_mset (eg, pc) ?M" by (subst ws) simp
  moreover have "mset (map ?f (ws[i := (ad, pc')])) = ?M + {#(eg, pc')#}"
    using assms(1) by (simp add: upd_conv_take_nth_drop)
  ultimately show ?thesis using assms(3) by (intro mult1I [where K = "{#(eg, pc')#}"]) simp_all
qed

lemma advance_switches:
  assumes "busy (sy_coll s)" and "\<not> crashed (sy_sh s)"
  shows "switches (advance info s) < switches s \<or>
    switches (advance info s) = switches s \<and> chores (sy_coll (advance info s)) < chores (sy_coll s)"
  using assms
  by (cases "sy_coll s")
    (auto simp: collector_defs switches_def running_def split: prod.split option.split)

lemma dl_step_less:
  assumes "dl_step info ih pid s t" and "inv info base d s" and "layout_ok info"
  shows "(sys_rank t, sys_rank s) \<in> rank_less"
  using assms(1)
proof (cases rule: dl_step.cases)
  case (work i ad pc sh pc')
  then have "list_all (\<lambda>w. wpc_ok info (egClosed (sy_sh s)) (snd w)) (sy_workers s)"
    using assms(2) by (simp add: inv_def inv_workers_def)
  from list_all_index [OF this work(3)] have "wpc_ok info (egClosed (sy_sh s)) pc" using work(4) by simp
  from wstep_less [OF work(5) assms(3) this] show ?thesis
    using work wstep_frame [OF work(5)] workers_less [OF work(3,4)] by (simp add: sys_rank_def rank_less_def)
next
  case (collect i ad a ss r)
  have "((eg, WLoop a ss), (eg, WSend a ss r)) \<in> worker_less" for eg by (simp add: worker_less_def)
  from workers_less [OF collect(3,4) this] show ?thesis
    using collect(1) by (simp add: sys_rank_def rank_less_def)
next
  case advance
  then show ?thesis using advance_switches [of s info] by (auto simp: sys_rank_def rank_less_def)
next
  case wait_done
  then show ?thesis by (simp add: sys_rank_def rank_less_def switches_def running_def)
next
  case (send_closed i ad a ss r)
  then show ?thesis by (simp add: sys_rank_def rank_less_def switches_def running_def)
next
  case (drain pw q)
  then show ?thesis by (simp add: sys_rank_def rank_less_def switches_def running_def)
next
  case drain_end
  then have "\<not> egClosed (sy_sh s)" using assms(2) by (simp add: inv_def inv_pieces_def running_def)
  then show ?thesis using drain_end by (simp add: sys_rank_def rank_less_def)
next
  case close_results
  then show ?thesis by (simp add: sys_rank_def rank_less_def switches_def running_def)
next
  case range_end
  then show ?thesis by (simp add: sys_rank_def rank_less_def switches_def running_def finish_def)
qed

lemma steps_reachable:
  "reachable info ih pid base d peers (f 0) \<Longrightarrow> (\<And>n. dl_step info ih pid (f n) (f (Suc n))) \<Longrightarrow>
    reachable info ih pid base d peers (f n)"
  by (induction n) (auto intro: reachable.step)

lemma no_infinite_run:
  assumes "torrent_ok info base d" and "reachable info infoHash peerID base d peers (f 0)"
  shows "\<not> (\<forall>n. dl_step info infoHash peerID (f n) (f (Suc n)))"
proof
  assume st: "\<forall>n. dl_step info infoHash peerID (f n) (f (Suc n))"
  have lay: "layout_ok info" using assms(1) by (simp add: torrent_ok_def)
  have r: "reachable info infoHash peerID base d peers (f n)" for n
    by (rule steps_reachable [where f = f, OF assms(2)]) (rule st [rule_format])
  have "(sys_rank (f (Suc n)), sys_rank (f n)) \<in> rank_less" for n
    by (rule dl_step_less [OF st [rule_format] reachable_inv [OF r assms(1)] lay])
  then have "\<exists>g. \<forall>n. (g (Suc n), g n) \<in> rank_less"
    by (intro exI [of _ "\<lambda>n. sys_rank (f n)"]) simp
  then show False using wf_rank_less unfolding wf_iff_no_infinite_down_chain by blast
qed

text \<open>C4. The download of a torrent with at least one piece, consistent lengths, distinct paths
  and files not there before ends: whatever the peers send and however the goroutines interleave,
  from no reachable state is there an infinite run without newly found peers, and a run that
  cannot go on has ended with the collector's result, unless it ended with a panic: the workers
  and the collector never wait for each other. Without pieces they do (\<open>zero_pieces_hang\<close>).\<close>

theorem download_terminates:
  assumes "torrent_ok info base d" and "0 < NumPieces info"
    and "reachable info infoHash peerID base d peers s"
  shows "(\<nexists>f. f 0 = s \<and> (\<forall>n. dl_step info infoHash peerID (f n) (f (Suc n)))) \<and>
    (\<forall>t. (dl_step info infoHash peerID)\<^sup>*\<^sup>* s t \<and> (\<nexists>u. dl_step info infoHash peerID t u) \<longrightarrow>
       crashed (sy_sh t) \<or> (\<exists>r. sy_coll t = Finished r))"
proof (intro conjI allI impI)
  show "\<nexists>f. f 0 = s \<and> (\<forall>n. dl_step info infoHash peerID (f n) (f (Suc n)))"
    using no_infinite_run [OF assms(1)] assms(3) by blast
next
  fix t assume t: "(dl_step info infoHash peerID)\<^sup>*\<^sup>* s t \<and> (\<nexists>u. dl_step info infoHash peerID t u)"
  from t [THEN conjunct1] assms(3) have "reachable info infoHash peerID base d peers t"
    by (induction rule: rtranclp_induct) (auto intro: reachable.step)
  from download_step [OF this assms(1,2)] t show "crashed (sy_sh t) \<or> (\<exists>r. sy_coll t = Finished r)"
    by (auto simp: running_def)
qed

end
