(* ===== verification/DownloadSafe.thy ===== *)
theory DownloadSafe
  imports DownloadEnds
begin

text \<open>
  The download does not panic: writing never does, whatever system calls fail, and no step of the
  workers or the collector does before the offset of the endgame tracker overflows; and it fails
  only for the reasons it reports. Metadata with inconsistent lengths can panic
  (\<open>DownloadPiece_panics\<close>, \<open>negative_piece_size\<close>), and so can a worker started for a peer found late
  (\<open>late_worker_panics\<close> in \<open>DownloadRun\<close>).
\<close>

section \<open>Writing does not panic\<close>

lemma openFile_no_panic:
  "handles_ok (w, d) \<Longrightarrow> fst (openFile p (w, d)) \<noteq> Inl Panic"
  by (auto simp: handles_ok_def openFile_def Let_def split: option.splits)

lemma write_segments_no_panic:
  assumes "handles_ok (w, d)" and "list_all (\<lambda>f. 0 \<le> fe_Length f) files"
    and "0 \<le> fo" and "fo + (\<Sum>f\<leftarrow>files. fe_Length f) < 2 ^ 63"
    and "0 \<le> ps" and "ps \<le> pe" and "pe < 2 ^ 63" and "int (length data) = pe - ps"
    and "fo < pe \<Longrightarrow> off = max 0 (fo - ps)"
  shows "fst (write_segments data off (segments_from ps pe fo files) (w, d)) \<noteq> Some Panic"
  using assms
proof (induction files arbitrary: fo off w d)
  case Nil
  then show ?case by simp
next
  case (Cons f files)
  let ?fe = "fo + fe_Length f"
  have len: "0 \<le> fe_Length f" "0 \<le> (\<Sum>f\<leftarrow>files. fe_Length f)"
    using Cons.prems(2) by (auto simp: list_all_iff intro!: sum_list_nonneg)
  then have fe: "wrap64 ?fe = ?fe" "0 \<le> ?fe" "?fe < 2 ^ 63"
    using Cons.prems(3,4) by (auto intro!: wrap64_nonneg_id)
  consider (skip) "?fe \<le> ps" | (past) "ps < ?fe" "pe \<le> fo" | (overlap) "ps < ?fe" "fo < pe"
    by linarith
  then show ?case
  proof cases
    case skip
    then have "fst (write_segments data off (segments_from ps pe ?fe files) (w, d)) \<noteq> Some Panic"
      using Cons.prems fe len by (intro Cons.IH) auto
    with skip fe show ?thesis by simp
  next
    case past
    with fe show ?thesis by simp
  next
    case overlap
    define start where "start = max ps fo"
    define stop where "stop = min pe ?fe"
    have "fo \<le> ?fe" using len by simp
    note ar = overlap_arith [OF Cons.prems(3,5) overlap(2,1) Cons.prems(6) this Cons.prems(7) start_def stop_def]
    have off: "off = start - ps" using Cons.prems(9) overlap by (simp add: start_def)
    have b: "0 \<le> off" "off \<le> stop - ps" "stop - ps \<le> int (length data)"
      using ar(2-4) Cons.prems(8) off by linarith+
    have seg: "segments_from ps pe fo (f # files) = \<lparr>sg_Path = fe_Path f, sg_Offset = start - fo,
        sg_Length = stop - start\<rparr> # segments_from ps pe ?fe files"
      using overlap fe ar(5,6) by (simp add: Let_def start_def stop_def)
    obtain r w1 d1 where o: "openFile (fe_Path f) (w, d) = (r, w1, d1)" by (metis surj_pair)
    show ?thesis
    proof (cases r)
      case (Inl e)
      then show ?thesis using o openFile_no_panic [OF Cons.prems(1), of "fe_Path f"]
        unfolding seg by simp
    next
      case (Inr g)
      note opened = openFile_ok [OF o [unfolded Inr] Cons.prems(1)]
      have "fst (write_segments data (stop - ps) (segments_from ps pe ?fe files) (w1, d2)) \<noteq> Some Panic"
        if "handles_ok (w1, d2)" for d2
        using Cons.prems fe overlap that by (intro Cons.IH) (auto simp: stop_def)
      moreover obtain e d2 where wa: "file_WriteAt g (take (nat (stop - ps - off)) (drop (nat off) data)) (start - fo) d1 = (e, d2)"
        by (rule prod.exhaust)
      then have "e \<noteq> Some Panic" "handles_ok (w1, d2)"
        using opened by (auto simp: file_WriteAt_def handles_ok_def split: if_splits option.splits)
      ultimately show ?thesis using o b ar(7) wa unfolding seg Inr by (auto simp: Let_def off split: option.split)
    qed
  qed
qed

lemma WritePiece_no_panic:
  assumes "writer_ok s" and "0 \<le> i" and "i < NumPieces (w_info (fst s))"
    and "int (length data) = PieceSize (w_info (fst s)) i"
  shows "fst (WritePiece i data s) \<noteq> Some Panic"
proof -
  obtain w d where s: "s = (w, d)" by (rule prod.exhaust)
  have lay: "layout_ok (w_info w)" using assms(1) s by (simp add: writer_ok_def)
  note b = piece_in_range [OF lay assms(2) assms(3) [unfolded s fst_conv]]
  show ?thesis
    using assms b data_length_bound [OF lay]
    unfolding s WritePiece_def pieceSegments_def Let_def fst_conv b(4,5)
    by (intro write_segments_no_panic) (auto simp: writer_ok_def)
qed

section \<open>No step panics\<close>

lemma wstep_safe:
  assumes "wstep (NumPieces info) ih pid (sh, pc) (sh', pc')" and "\<not> crashed sh"
    and "wpc_ok info (egClosed sh) pc" and "layout_ok info" and "i_PieceLength info \<le> max_alloc"
    and "offset_ok (endgame sh)"
  shows "\<not> crashed sh' \<and> eg_offset (endgame sh) \<le> eg_offset (endgame sh') \<and>
    eg_offset (endgame sh') \<le> eg_offset (endgame sh) + 1"
  using assms(1)
proof (cases rule: wstep.cases)
  case (download_panic pw pooled s er a eg)
  then have "work_ok info pw" using assms(3) by simp
  then have "0 < pw_Length pw" "pw_Length pw \<le> max_alloc"
    using PieceSize_layout(3,4) [OF assms(4), of "pw_Index pw"] assms(5) by (auto simp: work_ok_def)
  with download_panic DownloadPiece_panics [of pw pooled "ss_conn s"] show ?thesis by auto
qed (use assms(2) PickPiece_find [OF assms(6)] in \<open>auto split: if_splits\<close>)

lemma eg_offset_frame [simp]:
  "eg_offset (snd (Complete i e)) = eg_offset e" "eg_offset (Activate e) = eg_offset e"
  "eg_offset (AddPiece pw e) = eg_offset e"
  by (simp_all add: Complete_def Activate_def AddPiece_def Let_def split: if_splits)

lemma eg_offset_fold [simp]: "eg_offset (fold AddPiece ps e) = eg_offset e"
  by (induction ps arbitrary: e) simp_all

lemma eg_offset_after [simp]: "eg_offset (eg_after i e) = eg_offset e"
  by (simp add: eg_after_def)

lemma advance_safe:
  assumes "inv info base d s" and "\<not> crashed (sy_sh s)"
  shows "\<not> crashed (sy_sh (advance info s)) \<and>
    eg_offset (endgame (sy_sh (advance info s))) = eg_offset (endgame (sy_sh s))"
proof -
  have "fst (WritePiece (pr_Index r) (pr_Data r) (sy_disk s)) \<noteq> Some Panic" if "sy_coll s = Writing r" for r
    using assms that
    by (intro WritePiece_no_panic) (auto simp: inv_def inv_disk_def running_def failed_def disk_facts_def result_ok_def)
  then show ?thesis
    using assms(2) by (auto simp: collector_defs split: collector.split prod.split option.split)
qed

text \<open>What the invariant gives where a worker moves.\<close>

lemma inv_pc:
  assumes "inv info base d s" and "\<not> crashed (sy_sh s)" and "i < length (sy_workers s)"
    and "sy_workers s ! i = (ad, pc)"
  shows "wpc_ok info (egClosed (sy_sh s)) pc"
  using list_all_index [OF _ assms(3)] assms by (fastforce simp: inv_def inv_workers_def)

text \<open>Runs of the download itself, without peers found later.\<close>

definition dl_run :: "info \<Rightarrow> bytes \<Rightarrow> bytes \<Rightarrow> bytes \<Rightarrow> os \<Rightarrow> peer list \<Rightarrow> sys \<Rightarrow> bool" where
  "dl_run info infoHash peerID base d peers = (dl_step info infoHash peerID)\<^sup>*\<^sup>* (init_sys info base d peers)"

lemma run_init: "dl_run info ih pid base d peers (init_sys info base d peers)"
  by (simp add: dl_run_def)

lemma run_step: "dl_run info ih pid base d peers s \<Longrightarrow> dl_step info ih pid s t \<Longrightarrow> dl_run info ih pid base d peers t"
  by (simp add: dl_run_def)

lemma run_reachable: "dl_run info ih pid base d peers s \<Longrightarrow> reachable info ih pid base d peers s"
  unfolding dl_run_def by (induction rule: rtranclp_induct) (auto intro: reachable.intros)

text \<open>The wait for the workers ends, and the result channel is closed, only when every worker is gone,
  and without peers found later it stays so. The offset of the tracker counts at most the steps.\<close>

definition safe_at :: "nat \<Rightarrow> sys \<Rightarrow> bool" where
  "safe_at k s \<longleftrightarrow> \<not> crashed (sy_sh s) \<and> 0 \<le> eg_offset (endgame (sy_sh s)) \<and>
     eg_offset (endgame (sy_sh s)) \<le> int k \<and>
     (sy_resultClosed s \<longrightarrow> sy_waited s) \<and> (sy_waited s \<longrightarrow> list_all (\<lambda>w. snd w = WExit) (sy_workers s))"

lemma safe_step:
  assumes "dl_step info ih pid s t" and safe: "safe_at k s" and inv: "inv info base d s"
    and "int k < 2 ^ 63 - 1" and lay: "layout_ok info" and "i_PieceLength info \<le> max_alloc"
  shows "safe_at (Suc k) t"
proof -
  have nc: "\<not> crashed (sy_sh s)" and o: "offset_ok (endgame (sy_sh s))"
    and gone: "sy_waited s \<Longrightarrow> list_all (\<lambda>w. snd w = WExit) (sy_workers s)"
    using safe assms(4) by (simp_all add: safe_at_def offset_ok_def)
  have left: "\<not> sy_waited s" "\<not> sy_resultClosed s" if "i < length (sy_workers s)" "sy_workers s ! i = (ad, pc)" "pc \<noteq> WExit" for i ad pc
    using list_all_index [OF gone that(1)] that(2,3) safe by (auto simp: safe_at_def)
  show ?thesis
    using assms(1)
  proof (cases rule: dl_step.cases)
    case (work i ad pc sh pc')
    then have "pc \<noteq> WExit" by (auto elim: wstep_exit)
    with work left wstep_safe [OF work(5) nc inv_pc [OF inv nc work(3,4)] lay assms(6) o] safe show ?thesis
      by (auto simp: safe_at_def)
  next
    case (collect i ad a ss r)
    then show ?thesis using left safe by (auto simp: safe_at_def)
  next
    case advance
    then show ?thesis using advance_safe [OF inv nc] safe by (simp add: safe_at_def)
  next
    case (send_closed i ad a ss r)
    then show ?thesis using left by auto
  qed (use safe in \<open>auto simp: safe_at_def list_all_iff finish_def\<close>)
qed

lemma safe_steps:
  assumes "(dl_step info ih pid ^^ n) (init_sys info base d peers) s" and "int n \<le> 2 ^ 63 - 1"
    and ok: "torrent_ok info base d" and "i_PieceLength info \<le> max_alloc"
  shows "safe_at n s \<and> dl_run info ih pid base d peers s"
  using assms(1,2)
proof (induction n arbitrary: s)
  case 0
  then have s: "s = init_sys info base d peers" by simp
  show ?case unfolding s using run_init by (simp add: safe_at_def) (simp add: init_sys_def newEndgameTracker_def)
next
  case (Suc n)
  obtain t where t: "(dl_step info ih pid ^^ n) (init_sys info base d peers) t" "dl_step info ih pid t s"
    using Suc.prems(1) by (rule relpowp_Suc_E)
  have k: "int n < 2 ^ 63 - 1" using Suc.prems(2) by simp
  then have "safe_at n t" "dl_run info ih pid base d peers t" using Suc.IH [OF t(1)] by simp_all
  moreover from this(2) have "inv info base d t" using reachable_inv run_reachable ok by blast
  ultimately show ?case
    using safe_step [OF t(2) _ _ k] run_step t(2) ok assms(4) by (auto simp: torrent_ok_def)
qed

section \<open>Why a download fails\<close>

lemma advance_fails:
  assumes "inv info base d s" and "\<not> crashed (sy_sh s)"
  shows "os_ok (snd (sy_disk (advance info s))) = os_ok (snd (sy_disk s)) \<and>
    (\<forall>e. busy (sy_coll s) \<longrightarrow> sy_coll (advance info s) = Finished (Some e) \<longrightarrow> \<not> os_ok (snd (sy_disk s)))"
proof (cases "\<exists>r. sy_coll s = Writing r")
  case True
  then obtain r where co: "sy_coll s = Writing r" by blast
  then have ok: "writer_ok (sy_disk s)" "w_info (fst (sy_disk s)) = info" "result_ok info r"
    using assms by (simp_all add: inv_def inv_disk_def running_def failed_def disk_facts_def)
  obtain e w d where W: "WritePiece (pr_Index r) (pr_Data r) (sy_disk s) = (e, w, d)" by (metis surj_pair)
  have "os_ok (snd (sy_disk s)) \<Longrightarrow> e = None"
    using WritePiece_no_error [of "fst (sy_disk s)" "snd (sy_disk s)" "pr_Index r" "pr_Data r"] ok W
    by (auto simp: result_ok_def)
  then show ?thesis
    using WritePiece_os_ok [OF W] W co by (cases e) (auto simp: collector_defs Close_writer_def)
next
  case False
  then show ?thesis
    by (cases "sy_coll s") (auto simp: collector_defs Close_writer_def split: prod.split)
qed

text \<open>What fails a download: a call of the operating system, or all workers gone before the last
  piece.\<close>

definition blame :: "info \<Rightarrow> os \<Rightarrow> sys \<Rightarrow> bool" where
  "blame info d s \<longleftrightarrow> os_ok (snd (sy_disk s)) = os_ok d \<and>
     (\<forall>e. sy_coll s = Finished (Some e) \<longrightarrow>
        \<not> os_ok d \<or> (e = ErrAllFailed \<and> sy_resultClosed s \<and> flagged s \<noteq> {0..<NumPieces info}))"

lemma blame_step:
  assumes "dl_step info ih pid s t" and b: "blame info d s" and inv: "inv info base d0 s"
    and nc: "\<not> crashed (sy_sh s)"
  shows "blame info d t"
  using assms(1)
proof (cases rule: dl_step.cases)
  case (collect i ad a ss r)
  then show ?thesis using b by (auto simp: blame_def receive_def)
next
  case advance
  then have "\<forall>e. sy_coll s \<noteq> Finished e" by auto
  then show ?thesis using advance advance_fails [OF inv nc] b by (simp add: blame_def)
next
  case range_end
  then have "sy_done s = int (card (flagged s))"
    using inv nc by (simp add: inv_def inv_pieces_def running_def written_def)
  then have "flagged s \<noteq> {0..<NumPieces info}" if "sy_done s < NumPieces info"
    using that by (auto simp: NumPieces_def)
  then show ?thesis
    using range_end b by (auto simp: blame_def finish_def flagged_def Close_writer_def split: prod.splits)
qed (use b in \<open>simp_all add: blame_def flagged_def\<close>)

lemma blame_steps:
  assumes "dl_run info ih pid base d peers s" and "torrent_ok info base d" and "\<not> crashed (sy_sh s)"
  shows "blame info d s"
  using assms(1,3) unfolding dl_run_def
proof (induction rule: rtranclp_induct)
  case base
  show ?case by (simp add: blame_def init_sys_def)
next
  case (step t s)
  have "\<not> crashed (sy_sh t)" using step(2) by (cases rule: dl_step.cases) simp_all
  moreover have "inv info base d t"
    using reachable_inv run_reachable step(1) assms(2) unfolding dl_run_def by blast
  ultimately show ?case using blame_step step by blast
qed

text \<open>C5. The download does not panic and its errors are true: for metadata with consistent
  lengths, distinct paths, at least one piece and pieces of at most 2^48 bytes, which fit in memory,
  and files not there before, no run of the workers and the collector without peers found later,
  whatever the peers send, however the goroutines interleave and whichever system calls fail, reaches a panic within
  2^63 - 1 steps. Where a run cannot go on the collector has returned: with every piece written;
  or with \<^verbatim>\<open>ErrAllFailed\<close>, every worker gone and a piece missing; or, only when a
  directory, open or write call can fail, with an error.\<close>

theorem no_panic:
  assumes "torrent_ok info base d" and "i_PieceLength info \<le> max_alloc" and "0 < NumPieces info"
    and "(dl_step info infoHash peerID ^^ n) (init_sys info base d peers) s" and "int n \<le> 2 ^ 63 - 1"
  shows "\<not> crashed (sy_sh s) \<and>
    ((\<exists>t. dl_step info infoHash peerID s t) \<or>
     (sy_coll s = Finished None \<and> flagged s = {0..<NumPieces info}) \<or>
     (sy_coll s = Finished (Some ErrAllFailed) \<and> list_all (\<lambda>w. snd w = WExit) (sy_workers s) \<and>
        flagged s \<noteq> {0..<NumPieces info}) \<or>
     (\<not> os_ok d \<and> (\<exists>e. sy_coll s = Finished (Some e))))"
proof -
  note S = safe_steps [OF assms(4,5,1,2)]
  have r: "reachable info infoHash peerID base d peers s" using S run_reachable by blast
  have nc: "\<not> crashed (sy_sh s)" using S by (simp add: safe_at_def)
  consider (run) "running s" | (ok) "sy_coll s = Finished None" | (err) e where "sy_coll s = Finished (Some e)"
    by (metis option.exhaust running_def)
  then show ?thesis
  proof cases
    case run
    then show ?thesis using download_step [OF r assms(1,3) nc] nc by blast
  next
    case ok
    then show ?thesis using reachable_inv [OF r assms(1)] nc by (simp add: inv_def inv_disk_def)
  next
    case err
    then show ?thesis
      using blame_steps [OF S [THEN conjunct2] assms(1) nc] S nc by (auto simp: blame_def safe_at_def)
  qed
qed

end
