(* ===== verification/DownloadSeed.thy ===== *)
theory DownloadSeed
  imports DownloadSafe
begin

text \<open>
  Every download can finish: for any torrent with consistent lengths, a disk that does not fail
  and one connection to a peer that has all pieces and sends what it is asked for, there is a run
  in which the collector ends without an error. So no guard of the workers, the queue, the
  collector or the endgame tracker keeps a download from its end.
\<close>

section \<open>One piece\<close>

definition block_msg :: "int \<Rightarrow> bytes \<Rightarrow> nat \<Rightarrow> message option" where
  "block_msg i data j = Some \<lparr>ID = MsgPiece, Payload = put_u32 (word_of_int i) @
     put_u32 (of_nat (j * 16384)) @ take 16384 (drop (j * 16384) data)\<rparr>"

definition block_count :: "bytes \<Rightarrow> nat" where
  "block_count data = (length data + 16383) div 16384"

definition piece_msgs :: "int \<Rightarrow> bytes \<Rightarrow> message option list" where
  "piece_msgs i data = map (block_msg i data) [0..<block_count data]"

definition piece_stream :: "int \<Rightarrow> bytes \<Rightarrow> bytes" where
  "piece_stream i data = concat (map WriteMessage (piece_msgs i data))"

lemma block_count_bounds:
  "length data \<le> block_count data * 16384" "j < block_count data \<Longrightarrow> j * 16384 < length data"
  by (simp_all add: block_count_def)

lemma block_of_msg:
  assumes "j * 16384 < length data" and "int (length data) = pw_Length pw" and "pw_Length pw \<le> 2 ^ 32"
    and "0 \<le> pw_Index pw" and "pw_Index pw < 2 ^ 32"
  shows "block_of pw (block_msg (pw_Index pw) data j) = Some (j * 16384, take 16384 (drop (j * 16384) data))"
proof -
  have "int (j * 16384) < 2 ^ 32" using assms(1-3) by linarith
  then have "j * 16384 < 2 ^ 32" by (metis of_nat_less_iff of_nat_numeral of_nat_power)
  define w :: "32 word" where "w = of_nat (j * 16384)"
  have w: "unat w = j * 16384" unfolding w_def using \<open>j * 16384 < 2 ^ 32\<close> by (subst unat_of_nat) simp
  have i: "uint (word_of_int (pw_Index pw) :: 32 word) = pw_Index pw"
    using assms(4,5) by (simp add: uint_word_of_int)
  have "int (j * 16384) + int (length (take 16384 (drop (j * 16384) data))) \<le> pw_Length pw"
    using assms(1,2) by simp
  with w have "uint w + int (length (take 16384 (drop (j * 16384) data))) \<le> pw_Length pw"
    by (metis uint_nat)
  then show ?thesis
    unfolding block_of_def block_msg_def w_def [symmetric] by (simp add: ParsePiece_def i w)
qed

lemma blocks_msgs:
  assumes "list_all (\<lambda>j. j * 16384 < length data) js" and "int (length data) = pw_Length pw"
    and "pw_Length pw \<le> 2 ^ 32" and "0 \<le> pw_Index pw" and "pw_Index pw < 2 ^ 32"
  shows "blocks pw (map (block_msg (pw_Index pw) data) js) =
    map (\<lambda>j. (j * 16384, take 16384 (drop (j * 16384) data))) js"
  using assms(1) by (induction js) (simp_all add: block_of_msg [OF _ assms(2-5)])

lemma block_bytes_msgs:
  "block_bytes (map (\<lambda>j. (j * 16384, take 16384 (drop (j * 16384) data))) [0..<n]) =
    int (min (n * 16384) (length data))"
  by (induction n) (auto simp: block_bytes_def min_def)

lemma piece_msgs_ok: "list_all msg_fits (piece_msgs i data)" "list_all harmless (piece_msgs i data)"
  by (simp_all add: piece_msgs_def list_all_iff block_msg_def msg_fits_def MaxMessageLen_def harmless_def msg_ids
      min.strict_coboundedI2)

lemma DownloadPiece_sends:
  assumes "DownloadPiece pw pooled c = Inr (r, pool, c')"
  shows "sends_ok c \<le> sends_ok c' + 16 + (length (rx c) - length (rx c'))"
proof (rule DownloadPiece_loop [OF assms])
  fix arr e buf
  assume arr: "piece_buffer pooled (pw_Length pw) = Inr arr"
    and loop: "piece_loop pw 0 0 0 (take (nat (pw_Length pw)) arr) c = (e, buf, c')"
  have k: "0 = min (int 0 * BlockSize) (pw_Length pw)" using piece_buffer_length [OF arr] by simp
  obtain n where n: "c' = (sent pw 0 n c)\<lparr>rx := rx c'\<rparr>" "n \<le> sends_ok c" "length (rx c') \<le> length (rx c)"
    "13 * int n \<le> 13 * 16 + int (length (rx c)) - int (length (rx c'))"
    using piece_loop_spec [OF k _ loop] by (auto simp: piece_flow_def)
  have "sends_ok c' = sends_ok c - n"
    using n(1) by (metis conn.select_convs(3) conn.surjective conn.update_convs(1) sent_sel(2))
  then show ?thesis using n(2-4) by linarith
qed

text \<open>The piece is downloaded, what follows it on the stream is left, and so are most sends.\<close>

definition piece_sends :: "int \<Rightarrow> bytes \<Rightarrow> nat" where
  "piece_sends i data = length data + length (piece_stream i data) + 16"

lemma seed_piece:
  assumes "0 < pw_Length pw" and "pw_Length pw \<le> 2 ^ 32" and "0 \<le> pw_Index pw" and "pw_Index pw < 2 ^ 32"
    and "int (length data) = pw_Length pw" and "sha1 data = pw_Hash pw"
    and "rx c = piece_stream (pw_Index pw) data @ rest" and "piece_sends (pw_Index pw) data + k \<le> sends_ok c"
  shows "\<exists>c'. DownloadPiece pw None c =
      Inr (\<lparr>pr_Index = pw_Index pw, pr_Data = data, pr_Err = None\<rparr>, None, c') \<and> rx c' = rest \<and> k \<le> sends_ok c'"
proof -
  let ?n = "block_count data"
  let ?b = "\<lambda>j. (j * 16384, take 16384 (drop (j * 16384) data))"
  note cnt = block_count_bounds [where data = data]
  have len: "0 < length data" using assms(1,5) by linarith
  then have pos: "0 < ?n" using cnt(1) by (metis le_0_eq mult_0 not_gr_zero)
  have bl: "blocks pw (piece_msgs (pw_Index pw) data) = map ?b [0..<?n]"
    unfolding piece_msgs_def by (rule blocks_msgs) (use assms cnt(2) in \<open>auto simp: list_all_iff\<close>)
  have "butlast [0..<?n] = [0..<?n - 1]" using pos by (cases ?n) simp_all
  then have bl': "blocks pw (butlast (piece_msgs (pw_Index pw) data)) = map ?b [0..<?n - 1]"
    unfolding piece_msgs_def map_butlast [symmetric]
    using assms cnt(2) by (simp only:) (intro blocks_msgs, auto simp: list_all_iff)
  have "\<exists>c'. DownloadPiece pw None c =
      Inr (\<lparr>pr_Index = pw_Index pw, pr_Data = data, pr_Err = None\<rparr>, None, c') \<and> rx c' = rest"
  proof (rule honest_peer_run [where ms = "piece_msgs (pw_Index pw) data"])
    show "pw_Length pw \<le> max_alloc" using assms(2) by (simp add: max_alloc_def)
    show "rx c = concat (map WriteMessage (piece_msgs (pw_Index pw) data)) @ rest"
      using assms(7) by (simp add: piece_stream_def)
    show "pw_Length pw \<le> int (sends_ok c) * BlockSize"
      using assms(5,8) by (simp add: piece_sends_def BlockSize_def)
    show "\<forall>(b, d)\<in>set (blocks pw (piece_msgs (pw_Index pw) data)). d = take (length d) (drop b data)"
      by (auto simp: bl min_def)
    show "\<forall>i<length data. \<exists>(b, d)\<in>set (blocks pw (piece_msgs (pw_Index pw) data)). b \<le> i \<and> i < b + length d"
    proof (intro allI impI)
      fix i assume i: "i < length data"
      then have "i div 16384 < ?n" using cnt(1) by (simp add: less_mult_imp_div_less)
      moreover have "i div 16384 * 16384 \<le> i" "i < i div 16384 * 16384 + 16384" by simp_all
      ultimately show "\<exists>(b, d)\<in>set (blocks pw (piece_msgs (pw_Index pw) data)). b \<le> i \<and> i < b + length d"
        unfolding bl using i by (intro bexI [of _ "?b (i div 16384)"]) auto
    qed
    show "block_bytes (blocks pw (piece_msgs (pw_Index pw) data)) = pw_Length pw"
      using cnt(1) assms(5) by (simp add: bl block_bytes_msgs)
    show "block_bytes (blocks pw (butlast (piece_msgs (pw_Index pw) data))) < pw_Length pw"
      using cnt(2) [of "?n - 1"] pos assms(5) by (simp add: bl' block_bytes_msgs)
  qed (use assms piece_msgs_ok in simp_all)
  then obtain c' where c: "DownloadPiece pw None c =
      Inr (\<lparr>pr_Index = pw_Index pw, pr_Data = data, pr_Err = None\<rparr>, None, c')" "rx c' = rest"
    by blast
  have "k \<le> sends_ok c'"
    using DownloadPiece_sends [OF c(1)] c(2) assms(7,8) by (simp add: piece_sends_def)
  with c show ?thesis by blast
qed

section \<open>A worker in front of the others\<close>

definition with_worker :: "bytes \<times> wpc \<Rightarrow> sys \<Rightarrow> sys" where
  "with_worker w s = s\<lparr>sy_workers := w # sy_workers s\<rparr>"

lemma with_worker_sel [simp]:
  "sy_sh (with_worker w s) = sy_sh s" "sy_workers (with_worker w s) = w # sy_workers s"
  "sy_coll (with_worker w s) = sy_coll s" "sy_resultClosed (with_worker w s) = sy_resultClosed s"
  "sy_completed (with_worker w s) = sy_completed s" "sy_done (with_worker w s) = sy_done s"
  "sy_disk (with_worker w s) = sy_disk s" "sy_stats (with_worker w s) = sy_stats s"
  "sy_waited (with_worker w s) = sy_waited s"
  by (simp_all add: with_worker_def)

text \<open>Its steps are steps of the system.\<close>

lemma wsteps_crashed: "(wstep n ih pid)\<^sup>*\<^sup>* a b \<Longrightarrow> crashed (fst a) \<Longrightarrow> crashed (fst b)"
  by (induction rule: rtranclp_induct) (auto dest: wstep_frame)

lemma with_worker_steps:
  assumes "(wstep (NumPieces info) ih pid)\<^sup>*\<^sup>* (sy_sh s, pc) (sh', pc')" and "\<not> crashed sh'"
  shows "(dl_step info ih pid)\<^sup>*\<^sup>* (with_worker (ad, pc) s) (with_worker (ad, pc') (s\<lparr>sy_sh := sh'\<rparr>))"
  using assms
proof (induction "(sh', pc')" arbitrary: sh' pc' rule: rtranclp_induct)
  case (step t)
  obtain sh1 pc1 where t: "t = (sh1, pc1)" by (rule prod.exhaust)
  let ?s1 = "with_worker (ad, pc1) (s\<lparr>sy_sh := sh1\<rparr>)"
  have nc: "\<not> crashed sh1" using step(2,4) t wstep_frame by blast
  have "dl_step info ih pid ?s1 (?s1\<lparr>sy_sh := sh', sy_workers := (sy_workers ?s1)[0 := (ad, pc')]\<rparr>)"
    using step(2) t nc by (intro dl_step.work [where pc = pc1]) simp_all
  then show ?case using step(3) [OF t nc] by (simp add: with_worker_def)
qed simp

text \<open>The collector takes a result and deals with it while the others rest.\<close>

definition collected :: "info \<Rightarrow> pieceResult \<Rightarrow> sys \<Rightarrow> sys" where
  "collected info r s = (advance info ^^ 5) (receive r s)"

lemma advance_with_worker: "advance info (with_worker w s) = with_worker w (advance info s)"
  by (simp add: collector_defs with_worker_def split: collector.split prod.split option.split)

lemma collected_with_worker: "collected info r (with_worker w s) = with_worker w (collected info r s)"
proof -
  have "receive r (with_worker w s) = with_worker w (receive r s)" by (simp add: receive_def with_worker_def)
  moreover have "(advance info ^^ n) (with_worker w t) = with_worker w ((advance info ^^ n) t)" for n t
    by (induction n) (simp_all add: advance_with_worker)
  ultimately show ?thesis by (simp add: collected_def)
qed

lemma advance_crashed: "crashed (sy_sh s) \<Longrightarrow> crashed (sy_sh (advance info s))"
  by (simp add: collector_defs split: collector.split prod.split option.split)

lemma advance_idle: "\<not> busy (sy_coll s) \<Longrightarrow> advance info s = s"
  by (cases "sy_coll s") (simp_all add: advance_def)

lemma advance_steps:
  "\<not> crashed (sy_sh ((advance info ^^ n) s)) \<Longrightarrow> (dl_step info ih pid)\<^sup>*\<^sup>* s ((advance info ^^ n) s)"
proof (induction n)
  case (Suc n)
  let ?t = "(advance info ^^ n) s"
  have nc: "\<not> crashed (sy_sh ?t)" using Suc.prems advance_crashed [of ?t info] by auto
  show ?case
  proof (cases "busy (sy_coll ?t)")
    case True
    then have "dl_step info ih pid ?t (advance info ?t)" using nc by (rule dl_step.advance [rotated])
    with Suc.IH [OF nc] show ?thesis by (simp add: rtranclp.rtrancl_into_rtrancl)
  next
    case False
    then show ?thesis using Suc.IH [OF nc] by (simp add: advance_idle)
  qed
qed simp

lemma with_worker_collect:
  assumes "\<not> crashed (sy_sh s)" and "sy_coll s = Collecting" and "\<not> sy_resultClosed s"
    and "\<not> crashed (sy_sh (collected info r s))"
  shows "(dl_step info ih pid)\<^sup>*\<^sup>* (with_worker (ad, WSend a ss r) s) (with_worker (ad, WLoop a ss) (collected info r s))"
proof -
  let ?s = "with_worker (ad, WSend a ss r) s" and ?t = "with_worker (ad, WLoop a ss) s"
  have "dl_step info ih pid ?s (receive r (?s\<lparr>sy_workers := (sy_workers ?s)[0 := (ad, WLoop a ss)]\<rparr>))"
    using assms by (intro dl_step.collect) simp_all
  moreover have "?s\<lparr>sy_workers := (sy_workers ?s)[0 := (ad, WLoop a ss)]\<rparr> = ?t" by (simp add: with_worker_def)
  ultimately have "dl_step info ih pid ?s (receive r ?t)" by (simp only:)
  moreover have "\<not> crashed (sy_sh (collected info r ?t))" using assms(4) by (simp add: collected_with_worker)
  then have "(dl_step info ih pid)\<^sup>*\<^sup>* (receive r ?t) (collected info r ?t)"
    unfolding collected_def by (rule advance_steps)
  ultimately show ?thesis unfolding collected_with_worker by (rule converse_rtranclp_into_rtranclp)
qed

text \<open>What that comes to when the write succeeds, and when it fails.\<close>

lemma collected_written:
  assumes "pr_Err r = None" and "\<not> flag (sy_completed s) (pr_Index r)"
    and "WritePiece (pr_Index r) (pr_Data r) (sy_disk s) = (None, dsk)"
  shows "collected info r s = decide info (s\<lparr>sy_completed := mput (pr_Index r) True (sy_completed s),
      sy_sh := (sy_sh s)\<lparr>endgame := eg_after (pr_Index r) (endgame (sy_sh s))\<rparr>, sy_disk := dsk, sy_done := sy_done s + 1,
      sy_stats := (sy_stats s)\<lparr>Downloaded := Downloaded (sy_stats s) + 1,
        DownloadedBytes := wrap64 (DownloadedBytes (sy_stats s) + int (length (pr_Data r)))\<rparr>, sy_coll := Deciding\<rparr>)"
proof -
  have five: "(5 :: nat) = Suc (Suc (Suc (Suc (Suc 0))))" by simp
  show ?thesis
    using assms unfolding collected_def five funpow.simps comp_apply id_apply
    by (simp add: receive_def advance_def tell_endgame_def write_result_def count_piece_def count_bytes_def)
qed

lemma collected_failed:
  assumes "pr_Err r = None" and "\<not> flag (sy_completed s) (pr_Index r)"
    and "WritePiece (pr_Index r) (pr_Data r) (sy_disk s) = (Some e, dsk)" and "e \<noteq> Panic"
  shows "collected info r s = finish (Some e) (s\<lparr>sy_completed := mput (pr_Index r) True (sy_completed s),
      sy_sh := (sy_sh s)\<lparr>endgame := eg_after (pr_Index r) (endgame (sy_sh s))\<rparr>, sy_disk := dsk\<rparr>)"
proof -
  have five: "(5 :: nat) = Suc (Suc (Suc (Suc (Suc 0))))" by simp
  show ?thesis
    using assms unfolding collected_def five funpow.simps comp_apply id_apply
    by (simp add: receive_def advance_def tell_endgame_def write_result_def finish_def)
qed

text \<open>The collector drains the queue.\<close>

definition drained :: "sys \<Rightarrow> sys" where
  "drained s = (if sy_coll s = Draining
     then s\<lparr>sy_sh := (sy_sh s)\<lparr>workCh := [], egClosed := True\<rparr>, sy_coll := Collecting\<rparr> else s)"

lemma drain_queue:
  assumes "\<not> crashed (sy_sh s)" and "sy_coll s = Draining"
  shows "(dl_step info ih pid)\<^sup>*\<^sup>* s (s\<lparr>sy_sh := (sy_sh s)\<lparr>workCh := []\<rparr>\<rparr>)"
  using assms
proof (induction "workCh (sy_sh s)" arbitrary: s)
  case Nil
  then have "s\<lparr>sy_sh := (sy_sh s)\<lparr>workCh := []\<rparr>\<rparr> = s" by simp
  then show ?case by simp
next
  case (Cons pw q)
  let ?t = "s\<lparr>sy_sh := (sy_sh s)\<lparr>workCh := q\<rparr>\<rparr>"
  have "dl_step info ih pid s ?t" using Cons.prems by (intro dl_step.drain [OF _ _ Cons.hyps(2) [symmetric]]) simp_all
  moreover have "(dl_step info ih pid)\<^sup>*\<^sup>* ?t (?t\<lparr>sy_sh := (sy_sh ?t)\<lparr>workCh := []\<rparr>\<rparr>)"
    using Cons.prems by (intro Cons.hyps(1)) simp_all
  ultimately show ?case by (simp add: converse_rtranclp_into_rtranclp)
qed

lemma drain_steps:
  assumes "\<not> crashed (sy_sh s)"
  shows "(dl_step info ih pid)\<^sup>*\<^sup>* (with_worker w s) (with_worker w (drained s))"
proof (cases "sy_coll s = Draining")
  case True
  let ?s = "with_worker w s"
  let ?t = "?s\<lparr>sy_sh := (sy_sh ?s)\<lparr>workCh := []\<rparr>\<rparr>"
  have "(dl_step info ih pid)\<^sup>*\<^sup>* ?s ?t" using assms True by (intro drain_queue) simp_all
  moreover have "dl_step info ih pid ?t (?t\<lparr>sy_sh := (sy_sh ?t)\<lparr>egClosed := True\<rparr>, sy_coll := Collecting\<rparr>)"
    using assms True by (intro dl_step.drain_end) simp_all
  moreover have "?t\<lparr>sy_sh := (sy_sh ?t)\<lparr>egClosed := True\<rparr>, sy_coll := Collecting\<rparr> = with_worker w (drained s)"
    using True by (simp add: drained_def with_worker_def)
  ultimately show ?thesis by (metis rtranclp.rtrancl_into_rtrancl)
qed (simp add: drained_def)

text \<open>A worker at the head of its loop or about to dial matters nothing to the invariant.\<close>

lemma inv_idle:
  assumes "held pc = []" and "\<And>eg. wpc_ok info eg pc"
  shows "inv info base d (with_worker (ad, pc) s) = inv info base d s"
  using assms by (simp add: inv_def inv_workers_def inv_disk_def inv_pieces_def running_def failed_def
      flagged_def written_def tokens_def all_held_def)

lemma inv_active:
  "inv info base d (s\<lparr>sy_sh := (sy_sh s)\<lparr>ActivePeers := n\<rparr>\<rparr>) = inv info base d s"
proof -
  let ?u = "s\<lparr>sy_sh := (sy_sh s)\<lparr>ActivePeers := n\<rparr>\<rparr>"
  have "flagged ?u = flagged s" "tokens ?u = tokens s" "written ?u = written s"
    by (simp_all add: flagged_def tokens_def written_def)
  then show ?thesis
    by (simp add: inv_def inv_workers_def inv_disk_def inv_pieces_def shared_ok_def running_def failed_def)
qed

lemma inv_steps:
  "(dl_step info ih pid)\<^sup>*\<^sup>* s t \<Longrightarrow> inv info base d s \<Longrightarrow> inv info base d t"
  by (induction rule: rtranclp_induct) (auto intro: inv_step)

section \<open>One piece after the other\<close>

definition torrent_data :: "info \<Rightarrow> (int \<Rightarrow> bytes) \<Rightarrow> bool" where
  "torrent_data info data \<longleftrightarrow> (\<forall>i. 0 \<le> i \<and> i < NumPieces info \<longrightarrow>
     int (length (data i)) = PieceSize info i \<and> sha1 (data i) = i_Pieces info ! nat i)"

text \<open>Before the next of the last \<open>m\<close> pieces, with the worker of the seed left out.\<close>

definition ready :: "info \<Rightarrow> bytes \<Rightarrow> os \<Rightarrow> nat \<Rightarrow> sys \<Rightarrow> bool" where
  "ready info base d m s \<longleftrightarrow> inv info base d s \<and> \<not> crashed (sy_sh s) \<and> \<not> doneClosed (sy_sh s) \<and>
     sy_coll s = Collecting \<and> \<not> sy_resultClosed s \<and> all_held (sy_workers s) = {#} \<and>
     sy_done s + int m = NumPieces info \<and> os_ok (snd (sy_disk s)) \<and>
     0 \<le> eg_offset (endgame (sy_sh s)) \<and> eg_offset (endgame (sy_sh s)) + int m < 2 ^ 63 - 1"

text \<open>A missing piece is at the front of the queue or the next one of the endgame tracker.\<close>

lemma next_piece:
  assumes r: "ready info base d (Suc m) s"
  shows "\<exists>pw sh'. work_ok info pw \<and> pw_Index pw \<notin> flagged s \<and> \<not> crashed sh' \<and> \<not> doneClosed sh' \<and>
    0 \<le> eg_offset (endgame sh') \<and> eg_offset (endgame sh') \<le> eg_offset (endgame (sy_sh s)) + 1 \<and>
    (\<forall>ss. ss_bitfield ss = None \<longrightarrow> (\<exists>k eg.
       (wstep (NumPieces info) ih pid)\<^sup>*\<^sup>* (sy_sh s, WLoop 0 ss) (sh', WGot 0 (ss\<lparr>ss_misses := k\<rparr>) pw eg)))"
proof -
  let ?sh = "sy_sh s"
  let ?missing = "{0..<NumPieces info} - flagged s"
  have nc: "\<not> crashed ?sh" and nd: "\<not> doneClosed ?sh" and run: "sy_coll s = Collecting"
    and left: "sy_done s < NumPieces info" and o: "offset_ok (endgame ?sh)"
    using r by (auto simp: ready_def offset_ok_def)
  have sok: "shared_ok info ?sh" and ip: "inv_pieces info s" and sub: "flagged s \<subseteq> {0..<NumPieces info}"
    using r by (auto simp: ready_def inv_def inv_workers_def inv_disk_def)
  have "sy_done s = int (card (flagged s))" using ip run by (simp add: inv_pieces_def running_def written_def)
  then have "flagged s \<noteq> {0..<NumPieces info}" using left by (auto simp: NumPieces_def)
  then have missing: "?missing \<noteq> {}" using sub by blast
  show ?thesis
  proof (cases "egClosed ?sh")
    case True
    let ?e = "endgame ?sh"
    have active: "pw_Index ` set (eg_pieces ?e) = ?missing"
      using ip run True by (auto simp: inv_pieces_def running_def)
    then have ne: "eg_pieces ?e \<noteq> []" using missing by auto
    let ?ps = "rotate (nat (eg_offset ?e + 1)) (eg_pieces ?e)"
    let ?sh' = "?sh\<lparr>endgame := ?e\<lparr>eg_offset := eg_offset ?e + 1\<rparr>\<rparr>"
    obtain pw q where pw: "?ps = pw # q" using ne by (metis list.exhaust rotate_is_Nil_conv)
    then have mem: "pw \<in> set (eg_pieces ?e)" by (metis list.set_intros(1) set_rotate)
    have "\<exists>k eg. (wstep (NumPieces info) ih pid)\<^sup>*\<^sup>* (?sh, WLoop 0 ss) (?sh', WGot 0 (ss\<lparr>ss_misses := k\<rparr>) pw eg)"
      if "ss_bitfield ss = None" for ss
    proof -
      have "PickPiece (has_piece (ss_bitfield ss)) ?e = (Inr (Some pw), ?e\<lparr>eg_offset := eg_offset ?e + 1\<rparr>)"
        using that ne pw by (simp add: PickPiece_find [OF o] has_piece_def)
      from wstep.pick [OF nd True this] show ?thesis
        by (intro exI [of _ "ss_misses ss"] exI [of _ True]) (simp add: r_into_rtranclp)
    qed
    moreover have "work_ok info pw" using sok mem by (simp add: shared_ok_def list_all_iff)
    moreover have "pw_Index pw \<notin> flagged s" using active mem by auto
    moreover have "0 \<le> eg_offset ?e" using o by (simp add: offset_ok_def)
    ultimately show ?thesis using nc nd by (intro exI [of _ pw] exI [of _ ?sh']) auto
  next
    case False
    then have "\<not> IsActive (endgame ?sh)" using ip run by (simp add: inv_pieces_def running_def)
    then have "tokens s = mset_set ?missing" using ip run by (simp add: inv_pieces_def running_def)
    then have q: "mset (map pw_Index (workCh ?sh)) = mset_set ?missing"
      using r by (simp add: tokens_def ready_def)
    then have "workCh ?sh \<noteq> []" using missing sub by (auto simp: mset_set_empty_iff)
    then obtain pw q' where pw: "workCh ?sh = pw # q'" by (metis list.exhaust)
    let ?sh' = "?sh\<lparr>workCh := q'\<rparr>"
    have "(wstep (NumPieces info) ih pid)\<^sup>*\<^sup>* (?sh, WLoop 0 ss) (?sh', WGot 0 (ss\<lparr>ss_misses := 0\<rparr>) pw False)"
      if "ss_bitfield ss = None" for ss
    proof -
      have "wstep (NumPieces info) ih pid (?sh, WLoop 0 ss) (?sh, WSelect 0 ss)"
        by (rule wstep.check [OF nd False])
      moreover have "wstep (NumPieces info) ih pid (?sh, WSelect 0 ss) (?sh', WGot 0 (ss\<lparr>ss_misses := 0\<rparr>) pw False)"
        by (rule wstep.take_work [OF pw]) (simp add: that has_piece_def)
      ultimately show ?thesis by (meson converse_rtranclp_into_rtranclp rtranclp.rtrancl_refl)
    qed
    moreover have "work_ok info pw" using sok pw by (simp add: shared_ok_def)
    moreover have "pw_Index pw \<in># mset_set ?missing" unfolding q [symmetric] by (simp add: pw)
    then have "pw_Index pw \<notin> flagged s" by simp
    moreover have "0 \<le> eg_offset (endgame ?sh)" using o by (simp add: offset_ok_def)
    ultimately show ?thesis using nc nd by (intro exI [of _ pw] exI [of _ ?sh']) auto
  qed
qed

lemma drained_frame [simp]:
  "sy_workers (drained s) = sy_workers s" "sy_done (drained s) = sy_done s" "sy_disk (drained s) = sy_disk s"
  "sy_resultClosed (drained s) = sy_resultClosed s" "crashed (sy_sh (drained s)) = crashed (sy_sh s)"
  "doneClosed (sy_sh (drained s)) = doneClosed (sy_sh s)" "endgame (sy_sh (drained s)) = endgame (sy_sh s)"
  "sy_coll (drained s) = (if sy_coll s = Draining then Collecting else sy_coll s)"
  by (simp_all add: drained_def)

lemma collect_piece:
  assumes inv: "inv info base d (with_worker (ad, WSend 0 ss r) u)"
    and u: "\<not> crashed (sy_sh u)" "\<not> doneClosed (sy_sh u)" "sy_coll u = Collecting" "\<not> sy_resultClosed u"
      "all_held (sy_workers u) = {#}" "sy_done u + int (Suc m) = NumPieces info" "os_ok (snd (sy_disk u))"
      "0 \<le> eg_offset (endgame (sy_sh u))" "eg_offset (endgame (sy_sh u)) + int m < 2 ^ 63 - 1"
    and new: "pr_Index r \<notin> flagged u"
  shows "if m = 0 then sy_coll (collected info r u) = Finished None \<and> \<not> crashed (sy_sh (collected info r u))
    else ready info base d m (drained (collected info r u))"
proof -
  let ?w = "with_worker (ad, WSend 0 ss r) u"
  let ?v = "collected info r u"
  have W: "writer_ok (sy_disk u)" "w_info (fst (sy_disk u)) = info"
    using inv u by (auto simp: inv_def inv_disk_def running_def failed_def disk_facts_def)
  have r: "result_ok info r" using inv_pc [OF inv, of 0 ad "WSend 0 ss r"] u by simp
  obtain e dsk where wp: "WritePiece (pr_Index r) (pr_Data r) (sy_disk u) = (e, dsk)" by (metis surj_pair)
  have none: "e = None"
    using WritePiece_no_error [of "fst (sy_disk u)" "snd (sy_disk u)" "pr_Index r" "pr_Data r"] W r u(7) wp
    by (auto simp: result_ok_def)
  let ?x = "u\<lparr>sy_completed := mput (pr_Index r) True (sy_completed u),
      sy_sh := (sy_sh u)\<lparr>endgame := eg_after (pr_Index r) (endgame (sy_sh u))\<rparr>, sy_disk := dsk, sy_done := sy_done u + 1,
      sy_stats := (sy_stats u)\<lparr>Downloaded := Downloaded (sy_stats u) + 1,
        DownloadedBytes := wrap64 (DownloadedBytes (sy_stats u) + int (length (pr_Data r)))\<rparr>, sy_coll := Deciding\<rparr>"
  have v: "?v = decide info ?x"
    using r new wp none by (intro collected_written) (simp_all add: result_ok_def flagged_def)
  have cs: "\<not> crashed (sy_sh ?v)" "eg_offset (endgame (sy_sh ?v)) = eg_offset (endgame (sy_sh u))"
    "sy_workers ?v = sy_workers u" "sy_resultClosed ?v = sy_resultClosed u"
    using u(1) by (simp_all add: v decide_def start_endgame_def finish_def)
  have "os_ok (snd dsk)" using WritePiece_os_ok [OF wp] u(7) by simp
  then have "os_ok (snd (sy_disk ?v))"
    by (auto simp: v decide_def start_endgame_def finish_def Close_writer_def split: prod.split)
  moreover have "inv info base d (drained ?v)"
  proof -
    note S = with_worker_collect [OF u(1,3,4) cs(1)] and D = drain_steps [OF cs(1)]
    from inv_steps [OF rtranclp_trans [OF S D] inv] show ?thesis by (simp add: inv_idle)
  qed
  moreover have "sy_done ?v = sy_done u + 1 \<and> \<not> doneClosed (sy_sh ?v) \<and> sy_coll ?v \<in> {Collecting, Draining}" if "m \<noteq> 0"
    using that u(2,3,6) by (auto simp: v decide_def start_endgame_def)
  moreover have "sy_coll ?v = Finished None" if "m = 0"
    using that u(6) by (simp add: v decide_def finish_def)
  ultimately show ?thesis using cs u by (auto simp: ready_def)
qed

text \<open>
  What a worker in front of the others can do, whatever it is connected to, as long as that
  delivers the piece: from a state to another, the session still open.
\<close>

definition can_go :: "info \<Rightarrow> bytes \<Rightarrow> bytes \<Rightarrow> bytes \<Rightarrow> bytes \<Rightarrow> nat \<Rightarrow> (session \<Rightarrow> wpc) \<Rightarrow> sys \<Rightarrow> sys \<Rightarrow> bool" where
  "can_go info ih pid ad bs n pc s t \<longleftrightarrow> (\<forall>ss rest k. ss_bitfield ss = None \<longrightarrow> rx (ss_conn ss) = bs @ rest \<longrightarrow>
     n + k \<le> sends_ok (ss_conn ss) \<longrightarrow>
     (\<exists>ss'. (dl_step info ih pid)\<^sup>*\<^sup>* (with_worker (ad, WLoop 0 ss) s) (with_worker (ad, pc ss') t) \<and>
        ss_bitfield ss' = None \<and> rx (ss_conn ss') = rest \<and> k \<le> sends_ok (ss_conn ss')))"

lemma can_go_then:
  assumes "can_go info ih pid ad bs n pc s t"
    and "\<And>ss. inv info base d (with_worker (ad, pc ss) t) \<Longrightarrow>
      (dl_step info ih pid)\<^sup>*\<^sup>* (with_worker (ad, pc ss) t) (with_worker (ad, WLoop 0 ss) u)"
    and "inv info base d s"
  shows "can_go info ih pid ad bs n (WLoop 0) s u"
  unfolding can_go_def
proof (intro allI impI)
  fix ss :: session and rest k
  assume "ss_bitfield ss = None" "rx (ss_conn ss) = bs @ rest" "n + k \<le> sends_ok (ss_conn ss)"
  then obtain ss' where a: "(dl_step info ih pid)\<^sup>*\<^sup>* (with_worker (ad, WLoop 0 ss) s) (with_worker (ad, pc ss') t)"
    "ss_bitfield ss' = None" "rx (ss_conn ss') = rest" "k \<le> sends_ok (ss_conn ss')"
    using assms(1) unfolding can_go_def by blast
  have "inv info base d (with_worker (ad, WLoop 0 ss) s)" using assms(3) by (simp add: inv_idle)
  from rtranclp_trans [OF a(1) assms(2) [OF inv_steps [OF a(1) this]]] a(2-4)
  show "\<exists>ss'. (dl_step info ih pid)\<^sup>*\<^sup>* (with_worker (ad, WLoop 0 ss) s) (with_worker (ad, WLoop 0 ss') u) \<and>
      ss_bitfield ss' = None \<and> rx (ss_conn ss') = rest \<and> k \<le> sends_ok (ss_conn ss')"
    by blast
qed

lemma can_go_inv:
  assumes "can_go info ih pid ad bs n pc s t" and "inv info base d s"
  shows "\<exists>ss. inv info base d (with_worker (ad, pc ss) t)"
proof -
  let ?ss = "\<lparr>ss_conn = sample_conn\<lparr>rx := bs, sends_ok := n\<rparr>, ss_bitfield = None, ss_misses = 0\<rparr>"
  obtain ss where "(dl_step info ih pid)\<^sup>*\<^sup>* (with_worker (ad, WLoop 0 ?ss) s) (with_worker (ad, pc ss) t)"
    using assms(1) [unfolded can_go_def, rule_format, of ?ss "[]" 0] by auto
  moreover have "inv info base d (with_worker (ad, WLoop 0 ?ss) s)" using assms(2) by (simp add: inv_idle)
  ultimately show ?thesis using inv_steps by blast
qed

text \<open>The worker takes a piece and downloads it.\<close>

lemma piece_arrives:
  assumes r: "ready info base d (Suc m) s" and data: "torrent_data info data"
    and small: "NumPieces info \<le> 2 ^ 32" "i_PieceLength info \<le> 2 ^ 32" and lay: "layout_ok info"
  shows "\<exists>i sh'. i \<notin> flagged s \<and> \<not> crashed sh' \<and> \<not> doneClosed sh' \<and> 0 \<le> eg_offset (endgame sh') \<and>
    eg_offset (endgame sh') \<le> eg_offset (endgame (sy_sh s)) + 1 \<and>
    can_go info ih pid ad (piece_stream i (data i)) (piece_sends i (data i))
      (\<lambda>ss. WSend 0 ss \<lparr>pr_Index = i, pr_Data = data i, pr_Err = None\<rparr>) s (s\<lparr>sy_sh := sh'\<rparr>)"
proof -
  obtain pw sh' where pw: "work_ok info pw" "pw_Index pw \<notin> flagged s" "\<not> crashed sh'" "\<not> doneClosed sh'"
    "0 \<le> eg_offset (endgame sh')" "eg_offset (endgame sh') \<le> eg_offset (endgame (sy_sh s)) + 1"
    and st: "\<And>ss. ss_bitfield ss = None \<Longrightarrow> \<exists>k eg.
       (wstep (NumPieces info) ih pid)\<^sup>*\<^sup>* (sy_sh s, WLoop 0 ss) (sh', WGot 0 (ss\<lparr>ss_misses := k\<rparr>) pw eg)"
    using next_piece [OF r, of ih pid] by auto
  let ?i = "pw_Index pw"
  let ?r = "\<lparr>pr_Index = ?i, pr_Data = data ?i, pr_Err = None\<rparr>"
  have i: "0 \<le> ?i" "?i < NumPieces info" "pw_Hash pw = i_Pieces info ! nat ?i" "pw_Length pw = PieceSize info ?i"
    using pw(1) by (simp_all add: work_ok_def)
  have d: "int (length (data ?i)) = pw_Length pw" "sha1 (data ?i) = pw_Hash pw"
    using data i by (simp_all add: torrent_data_def)
  note sz = PieceSize_layout(3,4) [OF lay i(1,2), folded i(4)]
  have "can_go info ih pid ad (piece_stream ?i (data ?i)) (piece_sends ?i (data ?i)) (\<lambda>ss. WSend 0 ss ?r) s (s\<lparr>sy_sh := sh'\<rparr>)"
    unfolding can_go_def
  proof (intro allI impI)
    fix ss :: session and rest k
    assume ss: "ss_bitfield ss = None" "rx (ss_conn ss) = piece_stream ?i (data ?i) @ rest"
      "piece_sends ?i (data ?i) + k \<le> sends_ok (ss_conn ss)"
    obtain n eg where g: "(wstep (NumPieces info) ih pid)\<^sup>*\<^sup>* (sy_sh s, WLoop 0 ss) (sh', WGot 0 (ss\<lparr>ss_misses := n\<rparr>) pw eg)"
      using st [OF ss(1)] by blast
    obtain c' where c: "DownloadPiece pw None (ss_conn ss) = Inr (?r, None, c')" "rx c' = rest" "k \<le> sends_ok c'"
      using seed_piece [OF sz(1) _ i(1) _ d ss(2,3)] sz(2) small i(2) by auto
    let ?ss = "ss\<lparr>ss_misses := n, ss_conn := c'\<rparr>"
    have "wstep (NumPieces info) ih pid (sh', WGot 0 (ss\<lparr>ss_misses := n\<rparr>) pw eg)
       (sh', WSend 0 ((ss\<lparr>ss_misses := n\<rparr>)\<lparr>ss_conn := c'\<rparr>) ?r)"
      by (rule wstep.download [of pw None "ss\<lparr>ss_misses := n\<rparr>"]) (use c(1) in simp_all)
    with g have "(wstep (NumPieces info) ih pid)\<^sup>*\<^sup>* (sy_sh s, WLoop 0 ss) (sh', WSend 0 ?ss ?r)"
      by (simp add: rtranclp.rtrancl_into_rtrancl)
    from with_worker_steps [OF this pw(3), of ad] c ss(1)
    show "\<exists>ss'. (dl_step info ih pid)\<^sup>*\<^sup>* (with_worker (ad, WLoop 0 ss) s) (with_worker (ad, WSend 0 ss' ?r) (s\<lparr>sy_sh := sh'\<rparr>)) \<and>
        ss_bitfield ss' = None \<and> rx (ss_conn ss') = rest \<and> k \<le> sends_ok (ss_conn ss')"
      by (intro exI [of _ ?ss]) simp
  qed
  with pw show ?thesis by blast
qed

text \<open>It hands the piece over, the collector writes it.\<close>

lemma one_piece:
  assumes r: "ready info base d (Suc m) s" and data: "torrent_data info data"
    and small: "NumPieces info \<le> 2 ^ 32" "i_PieceLength info \<le> 2 ^ 32" and lay: "layout_ok info"
  shows "\<exists>bs n t. can_go info ih pid ad bs n (WLoop 0) s t \<and>
    (if m = 0 then sy_coll t = Finished None \<and> \<not> crashed (sy_sh t) else ready info base d m t)"
proof -
  obtain i sh' where P: "i \<notin> flagged s" "\<not> crashed sh'" "\<not> doneClosed sh'" "0 \<le> eg_offset (endgame sh')"
    "eg_offset (endgame sh') \<le> eg_offset (endgame (sy_sh s)) + 1"
    and go: "can_go info ih pid ad (piece_stream i (data i)) (piece_sends i (data i))
      (\<lambda>ss. WSend 0 ss \<lparr>pr_Index = i, pr_Data = data i, pr_Err = None\<rparr>) s (s\<lparr>sy_sh := sh'\<rparr>)"
    using piece_arrives [OF assms, of ih pid ad] by blast
  let ?r = "\<lparr>pr_Index = i, pr_Data = data i, pr_Err = None\<rparr>"
  let ?u = "s\<lparr>sy_sh := sh'\<rparr>"
  let ?v = "collected info ?r ?u"
  define t where "t = (if m = 0 then ?v else drained ?v)"
  have u: "\<not> crashed (sy_sh ?u)" "sy_coll ?u = Collecting" "\<not> sy_resultClosed ?u" "flagged ?u = flagged s"
    using r P by (simp_all add: ready_def flagged_def)
  have col: "if m = 0 then sy_coll ?v = Finished None \<and> \<not> crashed (sy_sh ?v) else ready info base d m (drained ?v)"
    if "inv info base d (with_worker (ad, WSend 0 ss ?r) ?u)" for ss
    by (rule collect_piece [OF that]) (use r P u in \<open>simp_all add: ready_def\<close>)
  have "(dl_step info ih pid)\<^sup>*\<^sup>* (with_worker (ad, WSend 0 ss ?r) ?u) (with_worker (ad, WLoop 0 ss) t)"
    if "inv info base d (with_worker (ad, WSend 0 ss ?r) ?u)" for ss
  proof -
    have nc: "\<not> crashed (sy_sh ?v)" using col [OF that] by (auto simp: ready_def split: if_splits)
    then have "(dl_step info ih pid)\<^sup>*\<^sup>* (with_worker (ad, WLoop 0 ss) ?v) (with_worker (ad, WLoop 0 ss) t)"
      unfolding t_def using drain_steps by simp
    with with_worker_collect [OF u(1-3) nc] show ?thesis by (rule rtranclp_trans)
  qed
  moreover have i: "inv info base d s" using r by (simp add: ready_def)
  ultimately have "can_go info ih pid ad (piece_stream i (data i)) (piece_sends i (data i)) (WLoop 0) s t"
    using can_go_then [OF go] by blast
  moreover have "if m = 0 then sy_coll t = Finished None \<and> \<not> crashed (sy_sh t) else ready info base d m t"
    using can_go_inv [OF go i] col by (auto simp: t_def)
  ultimately show ?thesis by blast
qed

text \<open>All that are left.\<close>

lemma all_pieces:
  assumes "ready info base d (Suc m) s" and "torrent_data info data"
    and "NumPieces info \<le> 2 ^ 32" and "i_PieceLength info \<le> 2 ^ 32" and "layout_ok info"
  shows "\<exists>bs n t. can_go info ih pid ad bs n (WLoop 0) s t \<and> sy_coll t = Finished None \<and> \<not> crashed (sy_sh t)"
  using assms(1)
proof (induction m arbitrary: s)
  case 0
  then show ?case using one_piece [OF 0 assms(2-5), of ih pid ad] by simp
next
  case (Suc m)
  obtain bs n t where a: "can_go info ih pid ad bs n (WLoop 0) s t" "ready info base d (Suc m) t"
    using one_piece [OF Suc.prems assms(2-5), of ih pid ad] by auto
  obtain bs' n' u where b: "can_go info ih pid ad bs' n' (WLoop 0) t u" "sy_coll u = Finished None" "\<not> crashed (sy_sh u)"
    using Suc.IH [OF a(2)] by blast
  have "can_go info ih pid ad (bs @ bs') (n + n') (WLoop 0) s u"
    unfolding can_go_def
  proof (intro allI impI)
    fix ss :: session and rest k
    assume ss: "ss_bitfield ss = None" "rx (ss_conn ss) = (bs @ bs') @ rest" "n + n' + k \<le> sends_ok (ss_conn ss)"
    obtain ss1 where A: "(dl_step info ih pid)\<^sup>*\<^sup>* (with_worker (ad, WLoop 0 ss) s) (with_worker (ad, WLoop 0 ss1) t)"
      "ss_bitfield ss1 = None" "rx (ss_conn ss1) = bs' @ rest" "n' + k \<le> sends_ok (ss_conn ss1)"
      using a(1) [unfolded can_go_def, rule_format, of ss "bs' @ rest" "n' + k"] ss by (auto simp: add.assoc)
    obtain ss2 where B: "(dl_step info ih pid)\<^sup>*\<^sup>* (with_worker (ad, WLoop 0 ss1) t) (with_worker (ad, WLoop 0 ss2) u)"
      "ss_bitfield ss2 = None" "rx (ss_conn ss2) = rest" "k \<le> sends_ok (ss_conn ss2)"
      using b(1) [unfolded can_go_def, rule_format, OF A(2-4)] by blast
    show "\<exists>ss'. (dl_step info ih pid)\<^sup>*\<^sup>* (with_worker (ad, WLoop 0 ss) s) (with_worker (ad, WLoop 0 ss') u) \<and>
        ss_bitfield ss' = None \<and> rx (ss_conn ss') = rest \<and> k \<le> sends_ok (ss_conn ss')"
      using rtranclp_trans [OF A(1) B(1)] B(2-4) by blast
  qed
  with b(2,3) show ?case by blast
qed

section \<open>The download\<close>

lemma start_behind:
  "\<exists>us. startWorker a (w # ws) = w # us \<and> all_held us = all_held ws"
  by (simp add: startWorker_def all_held_def)

lemma start_first:
  "\<exists>ws. foldl (\<lambda>ws p. startWorker (Addr p) ws) [] (p # ps) = (Addr p, WDial 0) # ws \<and> all_held ws = {#}"
proof -
  have "\<exists>us. foldl (\<lambda>ws p. startWorker (Addr p) ws) (w # ws) ps = w # us \<and> all_held us = all_held ws" for w ws
  proof (induction ps arbitrary: ws)
    case (Cons q ps)
    obtain us where "startWorker (Addr q) (w # ws) = w # us" "all_held us = all_held ws"
      using start_behind by blast
    with Cons [of us] show ?case by simp
  qed simp
  from this [of "(Addr p, WDial 0)" "[]"] show ?thesis
    by (simp add: startWorker_def active_workers_def maxWorkersPerPeer_def) (simp add: all_held_def)
qed

text \<open>A session with a peer that unchokes at once and tells nothing of its pieces.\<close>

lemma seed_session:
  assumes "length ih = 20"
  shows "\<exists>c c'. Dial (Some (BuildHandshakeBytes ih (replicate 20 0) False @ WriteMessage unchoke_msg @ bs, Suc (Suc k))) ih pid = Inr c \<and>
    session_start n c = Some (None, c') \<and> rx c' = bs \<and> sends_ok c' = k"
proof -
  obtain c where c: "Dial (Some (BuildHandshakeBytes ih (replicate 20 0) False @ WriteMessage unchoke_msg @ bs, Suc (Suc k))) ih pid = Inr c"
    "rx c = WriteMessage unchoke_msg @ bs" "sends_ok c = Suc k"
    using Dial_handshake_run [of ih "replicate 20 0" False "WriteMessage unchoke_msg @ bs" "Suc k" pid] assms by simp
  let ?c = "c\<lparr>tx := tx c @ WriteMessage (Some NewInterested), sends_ok := k\<rparr>"
  have "SendMessage (Some NewInterested) c = Inr ?c" using c(3) by (simp add: SendMessage_def flush_bytes_iff)
  moreover have "init_loop n None ?c = Some (None, ?c\<lparr>rx := bs\<rparr>)"
    using init_loop_run [of "[]" ?c bs n None] c(2) by simp
  ultimately show ?thesis using c(1) by (intro exI [of _ c] exI [of _ "?c\<lparr>rx := bs\<rparr>"]) (simp add: session_start_def)
qed

lemma seed_download:
  assumes ok: "torrent_ok info base d" and "os_ok d" and data: "torrent_data info data"
    and n: "0 < NumPieces info" "NumPieces info \<le> 2 ^ 32" and p: "i_PieceLength info \<le> 2 ^ 32"
    and "length ih = 20" and "peers \<noteq> []"
  shows "\<exists>t. dl_run info ih pid base d peers t \<and> sy_coll t = Finished None \<and> \<not> crashed (sy_sh t)"
proof -
  let ?s = "init_sys info base d peers"
  obtain q qs where q: "peers = q # qs" using assms(8) by (metis list.exhaust)
  obtain ws where ws: "sy_workers ?s = (Addr q, WDial 0) # ws" "all_held ws = {#}"
    using start_first [of q qs] by (auto simp: q init_sys_def)
  define s where "s = ?s\<lparr>sy_workers := ws\<rparr>"
  have s: "?s = with_worker (Addr q, WDial 0) s" using ws(1) by (simp add: s_def with_worker_def)
  let ?sh = "(sy_sh s)\<lparr>ActivePeers := ActivePeers (sy_sh s) + 1\<rparr>"
  let ?u = "s\<lparr>sy_sh := ?sh\<rparr>"
  have i: "inv info base d s" using inv_init [OF ok, of peers] by (simp add: s inv_idle)
  then have "inv info base d ?u" by (simp only: inv_active)
  moreover obtain m where m: "int (Suc m) = NumPieces info"
    using n(1) by (metis NumPieces_def gr0_conv_Suc of_nat_0_less_iff)
  ultimately have "ready info base d (Suc m) ?u"
    using ws(2) n assms(2) by (simp add: ready_def s_def init_sys_def newEndgameTracker_def)
  then obtain bs k t where B: "can_go info ih pid (Addr q) bs k (WLoop 0) ?u t" "sy_coll t = Finished None" "\<not> crashed (sy_sh t)"
    using all_pieces [OF _ data n(2) p, of base d m ?u ih pid "Addr q"] ok by (auto simp: torrent_ok_def)
  obtain c c' where c: "Dial (Some (BuildHandshakeBytes ih (replicate 20 0) False @ WriteMessage unchoke_msg @ bs, Suc (Suc k))) ih pid = Inr c"
    "session_start (NumPieces info) c = Some (None, c')" "rx c' = bs" "sends_ok c' = k"
    using seed_session [OF assms(7)] by blast
  have f: "\<not> doneClosed (sy_sh s)" "\<not> crashed ?sh" by (simp_all add: s_def init_sys_def)
  from wstep.start [OF f(1) c(1,2)] have "(wstep (NumPieces info) ih pid)\<^sup>*\<^sup>* (sy_sh s, WDial 0)
      (?sh, WLoop 0 \<lparr>ss_conn = c', ss_bitfield = None, ss_misses = 0\<rparr>)"
    by (rule r_into_rtranclp)
  from with_worker_steps [OF this f(2), of "Addr q"]
  have "dl_run info ih pid base d peers (with_worker (Addr q, WLoop 0 \<lparr>ss_conn = c', ss_bitfield = None, ss_misses = 0\<rparr>) ?u)"
    unfolding dl_run_def s .
  moreover obtain ss where "(dl_step info ih pid)\<^sup>*\<^sup>*
      (with_worker (Addr q, WLoop 0 \<lparr>ss_conn = c', ss_bitfield = None, ss_misses = 0\<rparr>) ?u) (with_worker (Addr q, WLoop 0 ss) t)"
    using B(1) [unfolded can_go_def, rule_format, of "\<lparr>ss_conn = c', ss_bitfield = None, ss_misses = 0\<rparr>" "[]" 0] c(3,4)
    by auto
  ultimately have "dl_run info ih pid base d peers (with_worker (Addr q, WLoop 0 ss) t)"
    unfolding dl_run_def by (rule rtranclp_trans)
  with B(2,3) show ?thesis by (metis with_worker_sel(1,3))
qed

text \<open>C6. Every download can finish: for any torrent with consistent lengths, distinct paths and
  files not there before, whose data exists and which has at least one piece and indices and offsets
  that fit in the 32 bits of the messages, with any peers, at least one, on a disk that does not
  fail, the download has a run of steps to its end without an
  error; one session with one peer that has the data is enough for it. So neither the queue nor
  the switch to endgame mode, its tracker or any guard of the code keeps a piece from being
  fetched and written, whatever the number and sizes of the pieces and files.\<close>

theorem download_can_finish:
  assumes "torrent_ok info base d" and "os_ok d" and "torrent_data info data"
    and "0 < NumPieces info" and "NumPieces info \<le> 2 ^ 32" and "i_PieceLength info \<le> 2 ^ 32"
    and "length infoHash = 20" and "peers \<noteq> []"
  shows "\<exists>s. (dl_step info infoHash peerID)\<^sup>*\<^sup>* (init_sys info base d peers) s \<and>
    sy_coll s = Finished None \<and> \<not> crashed (sy_sh s)"
  using seed_download [OF assms, of peerID] by (simp add: dl_run_def)

end
