(* ===== verification/DownloadRun.thy ===== *)
theory DownloadRun
  imports DownloadSeed
begin

text \<open>
  The properties of the download applied to a torrent of two pieces and one peer that has both, and
  states the code should not reach: a torrent without pieces hangs, a worker started late panics,
  and one is left behind after a write error.
\<close>

section \<open>The torrent and its peer\<close>

definition swarm_info :: info where
  "swarm_info = sample_info\<lparr>i_Pieces := [sha1 [1, 2, 3, 4], sha1 [5]]\<rparr>"

definition swarm_hash :: bytes where
  "swarm_hash = replicate 20 7"

definition swarm_peer :: peer where
  "swarm_peer = \<lparr>IP = [10, 0, 0, 1], Port = 6881\<rparr>"

lemma swarm_facts:
  "NumPieces swarm_info = 2" "PieceSize swarm_info 0 = 4" "PieceSize swarm_info 1 = 1"
  "layout_ok swarm_info" "fileList swarm_info (str ''/d'') = fileList sample_info (str ''/d'')"
  "w_info (NewWriter swarm_info (str ''/d'')) = swarm_info"
proof -
  have "NumPieces (sample_info\<lparr>i_Pieces := [h, h']\<rparr>) = 2" "PieceSize (sample_info\<lparr>i_Pieces := [h, h']\<rparr>) 0 = 4"
    "PieceSize (sample_info\<lparr>i_Pieces := [h, h']\<rparr>) 1 = 1" for h h'
    by code_simp+
  then show "NumPieces swarm_info = 2" "PieceSize swarm_info 0 = 4" "PieceSize swarm_info 1 = 1"
    by (simp_all add: swarm_info_def)
  show "layout_ok swarm_info"
    by (simp add: swarm_info_def layout_ok_def sample_info_def NumPieces_def data_length_def)
  show "fileList swarm_info (str ''/d'') = fileList sample_info (str ''/d'')"
    by (simp add: swarm_info_def fileList_def sample_info_def)
  show "w_info (NewWriter swarm_info (str ''/d'')) = swarm_info" by (simp add: NewWriter_def)
qed

lemma swarm_ok: "torrent_ok swarm_info (str ''/d'') sample_os"
  using swarm_facts(4) sample_distinct
  by (simp add: torrent_ok_def swarm_facts(5) sample_files list_all_iff) (simp add: sample_os_def)

section \<open>The run\<close>

definition swarm_work :: "int \<Rightarrow> bytes \<Rightarrow> pieceWork" where
  "swarm_work i data = \<lparr>pw_Index = i, pw_Hash = sha1 data, pw_Length = int (length data), NumTries = 0\<rparr>"

lemma swarm_all_work: "all_work swarm_info = [swarm_work 0 [1, 2, 3, 4], swarm_work 1 [5]]"
  using swarm_facts(2,3) by (simp add: all_work_def swarm_work_def) (simp add: swarm_info_def upt_rec)

abbreviation swarm_reach :: "bytes \<Rightarrow> bytes \<Rightarrow> sys \<Rightarrow> bool" where
  "swarm_reach ih pid \<equiv> dl_run swarm_info ih pid (str ''/d'') sample_os [swarm_peer]"

text \<open>The system with its only worker.\<close>

definition one_worker :: "shared \<Rightarrow> wpc \<Rightarrow> sys \<Rightarrow> sys" where
  "one_worker sh pc s = s\<lparr>sy_sh := sh, sy_workers := [(Addr swarm_peer, pc)]\<rparr>"

lemma one_worker_sel [simp]:
  "sy_sh (one_worker sh pc s) = sh" "sy_workers (one_worker sh pc s) = [(Addr swarm_peer, pc)]"
  "sy_coll (one_worker sh pc s) = sy_coll s" "sy_resultClosed (one_worker sh pc s) = sy_resultClosed s"
  "sy_completed (one_worker sh pc s) = sy_completed s" "sy_done (one_worker sh pc s) = sy_done s"
  "sy_disk (one_worker sh pc s) = sy_disk s" "sy_stats (one_worker sh pc s) = sy_stats s"
  "sy_waited (one_worker sh pc s) = sy_waited s"
  by (simp_all add: one_worker_def)

text \<open>Its steps are steps of the system, whatever state the rest is in.\<close>

lemma one_worker_with: "one_worker sh pc s = with_worker (Addr swarm_peer, pc) (s\<lparr>sy_workers := [], sy_sh := sh\<rparr>)"
  by (simp add: one_worker_def with_worker_def)

lemma one_worker_steps:
  assumes "(wstep (NumPieces info) ih pid)\<^sup>*\<^sup>* (sh, pc) (sh', pc')" and "\<not> crashed sh'"
  shows "(dl_step info ih pid)\<^sup>*\<^sup>* (one_worker sh pc s) (one_worker sh' pc' s)"
  using with_worker_steps [of info ih pid "s\<lparr>sy_workers := [], sy_sh := sh\<rparr>" pc sh' pc' "Addr swarm_peer"] assms
  by (simp add: one_worker_with)

lemma one_worker_run:
  assumes "dl_run info ih pid base d peers (one_worker sh pc s)"
    and "(wstep (NumPieces info) ih pid)\<^sup>*\<^sup>* (sh, pc) (sh', pc')" and "\<not> crashed sh'"
  shows "dl_run info ih pid base d peers (one_worker sh' pc' s)"
  using assms(1) one_worker_steps [OF assms(2,3)] unfolding dl_run_def by (rule rtranclp_trans)

lemma two_wsteps: "wstep n ih pid a b \<Longrightarrow> wstep n ih pid b c \<Longrightarrow> (wstep n ih pid)\<^sup>*\<^sup>* a c"
  by (meson converse_rtranclp_into_rtranclp rtranclp.rtrancl_refl)

lemma one_worker_collect:
  assumes "dl_run info ih pid base d peers (one_worker sh (WSend a ss r) s)" and "\<not> crashed sh"
    and "sy_coll s = Collecting" and "\<not> sy_resultClosed s"
    and "\<not> crashed (sy_sh (collected info r (one_worker sh (WLoop a ss) s)))"
  shows "dl_run info ih pid base d peers (collected info r (one_worker sh (WLoop a ss) s))"
proof -
  have "(dl_step info ih pid)\<^sup>*\<^sup>* (one_worker sh (WSend a ss r) s) (collected info r (one_worker sh (WLoop a ss) s))"
    using with_worker_collect [of "s\<lparr>sy_workers := [], sy_sh := sh\<rparr>"] assms(2-5)
    by (simp add: one_worker_with collected_with_worker)
  with assms(1) show ?thesis unfolding dl_run_def by (rule rtranclp_trans)
qed

lemma one_worker_self: "sy_workers s = [(Addr swarm_peer, pc)] \<Longrightarrow> one_worker (sy_sh s) pc s = s"
  by (simp add: one_worker_def)

text \<open>The worker downloads what the stream holds.\<close>

lemma swarm_download:
  assumes "rx (ss_conn ss) = piece_stream i data @ rest" and "piece_sends i data + k \<le> sends_ok (ss_conn ss)"
    and "data \<noteq> []" and "length data < 1000" and "0 \<le> i" and "i < 2"
  shows "\<exists>c'. wstep 2 ih pid (sh, WGot a ss (swarm_work i data) eg)
      (sh, WSend a (ss\<lparr>ss_conn := c'\<rparr>) \<lparr>pr_Index = i, pr_Data = data, pr_Err = None\<rparr>) \<and>
    rx c' = rest \<and> k \<le> sends_ok c'"
proof -
  obtain c' where "DownloadPiece (swarm_work i data) None (ss_conn ss) =
      Inr (\<lparr>pr_Index = i, pr_Data = data, pr_Err = None\<rparr>, None, c')" "rx c' = rest" "k \<le> sends_ok c'"
  proof -
    let ?w = "swarm_work i data"
    have w: "pw_Index ?w = i" "int (length data) = pw_Length ?w" "sha1 data = pw_Hash ?w" "0 < pw_Length ?w" "pw_Length ?w < 1000"
      using assms(3,4) by (simp_all add: swarm_work_def)
    have "\<exists>c'. DownloadPiece ?w None (ss_conn ss) = Inr (\<lparr>pr_Index = pw_Index ?w, pr_Data = data, pr_Err = None\<rparr>, None, c') \<and>
        rx c' = rest \<and> k \<le> sends_ok c'"
      by (rule seed_piece [OF w(4) _ _ _ w(2,3)]) (use assms w in simp_all)
    then show thesis using that unfolding w(1) by blast
  qed
  moreover from this(1) have "wstep 2 ih pid (sh, WGot a ss (swarm_work i data) eg)
      (sh, WSend a (ss\<lparr>ss_conn := c'\<rparr>) \<lparr>pr_Index = i, pr_Data = data, pr_Err = None\<rparr>)"
    by (rule wstep.download) simp
  ultimately show ?thesis by blast
qed

text \<open>Up to the first result: the worker dials, takes the first piece and downloads it.\<close>

lemma swarm_init:
  assumes "s = init_sys info base d [swarm_peer]"
  shows "dl_run info ih pid base d [swarm_peer] (one_worker (sy_sh s) (WDial 0) s)"
proof -
  have "sy_workers s = [(Addr swarm_peer, WDial 0)]"
    by (simp add: assms init_sys_def startWorker_def active_workers_def maxWorkersPerPeer_def)
  from one_worker_self [OF this] show ?thesis using run_init assms by metis
qed

lemma swarm_first:
  assumes "length ih = 20" and sh: "workCh sh = [swarm_work 0 [1, 2, 3, 4], swarm_work 1 [5]]"
    "\<not> doneClosed sh" "\<not> egClosed sh"
  shows "\<exists>ss. (wstep 2 ih pid)\<^sup>*\<^sup>* (sh, WDial 0)
      (sh\<lparr>ActivePeers := ActivePeers sh + 1, workCh := [swarm_work 1 [5]]\<rparr>,
       WSend 0 ss \<lparr>pr_Index = 0, pr_Data = [1, 2, 3, 4], pr_Err = None\<rparr>) \<and>
    ss_bitfield ss = None \<and> rx (ss_conn ss) = piece_stream 1 [5] \<and> piece_sends 1 [5] \<le> sends_ok (ss_conn ss)"
proof -
  obtain c c' where S: "Dial (Some (BuildHandshakeBytes ih (replicate 20 0) False @ WriteMessage unchoke_msg @
      piece_stream 0 [1, 2, 3, 4] @ piece_stream 1 [5], Suc (Suc (piece_sends 0 [1, 2, 3, 4] + piece_sends 1 [5])))) ih pid = Inr c"
    "session_start 2 c = Some (None, c')" "rx c' = piece_stream 0 [1, 2, 3, 4] @ piece_stream 1 [5]"
    "sends_ok c' = piece_sends 0 [1, 2, 3, 4] + piece_sends 1 [5]"
    using seed_session [OF assms(1)] by blast
  let ?ss = "\<lparr>ss_conn = c', ss_bitfield = None, ss_misses = 0\<rparr>"
  let ?sh1 = "sh\<lparr>ActivePeers := ActivePeers sh + 1\<rparr>"
  let ?sh2 = "?sh1\<lparr>workCh := [swarm_work 1 [5]]\<rparr>"
  have "wstep 2 ih pid (sh, WDial 0) (?sh1, WLoop 0 ?ss)" by (rule wstep.start [OF sh(2) S(1,2)])
  moreover have "wstep 2 ih pid (?sh1, WLoop 0 ?ss) (?sh1, WSelect 0 ?ss)"
    by (rule wstep.check) (use sh in simp_all)
  moreover have "wstep 2 ih pid (?sh1, WSelect 0 ?ss) (?sh2, WGot 0 (?ss\<lparr>ss_misses := 0\<rparr>) (swarm_work 0 [1, 2, 3, 4]) False)"
    by (rule wstep.take_work) (use sh in \<open>simp_all add: has_piece_def\<close>)
  moreover obtain c2 where "wstep 2 ih pid (?sh2, WGot 0 (?ss\<lparr>ss_misses := 0\<rparr>) (swarm_work 0 [1, 2, 3, 4]) False)
      (?sh2, WSend 0 (?ss\<lparr>ss_conn := c2\<rparr>) \<lparr>pr_Index = 0, pr_Data = [1, 2, 3, 4], pr_Err = None\<rparr>)"
    "rx c2 = piece_stream 1 [5]" "piece_sends 1 [5] \<le> sends_ok c2"
    using swarm_download [of "?ss\<lparr>ss_misses := 0\<rparr>" 0 "[1, 2, 3, 4]" "piece_stream 1 [5]" "piece_sends 1 [5]" ih pid ?sh2 0 False] S(3,4)
    by auto
  ultimately show ?thesis
    by (intro exI [of _ "?ss\<lparr>ss_conn := c2\<rparr>"]) (auto intro: converse_rtranclp_into_rtranclp)
qed

text \<open>A run to the end.\<close>

definition swarm_data :: "int \<Rightarrow> bytes" where
  "swarm_data i = (if i = 0 then [1, 2, 3, 4] else [5])"

lemma swarm_torrent: "torrent_data swarm_info swarm_data" "0 < NumPieces swarm_info"
  "NumPieces swarm_info \<le> 2 ^ 32" "i_PieceLength swarm_info \<le> 2 ^ 32" "os_ok sample_os"
proof -
  have "int (length (swarm_data i)) = PieceSize swarm_info i \<and> sha1 (swarm_data i) = i_Pieces swarm_info ! nat i"
    if "0 \<le> i" "i < 2" for i
  proof -
    have "i = 0 \<or> i = 1" using that by linarith
    then show ?thesis using swarm_facts(2,3) by (auto simp: swarm_data_def) (simp_all add: swarm_info_def)
  qed
  then show "torrent_data swarm_info swarm_data" by (simp add: torrent_data_def swarm_facts)
  show "i_PieceLength swarm_info \<le> 2 ^ 32" by (simp add: swarm_info_def sample_info_def)
  show "os_ok sample_os" by (simp add: os_ok_def sample_os_def)
qed (simp_all add: swarm_facts)

lemma swarm_run:
  assumes "length ih = 20"
  shows "\<exists>t. swarm_reach ih pid t \<and> \<not> crashed (sy_sh t) \<and> sy_coll t = Finished None"
  using seed_download [OF swarm_ok swarm_torrent(5,1-4) assms, of "[swarm_peer]" pid] by auto

theorem download_can_finish_witness:
  "\<exists>s. (dl_step swarm_info swarm_hash (replicate 20 9))\<^sup>*\<^sup>* (init_sys swarm_info (str ''/d'') sample_os [swarm_peer]) s \<and>
    sy_coll s = Finished None"
proof -
  have "length swarm_hash = 20" by (simp add: swarm_hash_def)
  from download_can_finish [OF swarm_ok swarm_torrent(5,1-4) this, of "[swarm_peer]"] show ?thesis by auto
qed

section \<open>The properties at this run\<close>

theorem download_verified_witness:
  "\<exists>t whole. swarm_reach swarm_hash (replicate 20 9) t \<and> sy_coll t = Finished None \<and> int (length whole) = 5 \<and>
    sha1 (take 4 whole) = sha1 [1, 2, 3, 4] \<and> sha1 (drop 4 whole) = sha1 [5] \<and>
    dk (snd (sy_disk t)) (str ''/d/a/b'') = Some (take 3 whole)"
proof -
  obtain t where t: "swarm_reach swarm_hash (replicate 20 9) t" "\<not> crashed (sy_sh t)" "sy_coll t = Finished None"
    using swarm_run [of swarm_hash "replicate 20 9"] by (auto simp: swarm_hash_def)
  have c: "TotalLength swarm_info = 5" "i_PieceLength swarm_info = 4" "i_Pieces swarm_info = [sha1 [1, 2, 3, 4], sha1 [5]]"
    by (simp_all add: swarm_info_def sample_info_def TotalLength_def wrap64_def)
  from download_verified [OF run_reachable [OF t(1)] swarm_ok t(2,3)] obtain whole where
    w: "int (length whole) = 5"
    "\<forall>i<length (i_Pieces swarm_info). sha1 (take (nat (PieceSize swarm_info (int i)))
       (drop (i * nat (i_PieceLength swarm_info)) whole)) = i_Pieces swarm_info ! i"
    "\<forall>(p, c)\<in>set (file_contents (fileList swarm_info (str ''/d'')) whole).
       c \<noteq> [] \<longrightarrow> dk (snd (sy_disk t)) p = Some c"
    unfolding c(1) by blast
  have "sha1 (take 4 whole) = sha1 [1, 2, 3, 4]"
    using w(2) [rule_format, of 0] c swarm_facts(2) by simp
  moreover have "sha1 (drop 4 whole) = sha1 [5]"
    using w(1) w(2) [rule_format, of 1] c swarm_facts(3) by simp
  moreover have "(str ''/d/a/b'', take 3 whole) \<in> set (file_contents (fileList swarm_info (str ''/d'')) whole)"
    by (simp add: swarm_facts(5) sample_files)
  moreover have "take 3 whole \<noteq> []" using w(1) by auto
  ultimately show ?thesis using t w(1,3) by blast
qed

theorem no_piece_lost_witness:
  "tokens (init_sys swarm_info (str ''/d'') sample_os [swarm_peer]) = mset_set {0..<2}"
proof -
  let ?s = "init_sys swarm_info (str ''/d'') sample_os [swarm_peer]"
  have "running ?s" "\<not> crashed (sy_sh ?s)" "\<not> IsActive (endgame (sy_sh ?s))" "written ?s = {}" "sy_coll ?s = Collecting"
    by (simp_all add: init_sys_def running_def newEndgameTracker_def IsActive_def flagged_def written_def)
  then show ?thesis
    using no_piece_lost [OF reachable.init swarm_ok _ \<open>\<not> crashed (sy_sh ?s)\<close> \<open>running ?s\<close>]
    by (simp add: swarm_facts)
qed

theorem download_terminates_witness:
  "(\<nexists>f. f 0 = init_sys swarm_info (str ''/d'') sample_os [swarm_peer] \<and>
      (\<forall>n. dl_step swarm_info swarm_hash (replicate 20 9) (f n) (f (Suc n)))) \<and>
    (\<exists>u. dl_step swarm_info swarm_hash (replicate 20 9)
       (init_sys swarm_info (str ''/d'') sample_os [swarm_peer]) u)"
proof -
  let ?s = "init_sys swarm_info (str ''/d'') sample_os [swarm_peer]"
  have "\<not> crashed (sy_sh ?s)" "\<not> (\<exists>r. sy_coll ?s = Finished r)" by (simp_all add: init_sys_def)
  moreover note T = download_terminates [OF swarm_ok _ reachable.init, where peers = "[swarm_peer]" and
      infoHash = swarm_hash and peerID = "replicate 20 9"]
  have "0 < NumPieces swarm_info" by (simp add: swarm_facts)
  note T [OF this, THEN conjunct1] T [OF this, THEN conjunct2, rule_format, of ?s]
  ultimately show ?thesis by blast
qed

text \<open>A run in which no dial succeeds: the worker gives up and the collector reports it.\<close>

lemma failing_dial:
  assumes "\<not> crashed sh" and "\<not> doneClosed sh"
  shows "dl_step info ih pid (one_worker sh (WDial a) s) (one_worker sh (next_attempt a) s)"
proof -
  obtain e where "Dial None ih pid = Inl e" using Dial_None by blast
  from wstep.dial_fail [OF assms(2) this] have "dl_step info ih pid (one_worker sh (WDial a) s)
     ((one_worker sh (WDial a) s)\<lparr>sy_sh := sh, sy_workers := (sy_workers (one_worker sh (WDial a) s))[0 := (Addr swarm_peer, next_attempt a)]\<rparr>)"
    using assms by (intro dl_step.work [where pc = "WDial a"]) simp_all
  then show ?thesis by (simp add: one_worker_def)
qed

lemma give_up:
  assumes "\<not> crashed sh" and "\<not> doneClosed sh"
  shows "(dl_step info ih pid ^^ 4) (one_worker sh (WDial 0) s) (one_worker sh WExit s)"
proof -
  have n: "next_attempt 0 = WDial 1" "next_attempt 1 = WDial 2" "next_attempt 2 = WDial 3" "next_attempt 3 = WExit"
    by (simp_all add: next_attempt_def maxReconnects_def)
  note d = failing_dial [OF assms, of info ih pid _ s]
  have "(dl_step info ih pid ^^ Suc (Suc (Suc (Suc 0)))) (one_worker sh (WDial 0) s) (one_worker sh WExit s)"
    using d [of 0] d [of 1] d [of 2] d [of 3] unfolding n by (meson relpowp_0_I relpowp_Suc_I)
  then show ?thesis by (simp add: eval_nat_numeral)
qed

theorem no_panic_witness:
  "\<exists>s. (dl_step swarm_info swarm_hash (replicate 20 9) ^^ 7) (init_sys swarm_info (str ''/d'') sample_os [swarm_peer]) s \<and>
    sy_coll s = Finished (Some ErrAllFailed) \<and> \<not> crashed (sy_sh s)"
proof -
  let ?st = "dl_step swarm_info swarm_hash (replicate 20 9)"
  define s where "s = init_sys swarm_info (str ''/d'') sample_os [swarm_peer]"
  have s: "sy_workers s = [(Addr swarm_peer, WDial 0)]" "\<not> crashed (sy_sh s)" "\<not> doneClosed (sy_sh s)"
    "sy_coll s = Collecting" "\<not> sy_resultClosed s" "sy_done s = 0" "\<not> sy_waited s"
    by (simp_all add: s_def init_sys_def startWorker_def active_workers_def maxWorkersPerPeer_def)
  let ?u = "one_worker (sy_sh s) WExit s"
  let ?w = "?u\<lparr>sy_waited := True\<rparr>"
  let ?v = "?w\<lparr>sy_resultClosed := True\<rparr>"
  have "(?st ^^ 4) s ?u" using give_up [OF s(2,3)] one_worker_self [OF s(1)] by metis
  moreover have "?st ?u ?w" by (rule dl_step.wait_done) (use s in simp_all)
  ultimately have "(?st ^^ Suc 4) s ?w" by (rule relpowp_Suc_I)
  moreover have "?st ?w ?v" by (rule dl_step.close_results) (use s in simp_all)
  ultimately have "(?st ^^ Suc (Suc 4)) s ?v" by (rule relpowp_Suc_I)
  moreover have "?st ?v (finish (Some ErrAllFailed) ?v)"
    using dl_step.range_end [of ?v swarm_info] s by (simp add: swarm_facts)
  ultimately have "(?st ^^ Suc (Suc (Suc 4))) s (finish (Some ErrAllFailed) ?v)" by (rule relpowp_Suc_I)
  then have "(?st ^^ 7) (init_sys swarm_info (str ''/d'') sample_os [swarm_peer]) (finish (Some ErrAllFailed) ?v)"
    by (simp add: s_def)
  moreover from no_panic [OF swarm_ok _ _ this] have "\<not> crashed (sy_sh (finish (Some ErrAllFailed) ?v))"
    by (simp add: swarm_facts) (simp add: swarm_info_def sample_info_def max_alloc_def)
  ultimately show ?thesis by (intro exI [of _ "finish (Some ErrAllFailed) ?v"]) (simp add: finish_def)
qed

section \<open>A torrent without pieces\<close>

text \<open>
  With no pieces the collector waits for a result and the workers for work, forever: nothing
  closes \<^verbatim>\<open>doneCh\<close>, as this happens only after a piece was written.
\<close>

definition empty_info :: info where
  "empty_info = sample_info\<lparr>i_Pieces := [], i_Files := []\<rparr>"

lemma select_stuck:
  assumes "sy_workers s = [(ad, WSelect a ss)]" and "workCh (sy_sh s) = []" and "\<not> doneClosed (sy_sh s)"
    and "\<not> egClosed (sy_sh s)" and "sy_coll s = Collecting" and "\<not> sy_resultClosed s" and "\<not> sy_waited s"
  shows "\<not> dl_step info ih pid s t"
proof
  assume "dl_step info ih pid s t"
  then show False
  proof (cases rule: dl_step.cases)
    case (work i ad pc sh pc')
    from work(5) show False by (cases rule: wstep.cases) (use work(3,4) assms in auto)
  qed (use assms in auto)
qed

lemma zero_pieces_hang:
  "\<exists>s. reachable empty_info swarm_hash (replicate 20 9) (str ''/d'') sample_os [swarm_peer] s \<and>
    torrent_ok empty_info (str ''/d'') sample_os \<and> \<not> crashed (sy_sh s) \<and> running s \<and>
    (\<forall>t. \<not> dl_step empty_info swarm_hash (replicate 20 9) s t)"
proof -
  define s where "s = init_sys empty_info (str ''/d'') sample_os [swarm_peer]"
  define sh where "sh = sy_sh s"
  have sh: "workCh sh = []" "\<not> crashed sh" "\<not> doneClosed sh" "\<not> egClosed sh"
    by (simp_all add: sh_def s_def init_sys_def all_work_def empty_info_def)
  have n: "NumPieces empty_info = 0" by (simp add: empty_info_def NumPieces_def)
  have ok: "torrent_ok empty_info (str ''/d'') sample_os"
    by (simp add: torrent_ok_def empty_info_def sample_info_def layout_ok_def NumPieces_def data_length_def
        fileList_def sample_os_def)
  obtain c where c: "Dial (Some (BuildHandshakeBytes swarm_hash (replicate 20 8) False @ WriteMessage unchoke_msg, 5))
      swarm_hash (replicate 20 9) = Inr c" "rx c = WriteMessage unchoke_msg @ []" "sends_ok c = 4"
    using Dial_handshake_run [of swarm_hash "replicate 20 8" False "WriteMessage unchoke_msg" 4 "replicate 20 9"]
    by (simp add: swarm_hash_def)
  have "SendMessage (Some NewInterested) c = Inr (c\<lparr>tx := tx c @ WriteMessage (Some NewInterested), sends_ok := 3\<rparr>)"
    using c(3) by (simp add: SendMessage_def flush_bytes_iff)
  then obtain bf c' where st: "session_start 0 c = Some (bf, c')"
    using init_loop_run [of "[]" "c\<lparr>tx := tx c @ WriteMessage (Some NewInterested), sends_ok := 3\<rparr>" "[]" 0 None] c(2)
    by (auto simp: session_start_def)
  let ?ss = "\<lparr>ss_conn = c', ss_bitfield = bf, ss_misses = 0\<rparr>"
  let ?sh = "sh\<lparr>ActivePeers := ActivePeers sh + 1\<rparr>"
  let ?r = "dl_run empty_info swarm_hash (replicate 20 9) (str ''/d'') sample_os [swarm_peer]"
  have "?r (one_worker sh (WDial 0) s)" unfolding sh_def by (rule swarm_init [OF s_def])
  note run = one_worker_run [OF this, unfolded n]
  have "wstep 0 swarm_hash (replicate 20 9) (sh, WDial 0) (?sh, WLoop 0 ?ss)"
    by (rule wstep.start [OF sh(3) c(1) st])
  moreover have "wstep 0 swarm_hash (replicate 20 9) (?sh, WLoop 0 ?ss) (?sh, WSelect 0 ?ss)"
    by (rule wstep.check) (use sh in simp_all)
  ultimately have r: "?r (one_worker ?sh (WSelect 0 ?ss) s)"
    using run [OF two_wsteps] sh(2) by simp
  have "\<not> dl_step empty_info swarm_hash (replicate 20 9) (one_worker ?sh (WSelect 0 ?ss) s) t" for t
    by (rule select_stuck) (use sh in \<open>simp_all add: s_def init_sys_def\<close>)
  with run_reachable [OF r] ok sh show ?thesis
    by (intro exI [of _ "one_worker ?sh (WSelect 0 ?ss) s"]) (simp add: running_def s_def init_sys_def)
qed

section \<open>A worker that comes late\<close>

text \<open>
  The result channel is closed when all workers started so far are gone; a peer that a later
  announce finds still gets a worker, whose first result is sent on the closed channel.
\<close>

lemma late_worker_panics:
  "\<exists>s. reachable swarm_info swarm_hash (replicate 20 9) (str ''/d'') sample_os [] s \<and>
    torrent_ok swarm_info (str ''/d'') sample_os \<and> crashed (sy_sh s)"
proof -
  let ?st = "dl_step swarm_info swarm_hash (replicate 20 9)"
  let ?R = "reachable swarm_info swarm_hash (replicate 20 9) (str ''/d'') sample_os []"
  define s where "s = init_sys swarm_info (str ''/d'') sample_os []"
  have s: "sy_workers s = []" "workCh (sy_sh s) = [swarm_work 0 [1, 2, 3, 4], swarm_work 1 [5]]"
    "\<not> crashed (sy_sh s)" "\<not> doneClosed (sy_sh s)" "\<not> egClosed (sy_sh s)" "\<not> sy_resultClosed s" "\<not> sy_waited s"
    by (simp_all add: s_def init_sys_def swarm_all_work)
  let ?w = "s\<lparr>sy_waited := True\<rparr>"
  let ?t = "?w\<lparr>sy_resultClosed := True\<rparr>"
  have "?R s" unfolding s_def by (rule reachable.init)
  moreover have "?st s ?w" by (rule dl_step.wait_done) (use s in simp_all)
  ultimately have "?R ?w" by (rule reachable.step)
  moreover have "?st ?w ?t" by (rule dl_step.close_results) (use s in simp_all)
  ultimately have "?R ?t" by (rule reachable.step)
  moreover have "spawn_step ?t (?t\<lparr>sy_workers := startWorker (Addr swarm_peer) (sy_workers ?t)\<rparr>)"
    by (rule spawn_step.spawn) (use s in simp)
  ultimately have "?R (?t\<lparr>sy_workers := startWorker (Addr swarm_peer) (sy_workers ?t)\<rparr>)"
    by (rule reachable.peer_found)
  then have u: "?R (one_worker (sy_sh s) (WDial 0) ?t)"
    using s(1) by (simp add: startWorker_def active_workers_def maxWorkersPerPeer_def one_worker_def)
  let ?r = "\<lparr>pr_Index = 0, pr_Data = [1, 2, 3, 4], pr_Err = None\<rparr>"
  let ?sh = "(sy_sh s)\<lparr>ActivePeers := ActivePeers (sy_sh s) + 1, workCh := [swarm_work 1 [5]]\<rparr>"
  obtain ss where w: "(wstep 2 swarm_hash (replicate 20 9))\<^sup>*\<^sup>* (sy_sh s, WDial 0) (?sh, WSend 0 ss ?r)"
    using swarm_first [OF _ s(2,4,5), of swarm_hash "replicate 20 9"] by (auto simp: swarm_hash_def)
  let ?v = "one_worker ?sh (WSend 0 ss ?r) ?t"
  have "?st\<^sup>*\<^sup>* (one_worker (sy_sh s) (WDial 0) ?t) ?v"
    by (rule one_worker_steps [OF w [folded swarm_facts(1)]]) (use s in simp)
  then have "?R ?v" using u by (induction rule: rtranclp_induct) (auto intro: reachable.step)
  moreover have "?st ?v (?v\<lparr>sy_sh := (sy_sh ?v)\<lparr>crashed := True\<rparr>\<rparr>)"
    by (rule dl_step.send_closed [where i = 0]) (use s in simp_all)
  ultimately have "?R (?v\<lparr>sy_sh := (sy_sh ?v)\<lparr>crashed := True\<rparr>\<rparr>)" by (rule reachable.step)
  then show ?thesis using swarm_ok by force
qed

section \<open>A worker that is left behind\<close>

text \<open>
  After a write error \<^verbatim>\<open>doneCh\<close> stays open: the workers go on downloading, and the
  first result blocks its worker for ever, as nobody receives it.
\<close>

definition full_os :: os where
  "full_os = sample_os\<lparr>open_err := \<lambda>p. True\<rparr>"

lemma full_os_write:
  "\<exists>dsk. WritePiece 0 [1, 2, 3, 4] (NewWriter swarm_info (str ''/d''), full_os) = (Some ErrOther, dsk)"
proof -
  have "fst (WritePiece 0 [1, 2, 3, 4]
      (NewWriter (sample_info\<lparr>i_Pieces := [h, h']\<rparr>) (str ''/d''), full_os)) = Some ErrOther" for h h'
    by code_simp
  then show ?thesis unfolding swarm_info_def by (metis fst_conv surj_pair)
qed

lemma send_stuck:
  assumes "sy_workers s = [(ad, WSend a ss r)]" and "sy_coll s = Finished e" and "\<not> sy_resultClosed s" and "\<not> sy_waited s"
  shows "\<not> dl_step info ih pid s t"
proof
  assume "dl_step info ih pid s t"
  then show False
  proof (cases rule: dl_step.cases)
    case (work i ad pc sh pc')
    from work(5) show False by (cases rule: wstep.cases) (use work(3,4) assms in auto)
  qed (use assms in auto)
qed

lemma write_error_leaks:
  "\<exists>s a ss r. reachable swarm_info swarm_hash (replicate 20 9) (str ''/d'') full_os [swarm_peer] s \<and>
    sy_coll s = Finished (Some ErrOther) \<and> sy_workers s = [(Addr swarm_peer, WSend a ss r)] \<and>
    \<not> doneClosed (sy_sh s) \<and> (\<forall>t. \<not> dl_step swarm_info swarm_hash (replicate 20 9) s t)"
proof -
  let ?pid = "replicate 20 9 :: bytes"
  let ?R = "dl_run swarm_info swarm_hash ?pid (str ''/d'') full_os [swarm_peer]"
  let ?r = "\<lparr>pr_Index = 0, pr_Data = [1, 2, 3, 4], pr_Err = None\<rparr>"
  define s where "s = init_sys swarm_info (str ''/d'') full_os [swarm_peer]"
  have s: "workCh (sy_sh s) = [swarm_work 0 [1, 2, 3, 4], swarm_work 1 [5]]" "\<not> crashed (sy_sh s)"
    "\<not> doneClosed (sy_sh s)" "\<not> egClosed (sy_sh s)" "sy_coll s = Collecting" "\<not> sy_resultClosed s" "\<not> sy_waited s"
    "sy_completed s = []" "sy_disk s = (NewWriter swarm_info (str ''/d''), full_os)"
    "endgame (sy_sh s) = newEndgameTracker"
    by (simp_all add: s_def init_sys_def swarm_all_work)
  let ?sh = "(sy_sh s)\<lparr>ActivePeers := ActivePeers (sy_sh s) + 1, workCh := [swarm_work 1 [5]]\<rparr>"
  obtain ss where w: "(wstep 2 swarm_hash ?pid)\<^sup>*\<^sup>* (sy_sh s, WDial 0) (?sh, WSend 0 ss ?r)"
    "ss_bitfield ss = None" "rx (ss_conn ss) = piece_stream 1 [5]" "piece_sends 1 [5] \<le> sends_ok (ss_conn ss)"
    using swarm_first [OF _ s(1,3,4), of swarm_hash ?pid] by (auto simp: swarm_hash_def)
  have "?R (one_worker ?sh (WSend 0 ss ?r) s)"
    by (rule one_worker_run [OF swarm_init [OF s_def] w(1) [folded swarm_facts(1)]]) (use s in simp)
  note sent = this
  obtain dsk where "WritePiece 0 [1, 2, 3, 4] (sy_disk s) = (Some ErrOther, dsk)"
    using full_os_write s(9) by auto
  then have "collected swarm_info ?r (one_worker ?sh (WLoop 0 ss) s) = one_worker ?sh (WLoop 0 ss)
      (finish (Some ErrOther) (s\<lparr>sy_completed := mput 0 True (sy_completed s), sy_disk := dsk\<rparr>))" (is "_ = one_worker _ _ ?u")
    using s collected_failed [of ?r "one_worker ?sh (WLoop 0 ss) s" ErrOther dsk swarm_info]
    by (simp add: finish_def one_worker_def eg_after_def newEndgameTracker_def IsActive_def)
  then obtain u where u: "collected swarm_info ?r (one_worker ?sh (WLoop 0 ss) s) = one_worker ?sh (WLoop 0 ss) u"
    "sy_coll u = Finished (Some ErrOther)" "\<not> sy_resultClosed u" "\<not> sy_waited u"
    using s by (intro that [of ?u]) (simp_all add: finish_def)
  have c: "?R (collected swarm_info ?r (one_worker ?sh (WLoop 0 ss) s))"
    by (rule one_worker_collect [OF sent]) (use s u(1) in simp_all)
  let ?sh2 = "?sh\<lparr>workCh := []\<rparr>"
  let ?ss = "ss\<lparr>ss_misses := 0\<rparr>"
  have "wstep 2 swarm_hash ?pid (?sh, WLoop 0 ss) (?sh, WSelect 0 ss)"
    by (rule wstep.check) (use s in simp_all)
  moreover have "wstep 2 swarm_hash ?pid (?sh, WSelect 0 ss) (?sh2, WGot 0 ?ss (swarm_work 1 [5]) False)"
    by (rule wstep.take_work) (use w(2) in \<open>simp_all add: has_piece_def\<close>)
  ultimately have p: "(wstep 2 swarm_hash ?pid)\<^sup>*\<^sup>* (?sh, WLoop 0 ss) (?sh2, WGot 0 ?ss (swarm_work 1 [5]) False)"
    by (rule two_wsteps)
  let ?r2 = "\<lparr>pr_Index = 1, pr_Data = [5], pr_Err = None\<rparr>"
  obtain c2 where g: "wstep 2 swarm_hash ?pid (?sh2, WGot 0 ?ss (swarm_work 1 [5]) False) (?sh2, WSend 0 (?ss\<lparr>ss_conn := c2\<rparr>) ?r2)"
    using swarm_download [of ?ss 1 "[5]" "[]" 0 swarm_hash ?pid ?sh2 0 False] w(3,4) by auto
  let ?v = "one_worker ?sh2 (WSend 0 (?ss\<lparr>ss_conn := c2\<rparr>) ?r2) u"
  have "?R ?v"
    by (rule one_worker_run [OF c [unfolded u(1)] rtranclp.rtrancl_into_rtrancl [OF p g, folded swarm_facts(1)]])
      (use s in simp)
  moreover have "\<not> dl_step swarm_info swarm_hash ?pid ?v t" for t
    by (rule send_stuck) (use u in simp_all)
  ultimately show ?thesis using u(2) s(3) run_reachable
    by (intro exI [of _ ?v] exI [of _ 0] exI [of _ "?ss\<lparr>ss_conn := c2\<rparr>"] exI [of _ ?r2]) simp
qed

end
