(* ===== verification/Magnet.thy ===== *)
theory Magnet
  imports Netaddr
begin

text \<open>
  \<^verbatim>\<open>magnet/magnet.go\<close>: magnet URIs, with what they use of the standard library
  (\<^verbatim>\<open>url.ParseQuery\<close>, \<^verbatim>\<open>hex\<close>, \<^verbatim>\<open>strings.ToUpper\<close>).
\<close>

unbundle bit_operations_syntax

section \<open>Queries\<close>

text \<open>\<^verbatim>\<open>strings.Cut\<close> at a byte; without it the rest is empty.\<close>

definition cut :: "byte \<Rightarrow> bytes \<Rightarrow> bytes \<times> bytes" where
  "cut sep s = (takeWhile (\<lambda>b. b \<noteq> sep) s, tl (dropWhile (\<lambda>b. b \<noteq> sep) s))"

lemma cut_length: "q \<noteq> [] \<Longrightarrow> cut sep q = (f, q') \<Longrightarrow> length q' < length q"
  using length_dropWhile_le [of "\<lambda>b. b \<noteq> sep" q] by (cases q) (auto simp: cut_def)

text \<open>\<^verbatim>\<open>url.QueryUnescape\<close>.\<close>

fun QueryUnescape :: "bytes \<Rightarrow> bytes option" where
  "QueryUnescape [] = Some []"
| "QueryUnescape (c # s) =
     (if c = 37 then
        (case s of
           a # b # s' \<Rightarrow>
             (case (hex_val a, hex_val b) of
                (Some x, Some y) \<Rightarrow> map_option ((#) (of_nat (16 * x + y))) (QueryUnescape s')
              | _ \<Rightarrow> None)
         | _ \<Rightarrow> None)
      else map_option ((#) (if c = 43 then 32 else c)) (QueryUnescape s))"

text \<open>
  One field of a query: \<open>None\<close> where the field is skipped, an error where it makes the whole
  query invalid.
\<close>

definition query_field :: "bytes \<Rightarrow> (error + bytes \<times> bytes) option" where
  "query_field f =
     (if 59 \<in> set f then Some (Inl ErrInvalidQuery)
      else if f = [] then None
      else let (k, v) = cut 61 f
           in case (QueryUnescape k, QueryUnescape v) of
                (Some k', Some v') \<Rightarrow> Some (Inr (k', v'))
              | _ \<Rightarrow> Some (Inl ErrInvalidQuery))"

function parse_query :: "bytes \<Rightarrow> (error + bytes \<times> bytes) list" where
  "parse_query q =
     (if q = [] then []
      else let (f, q') = cut 38 q
           in case query_field f of None \<Rightarrow> parse_query q' | Some x \<Rightarrow> x # parse_query q')"
  by pat_completeness auto
termination
  by (relation "measure length") (auto dest: cut_length [OF _ sym])

declare parse_query.simps [simp del]

text \<open>The fields in order; any bad field makes the query invalid.\<close>

definition ParseQuery :: "bytes \<Rightarrow> error + (bytes \<times> bytes) list" where
  "ParseQuery q =
     (if list_all (\<lambda>x. \<not> isl x) (parse_query q) then Inr (map projr (parse_query q)) else Inl ErrInvalidQuery)"

definition query_all :: "bytes \<Rightarrow> (bytes \<times> bytes) list \<Rightarrow> bytes list" where
  "query_all k ps = map snd (filter (\<lambda>p. fst p = k) ps)"

definition query_get :: "bytes \<Rightarrow> (bytes \<times> bytes) list \<Rightarrow> bytes" where
  "query_get k ps = (case query_all k ps of [] \<Rightarrow> [] | v # vs \<Rightarrow> v)"

section \<open>The info hash\<close>

fun hex_encode :: "bytes \<Rightarrow> bytes" where
  "hex_encode [] = []"
| "hex_encode (b # bs) = hex_digit (unat b div 16) # hex_digit (unat b mod 16) # hex_encode bs"

fun hex_decode :: "bytes \<Rightarrow> bytes option" where
  "hex_decode [] = Some []"
| "hex_decode [a] = None"
| "hex_decode (a # b # s) =
     (case (hex_val a, hex_val b) of
        (Some x, Some y) \<Rightarrow> map_option ((#) (of_nat (16 * x + y))) (hex_decode s)
      | _ \<Rightarrow> None)"

text \<open>
  The characters of \<^verbatim>\<open>strings.ToUpper\<close> as far as the decoder can tell them apart:
  only two characters outside ASCII have an upper case in it, the dotless i (bytes C4 B1) and the
  long s (C5 BF); every other one is not in the alphabet, nor is a byte that is not UTF-8.
\<close>

fun upper_chars :: "bytes \<Rightarrow> byte option list" where
  "upper_chars [] = []"
| "upper_chars (b # s) =
     (if b < 128 then Some (if 97 \<le> b \<and> b \<le> 122 then b - 32 else b) # upper_chars s
      else case s of
          c # s' \<Rightarrow>
            if b = 0xC4 \<and> c = 0xB1 then Some 73 # upper_chars s'
            else if b = 0xC5 \<and> c = 0xBF then Some 83 # upper_chars s'
            else None # upper_chars s
        | [] \<Rightarrow> [None])"

text \<open>The index of a character in the alphabet.\<close>

definition base32_index :: "byte \<Rightarrow> nat option" where
  "base32_index b =
     (if 65 \<le> b \<and> b \<le> 90 then Some (unat b - 65)
      else if 50 \<le> b \<and> b \<le> 55 then Some (unat b - 24)
      else None)"

text \<open>The loop of \<^verbatim>\<open>decodeBase32\<close> with its 64-bit accumulator.\<close>

fun base32_loop :: "64 word \<Rightarrow> nat \<Rightarrow> byte option list \<Rightarrow> bytes option" where
  "base32_loop bits nBits [] = Some []"
| "base32_loop bits nBits (None # cs) = None"
| "base32_loop bits nBits (Some c # cs) =
     (case base32_index c of None \<Rightarrow> None
      | Some idx \<Rightarrow>
          (let bits' = push_bit 5 bits OR of_nat idx; nBits' = nBits + 5
           in if nBits' \<ge> 8
              then map_option ((#) (ucast (drop_bit (nBits' - 8) bits')))
                (base32_loop (bits' AND (push_bit (nBits' - 8) 1 - 1)) (nBits' - 8) cs)
              else base32_loop bits' nBits' cs))"

definition decodeBase32 :: "bytes \<Rightarrow> bytes option" where
  "decodeBase32 s = base32_loop 0 0 (upper_chars s)"

definition parseInfoHash :: "bytes \<Rightarrow> error + bytes" where
  "parseInfoHash xt =
     (if \<not> has_prefix xt (str ''urn:btih:'') then Inl ErrInvalidInfoHash
      else
        let raw = drop 9 xt
        in if length raw = 40 then
             (case hex_decode raw of None \<Rightarrow> Inl ErrInvalidInfoHash
              | Some d \<Rightarrow> Inr (copy (replicate 20 0) d))
           else if length raw = 32 then
             (case decodeBase32 raw of None \<Rightarrow> Inl ErrInvalidInfoHash
              | Some d \<Rightarrow> Inr (copy (replicate 20 0) d))
           else Inl ErrInvalidInfoHash)"

section \<open>Magnet links\<close>

record magnet =
  m_InfoHash :: bytes
  m_Name :: bytes
  m_Trackers :: "bytes list"

definition Parse_magnet :: "bytes \<Rightarrow> error + magnet" where
  "Parse_magnet raw =
     (if \<not> has_prefix raw (str ''magnet:?'') then Inl ErrInvalidScheme
      else case ParseQuery (drop 8 raw) of Inl e \<Rightarrow> Inl e
      | Inr params \<Rightarrow>
          (let xt = query_get (str ''xt'') params
           in if xt = [] then Inl ErrMissingInfoHash
              else case parseInfoHash xt of Inl e \<Rightarrow> Inl e
              | Inr infoHash \<Rightarrow>
                  Inr \<lparr>m_InfoHash = infoHash, m_Name = query_get (str ''dn'') params,
                       m_Trackers = query_all (str ''tr'') params\<rparr>))"

definition HexHash :: "magnet \<Rightarrow> bytes" where
  "HexHash m = hex_encode (m_InfoHash m)"

section \<open>Base 32\<close>

text \<open>A number as its bits, the most significant first; bytes and five-bit groups.\<close>

definition bits_val :: "bool list \<Rightarrow> 'a::comm_semiring_1" where
  "bits_val p = horner_sum of_bool 2 (rev p)"

definition bits8 :: "byte \<Rightarrow> bool list" where
  "bits8 b = map (bit b) [7, 6, 5, 4, 3, 2, 1, 0]"

definition base32_char :: "nat \<Rightarrow> byte" where
  "base32_char i = (if i < 26 then 65 + of_nat i else 24 + of_nat i)"

definition base32_encode :: "bytes \<Rightarrow> bytes" where
  "base32_encode bs = map (\<lambda>c. base32_char (bits_val c)) (chunks 5 (concat (map bits8 bs)))"

lemma of_nat_bits_val: "of_nat (bits_val p) = bits_val p"
proof -
  have "of_nat (horner_sum of_bool 2 q) = horner_sum of_bool 2 q" for q
    by (induction q) simp_all
  then show ?thesis by (simp add: bits_val_def)
qed

lemma bits_val_less: "bits_val p < (2 :: nat) ^ length p"
  using horner_sum_of_bool_2_less [of "rev p", where 'a = nat] by (simp add: bits_val_def)

lemma bit_bits_val: "bit (bits_val p :: 'a::len word) k \<longleftrightarrow> k < LENGTH('a) \<and> k < length p \<and> rev p ! k"
  by (auto simp: bits_val_def bit_horner_sum_bit_word_iff)

lemma bits_val_push:
  "length b = 5 \<Longrightarrow> push_bit 5 (bits_val p :: 64 word) OR bits_val b = bits_val (p @ b)"
  by (rule bit_word_eqI) (auto simp: bit_simps bit_bits_val nth_append)

lemma bits_val_take:
  "length q = n + 8 \<Longrightarrow> n \<le> 56 \<Longrightarrow> ucast (drop_bit n (bits_val q :: 64 word)) = (bits_val (take 8 q) :: byte)"
proof (rule bit_word_eqI)
  fix k assume len: "length q = n + 8" "n \<le> 56" and k: "k < LENGTH(8)"
  have "rev q = rev (drop 8 q) @ rev (take 8 q)" by (metis append_take_drop_id rev_append)
  then have "rev q ! (n + k) = rev (take 8 q) ! k" using len by (simp add: nth_append)
  then show "bit (ucast (drop_bit n (bits_val q :: 64 word)) :: byte) k = bit (bits_val (take 8 q) :: byte) k"
    using len k by (simp add: bit_simps bit_bits_val)
qed

lemma bits_val_mask:
  "length q = n + 8 \<Longrightarrow> n \<le> 56 \<Longrightarrow> (bits_val q :: 64 word) AND (push_bit n 1 - 1) = bits_val (drop 8 q)"
proof (rule bit_word_eqI)
  fix k assume len: "length q = n + 8" "n \<le> 56" and k: "k < LENGTH(64)"
  have m: "push_bit n 1 - 1 = (mask n :: 64 word)" by (simp add: mask_eq_exp_minus_1 push_bit_of_1)
  have "rev q = rev (drop 8 q) @ rev (take 8 q)" by (metis append_take_drop_id rev_append)
  then have "k < n \<Longrightarrow> rev q ! k = rev (drop 8 q) ! k" using len by (simp add: nth_append)
  then show "bit ((bits_val q :: 64 word) AND (push_bit n 1 - 1)) k = bit (bits_val (drop 8 q) :: 64 word) k"
    unfolding m using len k by (auto simp: bit_simps bit_bits_val)
qed

lemma base32_index_char:
  assumes "i < 32"
  shows "base32_index (base32_char i) = Some i"
proof -
  have "\<forall>i\<in>set [0..<32]. base32_index (base32_char i) = Some i" by code_simp
  then show ?thesis using assms by simp
qed

lemma upper_char:
  assumes "i < 32"
  shows "upper_chars (base32_char i # s) = Some (base32_char i) # upper_chars s"
proof -
  have "\<forall>i\<in>set [0..<32]. base32_char i < 128 \<and> \<not> (97 \<le> base32_char i \<and> base32_char i \<le> 122)" by code_simp
  then show ?thesis using assms by auto
qed

text \<open>The loop reads the bits of the characters eight at a time.\<close>

lemma base32_loop_bits:
  assumes "length p < 8" and "\<forall>c\<in>set cs. length c = 5"
  shows "base32_loop (bits_val p) (length p) (map (\<lambda>c. Some (base32_char (bits_val c))) cs) =
    Some (map bits_val (chunks 8 (p @ concat cs)))"
  using assms
proof (induction cs arbitrary: p)
  case Nil
  then show ?case by (simp add: chunks_short)
next
  case (Cons c cs)
  have "bits_val c < (2 :: nat) ^ 5" using bits_val_less [of c] Cons.prems(2) by simp
  then have idx: "base32_index (base32_char (bits_val c)) = Some (bits_val c)"
    by (intro base32_index_char) simp
  have push: "push_bit 5 (bits_val p :: 64 word) OR of_nat (bits_val c) = bits_val (p @ c)"
    using bits_val_push [of c p] Cons.prems(2) by (simp add: of_nat_bits_val)
  let ?q = "p @ c"
  show ?case
  proof (cases "length p + 5 \<ge> 8")
    case True
    let ?n = "length p + 5 - 8"
    have q: "length ?q = ?n + 8" "?n \<le> 56" using True Cons.prems by auto
    have "length (drop 8 ?q) < 8" "length (drop 8 ?q) = ?n" using q Cons.prems(1) by auto
    then have "base32_loop (bits_val (drop 8 ?q)) ?n (map (\<lambda>c. Some (base32_char (bits_val c))) cs) =
        Some (map bits_val (chunks 8 (drop 8 ?q @ concat cs)))"
      using Cons.IH [of "drop 8 ?q"] Cons.prems(2) by simp
    moreover have "chunks 8 (?q @ concat cs) = take 8 ?q # chunks 8 (drop 8 ?q @ concat cs)"
      using chunks_append [of "take 8 ?q" 8 "drop 8 ?q @ concat cs"] q(1)
      by (metis append_assoc append_take_drop_id le_add2 length_take min_absorb2 zero_less_numeral)
    ultimately show ?thesis
      using True idx push bits_val_take [OF q] bits_val_mask [OF q] by (simp add: Let_def)
  next
    case False
    have "length ?q = length p + 5" using Cons.prems(2) by simp
    then show ?thesis using False idx push Cons.IH [of ?q] Cons.prems(2) by (simp add: Let_def)
  qed
qed

lemma bits_val_bits8: "bits_val (bits8 b) = b"
proof (rule bit_word_eqI)
  fix k assume k: "k < LENGTH(8)"
  have "rev (bits8 b) = map (bit b) [0, 1, 2, 3, 4, 5, 6, 7]" by (simp add: bits8_def)
  moreover have "[0, 1, 2, 3, 4, 5, 6, 7] = [0..<8]" by (simp add: upt_rec)
  ultimately have "rev (bits8 b) = map (bit b) [0..<8]" by (simp only:)
  then show "bit (bits_val (bits8 b) :: byte) k = bit b k" using k
    by (simp add: bit_bits_val) (simp add: bits8_def)
qed

lemma length_bits8: "length (bits8 b) = 8"
  by (simp add: bits8_def)

lemma base32_roundtrip:
  assumes "5 dvd length bs"
  shows "decodeBase32 (base32_encode bs) = Some bs" and "length (base32_encode bs) = 8 * length bs div 5"
proof -
  let ?bits = "concat (map bits8 bs)"
  have len: "length ?bits = 8 * length bs" by (induction bs) (simp_all add: length_bits8)
  have ch: "\<forall>c\<in>set (chunks 5 ?bits). length c = 5" by (simp add: set_chunks_length)
  have up: "upper_chars (map (\<lambda>c. base32_char (bits_val c)) cs) = map (\<lambda>c. Some (base32_char (bits_val c))) cs"
    if "\<forall>c\<in>set cs. length c = 5" for cs
    using that
  proof (induction cs)
    case (Cons c cs)
    have "bits_val c < (2 :: nat) ^ 5" using bits_val_less [of c] Cons.prems by simp
    then show ?case using Cons upper_char [of "bits_val c"] by simp
  qed simp
  have "decodeBase32 (base32_encode bs) = base32_loop (bits_val []) (length ([] :: bool list))
      (map (\<lambda>c. Some (base32_char (bits_val c))) (chunks 5 ?bits))"
    by (simp add: decodeBase32_def base32_encode_def up [OF ch]) (simp add: bits_val_def)
  also have "\<dots> = Some (map bits_val (chunks 8 ([] @ concat (chunks 5 ?bits))))"
    by (rule base32_loop_bits [OF _ ch]) simp
  also have "concat (chunks 5 ?bits) = ?bits" using assms len by (intro concat_chunks) (auto simp: dvd_mult)
  also have "chunks 8 ([] @ ?bits) = map bits8 bs"
    by (induction bs) (simp_all add: chunks_append length_bits8)
  finally show "decodeBase32 (base32_encode bs) = Some bs" by (simp add: bits_val_bits8 comp_def)
  show "length (base32_encode bs) = 8 * length bs div 5" by (simp add: base32_encode_def length_chunks len)
qed

section \<open>Links\<close>

lemma hex_val_digit: "n < 16 \<Longrightarrow> hex_val (hex_digit n) = Some n"
proof -
  have "\<forall>n\<in>set [0..<16]. hex_val (hex_digit n) = Some n" by code_simp
  then show "n < 16 \<Longrightarrow> ?thesis" by simp
qed

lemma hex_digit_plain: "n < 16 \<Longrightarrow> hex_digit n \<noteq> 38 \<and> hex_digit n \<noteq> 59 \<and> hex_digit n \<noteq> 61 \<and> hex_digit n \<noteq> 37"
proof -
  have "\<forall>n\<in>set [0..<16]. hex_digit n \<noteq> 38 \<and> hex_digit n \<noteq> 59 \<and> hex_digit n \<noteq> 61 \<and> hex_digit n \<noteq> 37"
    by code_simp
  then show "n < 16 \<Longrightarrow> ?thesis" by simp
qed

lemma byte_nibbles:
  fixes b :: byte
  shows "unat b div 16 < 16" "unat b mod 16 < 16" "(of_nat (16 * (unat b div 16) + unat b mod 16) :: byte) = b"
proof -
  show "unat b div 16 < 16" using unat_byte [of b] by (simp add: div_less_iff_less_mult)
  have "16 * (unat b div 16) + unat b mod 16 = unat b" by simp
  then show "(of_nat (16 * (unat b div 16) + unat b mod 16) :: byte) = b" by (simp only: of_nat_unat ucast_id)
qed simp

lemma hex_roundtrip: "hex_decode (hex_encode bs) = Some bs" and length_hex: "length (hex_encode bs) = 2 * length bs"
  by (induction bs) (simp_all add: hex_val_digit byte_nibbles del: of_nat_add of_nat_mult)

section \<open>Spellings of a field\<close>

text \<open>
  The texts a query may spell a value with: each byte as itself, unless it has a meaning of its
  own, or as a percent sign and two hexadecimal digits of either case; a space also as a plus
  sign. An equals sign may stand for itself in a value, not in a key.
\<close>

fun spells :: "bytes \<Rightarrow> bytes \<Rightarrow> bool" where
  "spells [] v = (v = [])"
| "spells (c # t) [] = False"
| "spells (c # t) (w # v) =
     (if c = 37 then
        (case t of
           a # b # t' \<Rightarrow> hex_val a = Some (unat w div 16) \<and> hex_val b = Some (unat w mod 16) \<and> spells t' v
         | _ \<Rightarrow> False)
      else if c = 43 then w = 32 \<and> spells t v
      else c \<noteq> 38 \<and> c \<noteq> 59 \<and> w = c \<and> spells t v)"

definition field_spelled :: "bytes \<Rightarrow> bytes \<times> bytes \<Rightarrow> bool" where
  "field_spelled f p \<longleftrightarrow> 61 \<in> set f \<and> spells (fst (cut 61 f)) (fst p) \<and> spells (snd (cut 61 f)) (snd p)"

lemma spells_unescape: "spells t v \<Longrightarrow> QueryUnescape t = Some v"
proof (induction t v rule: spells.induct)
  case (3 c t w v)
  then show ?case by (auto simp: byte_nibbles split: if_splits list.splits simp del: of_nat_add of_nat_mult)
qed simp_all

lemma hex_val_plain: "hex_val a = Some n \<Longrightarrow> a \<noteq> 38 \<and> a \<noteq> 59 \<and> a \<noteq> 61"
  by (auto simp: hex_val_def)

lemma spells_plain: "spells t v \<Longrightarrow> 38 \<notin> set t \<and> 59 \<notin> set t"
proof (induction t v rule: spells.induct)
  case (3 c t w v)
  then show ?case using hex_val_plain by (auto split: if_splits list.splits)
qed simp_all

lemma cut_app: "sep \<notin> set a \<Longrightarrow> cut sep (a @ sep # b) = (a, b)"
  by (induction a) (auto simp: cut_def)

lemma cut_none: "sep \<notin> set a \<Longrightarrow> cut sep a = (a, [])"
  by (induction a) (auto simp: cut_def)

lemma cut_whole: "sep \<in> set f \<Longrightarrow> f = fst (cut sep f) @ sep # snd (cut sep f)"
  by (metis cut_app fst_conv snd_conv split_list_first)

lemma field_parsed:
  assumes "field_spelled f p"
  shows "query_field f = Some (Inr p)" and "38 \<notin> set f" and "f \<noteq> []"
proof -
  obtain k v where kv: "cut 61 f = (k, v)" by (rule prod.exhaust)
  have sp: "spells k (fst p)" "spells v (snd p)" and f: "f = k @ 61 # v"
    using assms kv cut_whole [of 61 f] by (simp_all add: field_spelled_def)
  then have plain: "38 \<notin> set f" "59 \<notin> set f" using spells_plain by auto
  then show "query_field f = Some (Inr p)" "38 \<notin> set f" "f \<noteq> []"
    using kv spells_unescape [OF sp(1)] spells_unescape [OF sp(2)] f by (simp_all add: query_field_def)
qed

lemma fields_parsed: "list_all2 field_spelled fs ps \<Longrightarrow> parse_query (join_with [38] fs) = map Inr ps"
proof (induction fs arbitrary: ps)
  case (Cons f fs)
  obtain p qs where ps: "ps = p # qs" "field_spelled f p" "list_all2 field_spelled fs qs"
    using Cons.prems by (auto simp: list_all2_Cons1)
  note f = field_parsed [OF ps(2)]
  show ?case
  proof (cases fs)
    case Nil
    then show ?thesis using f cut_none [OF f(2)] ps(1,3)
      by (simp add: parse_query.simps [of f] parse_query.simps [of "[]"])
  next
    case (Cons g gs)
    then have j: "join_with [38] (f # fs) = f @ 38 # join_with [38] fs" by simp
    show ?thesis unfolding j using Cons.IH [OF ps(3)] cut_app [OF f(2)] f(1,3) ps(1)
      by (subst parse_query.simps) simp
  qed
qed (simp add: parse_query.simps)

lemma query_spelled: "list_all2 field_spelled fs ps \<Longrightarrow> ParseQuery (join_with [38] fs) = Inr ps"
  by (simp add: ParseQuery_def fields_parsed list_all_iff comp_def)

text \<open>What is asked of an escape: it spells every value, with no equals sign.\<close>

definition field_text :: "(bytes \<Rightarrow> bytes) \<Rightarrow> bytes \<times> bytes \<Rightarrow> bytes" where
  "field_text esc p = esc (fst p) @ [61] @ esc (snd p)"

locale query_escape =
  fixes esc :: "bytes \<Rightarrow> bytes"
  assumes spelling: "spells (esc s) s"
    and no_equals: "61 \<notin> set (esc s)"
begin

lemma unescape: "QueryUnescape (esc s) = Some s"
  by (rule spells_unescape [OF spelling])

lemma query_parsed: "ParseQuery (join_with [38] (map (field_text esc) ps)) = Inr ps"
proof (rule query_spelled)
  have "field_spelled (field_text esc p) p" for p
    using cut_app [OF no_equals] spelling by (simp add: field_spelled_def field_text_def)
  then show "list_all2 field_spelled (map (field_text esc) ps) ps" by (simp add: list_all2_map1 list.rel_refl)
qed

end

text \<open>The escape of every byte, and text that spells itself.\<close>

definition escape :: "bytes \<Rightarrow> bytes" where
  "escape s = concat (map (\<lambda>b. 37 # hex_encode [b]) s)"

lemma hex_digit_equals: "n < 16 \<Longrightarrow> hex_digit n \<noteq> 61"
  using hex_digit_plain by blast

interpretation percent: query_escape escape
proof
  show "spells (escape s) s" for s
    by (induction s) (simp_all add: escape_def hex_val_digit byte_nibbles)
  show "61 \<notin> set (escape s)" for s
    using hex_digit_equals byte_nibbles(1,2) by (induction s) (auto simp: escape_def)
qed

lemma spells_self: "list_all (\<lambda>c. c \<notin> {37, 38, 43, 59}) t \<Longrightarrow> spells t t"
  by (induction t) auto

section \<open>Links\<close>

text \<open>A hash in either form, with letters of either case.\<close>

definition ascii_lower :: "byte \<Rightarrow> byte" where
  "ascii_lower b = (if 65 \<le> b \<and> b \<le> 90 then b + 32 else b)"

definition ascii_upper :: "byte \<Rightarrow> byte" where
  "ascii_upper b = (if 97 \<le> b \<and> b \<le> 122 then b - 32 else b)"

definition hash_text :: "bytes \<Rightarrow> bytes \<Rightarrow> bool" where
  "hash_text h t \<longleftrightarrow> map ascii_lower t = hex_encode h \<or> map ascii_upper t = base32_encode h"

lemmas byte_order = word_le_nat_alt word_less_nat_alt unat_plus_if' unat_sub_if'

lemma hex_val_lower: "hex_val (ascii_lower b) = hex_val b"
  by (auto simp: hex_val_def ascii_lower_def byte_order)

lemma upper_once: "ascii_upper (ascii_upper b) = ascii_upper b"
  by (auto simp: ascii_upper_def byte_order)

lemma upper_small: "ascii_upper b < 128 \<longleftrightarrow> b < 128"
  by (auto simp: ascii_upper_def byte_order)

lemma hex_decode_lower: "hex_decode (map ascii_lower t) = hex_decode t"
  by (induction t rule: hex_decode.induct) (simp_all add: hex_val_lower split: option.split)

lemma upper_chars_ascii: "list_all (\<lambda>b. b < 128) t \<Longrightarrow> upper_chars t = map (\<lambda>b. Some (ascii_upper b)) t"
  by (induction t) (simp_all add: ascii_upper_def)

lemma base32_ascii: "list_all (\<lambda>b. b < 128) (base32_encode h)"
proof -
  have c: "\<forall>i\<in>set [0..<32]. base32_char i < 128" by code_simp
  have "base32_char (bits_val c) < 128" if "c \<in> set (chunks 5 (concat (map bits8 h)))" for c
  proof -
    have "bits_val c < (2 :: nat) ^ 5" using bits_val_less [of c] set_chunks_length [OF that] by simp
    with c show ?thesis by simp
  qed
  then show ?thesis by (simp add: base32_encode_def list_all_iff)
qed

lemma decodeBase32_upper:
  assumes "map ascii_upper t = base32_encode h"
  shows "decodeBase32 t = decodeBase32 (base32_encode h)"
proof -
  have "list_all (\<lambda>b. b < 128) (map ascii_upper t)" unfolding assms by (rule base32_ascii)
  then have a: "list_all (\<lambda>b. b < 128) t" "list_all (\<lambda>b. b < 128) (map ascii_upper t)"
    by (simp_all add: list.pred_map upper_small comp_def)
  then show ?thesis
    by (simp add: decodeBase32_def assms [symmetric] upper_chars_ascii upper_once comp_def)
qed

lemma parseInfoHash_text:
  assumes "length h = 20" and "hash_text h t"
  shows "parseInfoHash (str ''urn:btih:'' @ t) = Inr h"
proof (cases "map ascii_lower t = hex_encode h")
  case True
  then have "length t = 40" using length_hex [of h] assms(1) by (metis length_map mult_2 numeral_Bit0)
  moreover have "hex_decode t = Some h" using hex_decode_lower [of t] True by (simp add: hex_roundtrip)
  ultimately show ?thesis using assms(1) by (simp add: parseInfoHash_def copy_same_length)
next
  case False
  then have u: "map ascii_upper t = base32_encode h" using assms(2) by (simp add: hash_text_def)
  have b: "decodeBase32 (base32_encode h) = Some h" "length (base32_encode h) = 32"
    using base32_roundtrip [of h] assms(1) by simp_all
  then have "length t = 32" using u by (metis length_map)
  then show ?thesis using decodeBase32_upper [OF u] b assms(1) by (simp add: parseInfoHash_def copy_same_length)
qed

lemma Parse_magnet_link:
  assumes "ParseQuery q = Inr ps"
    and "query_get (str ''xt'') ps = str ''urn:btih:'' @ t" and "parseInfoHash (str ''urn:btih:'' @ t) = Inr h"
  shows "Parse_magnet (str ''magnet:?'' @ q) =
    Inr \<lparr>m_InfoHash = h, m_Name = query_get (str ''dn'') ps, m_Trackers = query_all (str ''tr'') ps\<rparr>"
proof -
  have "str ''urn:btih:'' \<noteq> []" by (simp add: str_def)
  then show ?thesis using assms by (simp add: Parse_magnet_def)
qed

text \<open>C16. A link is parsed as it is written: whatever fields it has, in any order, each byte of
  their keys and values standing for itself, percent-escaped or, for a space, written as a plus
  sign, and its hash in hexadecimal or in base 32 with letters of either case, the result is that
  hash, the value of the first name, and the trackers in their order.\<close>

theorem magnet_roundtrip:
  assumes "list_all2 field_spelled fs ps" and "length h = 20" and "hash_text h t"
    and "query_get (str ''xt'') ps = str ''urn:btih:'' @ t"
  shows "Parse_magnet (str ''magnet:?'' @ join_with [38] fs) =
    Inr \<lparr>m_InfoHash = h, m_Name = query_get (str ''dn'') ps, m_Trackers = query_all (str ''tr'') ps\<rparr>"
  by (rule Parse_magnet_link [OF query_spelled [OF assms(1)] assms(4) parseInfoHash_text [OF assms(2,3)]])

definition sample_hash :: bytes where
  "sample_hash = [0xd9, 0x84, 0xf6, 0x7a, 0xf9, 0x91, 0x7b, 0x21, 0x4c, 0xd8, 0xb6, 0x04, 0x8a, 0xb5, 0x62, 0x4c,
     0x7d, 0xf6, 0xa0, 0x7a]"

theorem magnet_roundtrip_witness:
  "Parse_magnet (str ''magnet:?xt=urn:btih:d984F67af9917b214cd8b6048ab5624c7df6a07a&dn=Test+File&tr=http%3A%2f%2Fone.com&tr=http://two.com/a?b=c'') =
    Inr \<lparr>m_InfoHash = sample_hash, m_Name = str ''Test File'', m_Trackers = [str ''http://one.com'', str ''http://two.com/a?b=c'']\<rparr>"
proof -
  let ?fs = "[str ''xt=urn:btih:d984F67af9917b214cd8b6048ab5624c7df6a07a'', str ''dn=Test+File'', str ''tr=http%3A%2f%2Fone.com'',
      str ''tr=http://two.com/a?b=c'']"
  let ?ps = "[(str ''xt'', str ''urn:btih:d984F67af9917b214cd8b6048ab5624c7df6a07a''), (str ''dn'', str ''Test File''),
      (str ''tr'', str ''http://one.com''), (str ''tr'', str ''http://two.com/a?b=c'')]"
  have "list_all2 field_spelled ?fs ?ps" "length sample_hash = 20"
    "hash_text sample_hash (str ''d984F67af9917b214cd8b6048ab5624c7df6a07a'')"
    "query_get (str ''xt'') ?ps = str ''urn:btih:'' @ str ''d984F67af9917b214cd8b6048ab5624c7df6a07a''"
    by code_simp+
  note M = magnet_roundtrip [OF this]
  moreover have "str ''magnet:?'' @ join_with [38] ?fs =
      str ''magnet:?xt=urn:btih:d984F67af9917b214cd8b6048ab5624c7df6a07a&dn=Test+File&tr=http%3A%2f%2Fone.com&tr=http://two.com/a?b=c''"
    "query_get (str ''dn'') ?ps = str ''Test File''" "query_all (str ''tr'') ?ps = [str ''http://one.com'', str ''http://two.com/a?b=c'']"
    by code_simp+
  ultimately show ?thesis by simp
qed

text \<open>C19. Whatever the input, a link that is accepted has the magnet scheme and an info hash of
  exactly 20 bytes, and its hash printed in hexadecimal and linked again gives the same hash; the
  errors are those of the package.\<close>

theorem magnet_hash:
  "(\<exists>m. Parse_magnet raw = Inr m \<and> has_prefix raw (str ''magnet:?'') \<and> length (m_InfoHash m) = 20 \<and>
      length (HexHash m) = 40 \<and> parseInfoHash (str ''urn:btih:'' @ HexHash m) = Inr (m_InfoHash m)) \<or>
    Parse_magnet raw \<in> {Inl ErrInvalidScheme, Inl ErrInvalidQuery, Inl ErrMissingInfoHash, Inl ErrInvalidInfoHash}"
proof (cases "Parse_magnet raw")
  case (Inl e)
  then have "e \<in> {ErrInvalidScheme, ErrInvalidQuery, ErrMissingInfoHash, ErrInvalidInfoHash}"
    by (auto simp: Parse_magnet_def ParseQuery_def parseInfoHash_def Let_def
        split: if_splits option.splits sum.splits)
  with Inl show ?thesis by auto
next
  case (Inr m)
  then have m: "has_prefix raw (str ''magnet:?'')" "\<exists>xt. parseInfoHash xt = Inr (m_InfoHash m)"
    by (auto simp: Parse_magnet_def Let_def split: if_splits sum.splits)
  then have len: "length (m_InfoHash m) = 20"
    by (auto simp: parseInfoHash_def Let_def split: if_splits option.splits) (metis length_copy length_replicate)+
  then have "parseInfoHash (str ''urn:btih:'' @ HexHash m) = Inr (m_InfoHash m)" "length (HexHash m) = 40"
    by (simp_all add: HexHash_def parseInfoHash_def length_hex hex_roundtrip copy_same_length)
  with Inr m(1) len show ?thesis by blast
qed

text \<open>
  A dotless i counts two bytes of the text but one character of the code, so a text of the right
  length may give fewer than 20 bytes; the rest of the hash is then zero.
\<close>

lemma short_base32_accepted:
  "parseInfoHash (str ''urn:btih:'' @ concat (replicate 16 [0xC4, 0xB1])) =
    Inr ([66, 16, 132, 33, 8, 66, 16, 132, 33, 8] @ replicate 10 0)"
  by code_simp

end
