(* ===== verification/Tracker.thy ===== *)
theory Tracker
  imports Magnet
begin

text \<open>
  \<^verbatim>\<open>tracker/tracker.go\<close>: announcing to HTTP and UDP trackers and parsing the
  peers they return. The network is what it delivers: the body an HTTP server returns for a query
  and the datagrams a UDP tracker sends are arguments, as are the parsed tracker URL and the
  random transaction ids.
\<close>

section \<open>Lists of peers\<close>

definition compact_peer :: "bytes \<Rightarrow> peer" where
  "compact_peer d = \<lparr>IP = take 4 d, Port = get_u16 (take 2 (drop 4 d))\<rparr>"

definition ParseCompactPeers :: "bytes \<Rightarrow> error + peer list" where
  "ParseCompactPeers data =
     (if length data mod 6 \<noteq> 0 then Inl ErrBadResponse else Inr (map compact_peer (chunks 6 data)))"

fun parseDictPeers :: "any list \<Rightarrow> peer list" where
  "parseDictPeers [] = []"
| "parseDictPeers (GMap d # xs) =
     (let ip = (case as_string (mget d (str ''ip'')) of Some s \<Rightarrow> s | None \<Rightarrow> []);
          port = (case as_int64 (mget d (str ''port'')) of Some n \<Rightarrow> n | None \<Rightarrow> 0)
      in if ip = [] \<or> port = 0 then parseDictPeers xs
         else \<lparr>IP = ParseIP ip, Port = word_of_int port\<rparr> # parseDictPeers xs)"
| "parseDictPeers (_ # xs) = parseDictPeers xs"

definition parsePeers :: "(bytes, any) gomap \<Rightarrow> error + peer list" where
  "parsePeers d =
     (case mget d (str ''peers'') of
        Some (GString p) \<Rightarrow> ParseCompactPeers p
      | Some (GList xs) \<Rightarrow> Inr (parseDictPeers xs)
      | _ \<Rightarrow> Inl ErrBadResponse)"

definition parseHTTPResponse :: "bytes \<Rightarrow> error + peer list" where
  "parseHTTPResponse body =
     (case Decode body of
        Inl e \<Rightarrow> Inl (if e = Panic then Panic else ErrBadResponse)
      | Inr (GMap d) \<Rightarrow>
          (case as_string (mget d (str ''failure reason'')) of
             Some s \<Rightarrow> Inl ErrTrackerFailure
           | None \<Rightarrow> parsePeers d)
      | Inr v \<Rightarrow> Inl ErrBadResponse)"

section \<open>HTTP\<close>

record announceParams =
  ap_InfoHash :: bytes
  ap_PeerID :: bytes
  ap_Port :: "16 word"
  ap_Left :: int

text \<open>\<^verbatim>\<open>url.QueryEscape\<close>, \<^verbatim>\<open>url.URL.Query\<close> and
  \<^verbatim>\<open>url.Values.Encode\<close>.\<close>

definition upper_hex :: "nat \<Rightarrow> byte" where
  "upper_hex n = (if n < 10 then 48 + of_nat n else 55 + of_nat n)"

definition unreserved :: "byte \<Rightarrow> bool" where
  "unreserved b \<longleftrightarrow> (97 \<le> b \<and> b \<le> 122) \<or> (65 \<le> b \<and> b \<le> 90) \<or> (48 \<le> b \<and> b \<le> 57) \<or>
     b \<in> {45, 95, 46, 126}"

fun QueryEscape :: "bytes \<Rightarrow> bytes" where
  "QueryEscape [] = []"
| "QueryEscape (b # s) =
     (if b = 32 then [43] else if unreserved b then [b]
      else [37, upper_hex (unat b div 16), upper_hex (unat b mod 16)]) @ QueryEscape s"

type_synonym url_values = "(bytes, bytes list) gomap"

definition url_Query :: "bytes \<Rightarrow> url_values" where
  "url_Query raw =
     foldl (\<lambda>m x. case x of Inl e \<Rightarrow> m
       | Inr (k, v) \<Rightarrow> mput k ((case mget m k of None \<Rightarrow> [] | Some vs \<Rightarrow> vs) @ [v]) m) [] (parse_query raw)"

definition url_fields :: "url_values \<Rightarrow> (bytes \<times> bytes) list" where
  "url_fields m = concat (map (\<lambda>(k, vs). map (Pair k) vs) m)"

definition url_Encode :: "url_values \<Rightarrow> bytes" where
  "url_Encode m = join_with [38] (map (field_text QueryEscape) (url_fields m))"

text \<open>The query sent to the tracker, from the one its URL has.\<close>

definition announce_sets :: "announceParams \<Rightarrow> (bytes \<times> bytes) list" where
  "announce_sets params =
     [(str ''info_hash'', ap_InfoHash params), (str ''peer_id'', ap_PeerID params),
      (str ''port'', show_int (uint (ap_Port params))), (str ''uploaded'', str ''0''),
      (str ''downloaded'', str ''0''), (str ''left'', show_int (ap_Left params)),
      (str ''compact'', str ''1''), (str ''event'', str ''started'')]"

definition announce_query :: "bytes \<Rightarrow> announceParams \<Rightarrow> bytes" where
  "announce_query raw params =
     url_Encode (foldl (\<lambda>m (k, v). mput k [v] m) (url_Query raw) (announce_sets params))"

definition announceHTTP :: "(bytes \<Rightarrow> error + bytes) \<Rightarrow> bytes \<Rightarrow> announceParams \<Rightarrow> error + peer list" where
  "announceHTTP http raw params =
     (case http (announce_query raw params) of Inl e \<Rightarrow> Inl e | Inr body \<Rightarrow> parseHTTPResponse body)"

section \<open>UDP\<close>

text \<open>A connected UDP socket: the datagrams that arrive before the deadline, those sent, and how
  many more can be sent.\<close>

record udp =
  up_in :: "bytes list"
  up_out :: "bytes list"
  up_writes :: nat

definition udp_Write :: "bytes \<Rightarrow> udp \<Rightarrow> error + udp" where
  "udp_Write b c =
     (case up_writes c of 0 \<Rightarrow> Inl ErrOther
      | Suc n \<Rightarrow> Inr (c\<lparr>up_out := up_out c @ [b], up_writes := n\<rparr>))"

text \<open>One read takes one datagram, of which what does not fit is lost.\<close>

definition udp_Read :: "nat \<Rightarrow> udp \<Rightarrow> error + bytes \<times> udp" where
  "udp_Read n c =
     (case up_in c of [] \<Rightarrow> Inl ErrOther | p # ps \<Rightarrow> Inr (take n p, c\<lparr>up_in := ps\<rparr>))"

text \<open>\<^verbatim>\<open>io.ReadFull\<close> reads datagrams until the buffer is full.\<close>

fun full_read :: "nat \<Rightarrow> bytes list \<Rightarrow> (bytes \<times> bytes list) option" where
  "full_read n [] = (if n = 0 then Some ([], []) else None)"
| "full_read n (p # ps) =
     (if n = 0 then Some ([], p # ps)
      else map_option (\<lambda>(r, ps'). (take n p @ r, ps')) (full_read (n - length (take n p)) ps))"

definition udp_ReadFull :: "nat \<Rightarrow> udp \<Rightarrow> error + bytes \<times> udp" where
  "udp_ReadFull n c =
     (case full_read n (up_in c) of None \<Rightarrow> Inl ErrOther | Some (r, ps) \<Rightarrow> Inr (r, c\<lparr>up_in := ps\<rparr>))"

definition connect_request :: "32 word \<Rightarrow> bytes" where
  "connect_request transactionID = put_u64 0x41727101980 @ put_u32 0 @ put_u32 transactionID"

definition udpConnectHandshake :: "32 word \<Rightarrow> udp \<Rightarrow> error + 64 word \<times> udp" where
  "udpConnectHandshake transactionID c =
     (case udp_Write (connect_request transactionID) c of Inl e \<Rightarrow> Inl e
      | Inr c1 \<Rightarrow>
          (case udp_ReadFull 16 c1 of Inl e \<Rightarrow> Inl e
           | Inr (resp, c2) \<Rightarrow>
               if get_u32 (take 4 resp) \<noteq> 0 then Inl ErrBadResponse
               else if get_u32 (take 4 (drop 4 resp)) \<noteq> transactionID then Inl ErrBadResponse
               else Inr (get_u64 (take 8 (drop 8 resp)), c2)))"

definition announce_request :: "64 word \<Rightarrow> 32 word \<Rightarrow> announceParams \<Rightarrow> bytes" where
  "announce_request connectionID transactionID params =
     put_u64 connectionID @ put_u32 1 @ put_u32 transactionID @
     copy (replicate 20 0) (ap_InfoHash params) @ copy (replicate 20 0) (ap_PeerID params) @
     replicate 8 0 @ put_u64 (word_of_int (ap_Left params)) @ replicate 8 0 @ put_u32 2 @
     replicate 8 0 @ put_u32 0xFFFFFFFF @ put_u16 (ap_Port params)"

definition udpAnnounceRequest ::
  "64 word \<Rightarrow> 32 word \<Rightarrow> announceParams \<Rightarrow> udp \<Rightarrow> error + peer list \<times> udp" where
  "udpAnnounceRequest connectionID transactionID params c =
     (case udp_Write (announce_request connectionID transactionID params) c of Inl e \<Rightarrow> Inl e
      | Inr c1 \<Rightarrow>
          (case udp_Read 2048 c1 of Inl e \<Rightarrow> Inl e
           | Inr (resp, c2) \<Rightarrow>
               if length resp < 20 then Inl ErrBadResponse
               else if get_u32 (take 4 resp) \<noteq> 1 then Inl ErrBadResponse
               else case ParseCompactPeers (drop 20 resp) of Inl e \<Rightarrow> Inl e
                 | Inr peers \<Rightarrow> Inr (peers, c2)))"

text \<open>The two exchanges, with the transaction id of each.\<close>

definition announceUDP ::
  "udp option \<Rightarrow> 32 word \<Rightarrow> 32 word \<Rightarrow> announceParams \<Rightarrow> error + peer list \<times> udp" where
  "announceUDP dial t1 t2 params =
     (case dial of None \<Rightarrow> Inl ErrOther
      | Some c \<Rightarrow>
          (case udpConnectHandshake t1 c of Inl e \<Rightarrow> Inl e
           | Inr (connectionID, c1) \<Rightarrow> udpAnnounceRequest connectionID t2 params c1))"

text \<open>The choice by the scheme of the parsed tracker URL.\<close>

record url =
  u_Scheme :: bytes
  u_Host :: bytes
  u_RawQuery :: bytes

definition Announce ::
  "(bytes \<Rightarrow> url option) \<Rightarrow> (bytes \<Rightarrow> bytes \<Rightarrow> error + bytes) \<Rightarrow> (bytes \<Rightarrow> udp option) \<Rightarrow> 32 word \<Rightarrow> 32 word \<Rightarrow>
    bytes \<Rightarrow> announceParams \<Rightarrow> error + peer list" where
  "Announce parse_url http dial t1 t2 trackerURL params =
     (case parse_url trackerURL of None \<Rightarrow> Inl ErrOther
      | Some u \<Rightarrow>
          if u_Scheme u = str ''http'' \<or> u_Scheme u = str ''https''
          then announceHTTP (http trackerURL) (u_RawQuery u) params
          else if u_Scheme u = str ''udp''
          then map_sum id fst (announceUDP (dial (u_Host u)) t1 t2 params)
          else Inl ErrUnsupportedProto)"

section \<open>Compact peers are records of six bytes\<close>

definition peer_bytes :: "peer \<Rightarrow> bytes" where
  "peer_bytes p = IP p @ put_u16 (Port p)"

interpretation compact: fixed_codec peer_bytes compact_peer id 6 "\<lambda>p. length (IP p) = 4"
  by unfold_locales (simp_all add: peer_bytes_def compact_peer_def)

lemma parse_compact:
  assumes "\<forall>p\<in>set ps. length (IP p) = 4"
  shows "ParseCompactPeers (concat (map peer_bytes ps)) = Inr ps"
  using compact.table_roundtrip [OF assms] compact.length_table [OF assms] by (simp add: ParseCompactPeers_def)

lemma put_get_u16: "put_u16 (get_u16 [a, b]) = [a, b]"
proof -
  have "\<not> bit b (8 + n)" for n using bit_imp_le_length [of b "8 + n"] by auto
  then show ?thesis by (auto simp: put_u16_def bit_simps intro!: bit_word_eqI)
qed

lemma peer_bytes_compact: "length c = 6 \<Longrightarrow> peer_bytes (compact_peer c) = c"
  using put_get_u16 by (auto simp: peer_bytes_def compact_peer_def numeral_eq_Suc length_Suc_conv)

section \<open>The announce query\<close>

lemma upper_hex_val: "n < 16 \<Longrightarrow> hex_val (upper_hex n) = Some n"
proof -
  have "\<forall>n\<in>set [0..<16]. hex_val (upper_hex n) = Some n" by code_simp
  then show "n < 16 \<Longrightarrow> ?thesis" by simp
qed

lemma upper_hex_plain: "n < 16 \<Longrightarrow> upper_hex n \<noteq> 38 \<and> upper_hex n \<noteq> 59 \<and> upper_hex n \<noteq> 61"
proof -
  have "\<forall>n\<in>set [0..<16]. upper_hex n \<noteq> 38 \<and> upper_hex n \<noteq> 59 \<and> upper_hex n \<noteq> 61" by code_simp
  then show "n < 16 \<Longrightarrow> ?thesis" by simp
qed

lemma unreserved_plain: "unreserved b \<Longrightarrow> b \<noteq> 37 \<and> b \<noteq> 43 \<and> b \<noteq> 38 \<and> b \<noteq> 59 \<and> b \<noteq> 61"
  by (auto simp: unreserved_def)

interpretation url: query_escape QueryEscape
proof
  show "spells (QueryEscape s) s" for s
    by (induction s) (auto simp: upper_hex_val byte_nibbles dest: unreserved_plain)
  show "61 \<notin> set (QueryEscape s)" for s
    using upper_hex_plain byte_nibbles(1,2)
    by (induction s) (auto dest: unreserved_plain split: if_splits)
qed

lemma ParseQuery_Encode: "ParseQuery (url_Encode m) = Inr (url_fields m)"
  by (simp add: url_Encode_def url.query_parsed)

text \<open>The values of a key in the map and in the list of fields.\<close>

definition entries :: "url_values \<Rightarrow> bytes \<Rightarrow> bytes list" where
  "entries m k = (case mget m k of None \<Rightarrow> [] | Some vs \<Rightarrow> vs)"

definition valid_fields :: "bytes \<Rightarrow> (bytes \<times> bytes) list" where
  "valid_fields raw = map projr (filter (\<lambda>x. \<not> isl x) (parse_query raw))"

lemma query_all_fields:
  assumes "map_ok m"
  shows "query_all k (url_fields m) = entries m k"
  using map_ok_distinct [OF assms]
proof (induction m)
  case (Cons p m)
  obtain k' vs where p: "p = (k', vs)" by (cases p)
  have "query_all k (map (Pair k') vs @ url_fields m) = (if k' = k then vs else []) @ query_all k (url_fields m)"
    by (induction vs) (auto simp: query_all_def)
  moreover have "k' = k \<Longrightarrow> mget m k = None" using Cons.prems p by (auto simp: map_of_eq_None_iff)
  ultimately show ?case using Cons p by (auto simp: url_fields_def entries_def)
qed (simp add: url_fields_def entries_def query_all_def)

lemma url_Query_step:
  "map_ok m \<Longrightarrow>
    (let m' = foldl (\<lambda>m x. case x of Inl e \<Rightarrow> m
         | Inr (k, v) \<Rightarrow> mput k ((case mget m k of None \<Rightarrow> [] | Some vs \<Rightarrow> vs) @ [v]) m) m xs
     in map_ok m' \<and> entries m' k = entries m k @ query_all k (map projr (filter (\<lambda>x. \<not> isl x) xs)))"
proof (induction xs arbitrary: m)
  case (Cons x xs)
  show ?case
  proof (cases x)
    case (Inr p)
    obtain k' v where p: "p = (k', v)" by (cases p)
    let ?m = "mput k' ((case mget m k' of None \<Rightarrow> [] | Some vs \<Rightarrow> vs) @ [v]) m"
    have "entries ?m k = entries m k @ (if k' = k then [v] else [])"
      using Cons.prems by (auto simp: entries_def gm.get_put)
    then show ?thesis using Cons.IH [of ?m] Cons.prems Inr p
      by (auto simp: gm.ok_put Let_def query_all_def)
  qed (use Cons in simp)
qed (simp add: query_all_def)

lemma url_Query_ok: "map_ok (url_Query raw)"
  and url_Query_entries: "entries (url_Query raw) k = query_all k (valid_fields raw)"
  using url_Query_step [of "[]" "parse_query raw" k]
  by (simp_all add: url_Query_def valid_fields_def Let_def entries_def)

lemma announce_keys: "distinct (map fst (announce_sets params))"
  by (simp add: announce_sets_def str_def)

lemma announce_sets_found:
  "\<exists>ps. ParseQuery (announce_query raw params) = Inr ps \<and>
    (\<forall>(k, v)\<in>set (announce_sets params). query_all k ps = [v]) \<and>
    (\<forall>k. k \<notin> fst ` set (announce_sets params) \<longrightarrow> query_all k ps = query_all k (valid_fields raw))"
proof -
  let ?sets = "map (\<lambda>(k, v). (k, [v])) (announce_sets params)"
  let ?m = "foldl (\<lambda>m (k, v). mput k v m) (url_Query raw) ?sets"
  have q: "announce_query raw params = url_Encode ?m"
    by (simp add: announce_query_def foldl_map case_prod_unfold)
  have ok: "map_ok ?m" using gm.ok_put_all url_Query_ok by blast
  have get: "mget ?m = mget (url_Query raw) ++ map_of (rev ?sets)"
    using gm.get_put_all url_Query_ok by blast
  have dist: "distinct (map fst (rev ?sets))"
    using announce_keys [of params] by (simp add: comp_def split_beta rev_map [symmetric])
  have "query_all k (url_fields ?m) = [v]" if "(k, v) \<in> set (announce_sets params)" for k v
  proof -
    have "(k, [v]) \<in> set (rev ?sets)" using that by force
    then have "map_of (rev ?sets) k = Some [v]" using dist by (simp add: map_of_eq_Some_iff)
    then show ?thesis using query_all_fields [OF ok] get by (simp add: entries_def)
  qed
  moreover have "query_all k (url_fields ?m) = query_all k (valid_fields raw)"
    if "k \<notin> fst ` set (announce_sets params)" for k
  proof -
    have "map_of (rev ?sets) k = None" using that by (force simp: map_of_eq_None_iff)
    then have "mget ?m k = mget (url_Query raw) k" using get by (simp add: map_add_def)
    then show ?thesis using query_all_fields [OF ok] url_Query_entries by (simp add: entries_def)
  qed
  ultimately show ?thesis using q ParseQuery_Encode [of ?m] by auto
qed

text \<open>C17. An HTTP announce is one request. A tracker that parses its query finds each of the
  eight parameters exactly once, also where its own URL had that parameter: the info hash and the
  peer id byte for byte, the port and the bytes left in decimal, nothing uploaded or downloaded, the
  compact form and the started event; the other parameters of its URL are kept. The peers are those
  of the body of the answer.\<close>

theorem announce_query_fields:
  "\<exists>q ps. ParseQuery q = Inr ps \<and>
    (\<forall>http. announceHTTP http raw params =
      (case http q of Inl e \<Rightarrow> Inl e | Inr body \<Rightarrow> parseHTTPResponse body)) \<and>
    query_all (str ''info_hash'') ps = [ap_InfoHash params] \<and>
    query_all (str ''peer_id'') ps = [ap_PeerID params] \<and>
    query_all (str ''port'') ps = [show_int (uint (ap_Port params))] \<and>
    query_all (str ''uploaded'') ps = [str ''0''] \<and>
    query_all (str ''downloaded'') ps = [str ''0''] \<and>
    query_all (str ''left'') ps = [show_int (ap_Left params)] \<and>
    query_all (str ''compact'') ps = [str ''1''] \<and>
    query_all (str ''event'') ps = [str ''started''] \<and>
    (\<forall>k. k \<notin> set (map str [''info_hash'', ''peer_id'', ''port'', ''uploaded'', ''downloaded'', ''left'',
        ''compact'', ''event'']) \<longrightarrow> query_all k ps = query_all k (valid_fields raw))"
proof -
  obtain ps where ps: "ParseQuery (announce_query raw params) = Inr ps"
    "\<forall>(k, v)\<in>set (announce_sets params). query_all k ps = [v]"
    "\<forall>k. k \<notin> fst ` set (announce_sets params) \<longrightarrow> query_all k ps = query_all k (valid_fields raw)"
    using announce_sets_found by blast
  have "fst ` set (announce_sets params) = set (map str [''info_hash'', ''peer_id'', ''port'', ''uploaded'',
      ''downloaded'', ''left'', ''compact'', ''event''])" by (simp add: announce_sets_def)
  note rest = ps(3) [unfolded this]
  show ?thesis
    by (rule exI [of _ "announce_query raw params"], rule exI [of _ ps])
      (use ps(1,2) rest in \<open>simp add: announce_sets_def announceHTTP_def\<close>)
qed

theorem announce_query_fields_witness:
  "\<exists>q ps. ParseQuery q = Inr ps \<and>
    (let p = \<lparr>ap_InfoHash = replicate 20 38, ap_PeerID = replicate 20 0, ap_Port = 6881, ap_Left = 0\<rparr> in
     announceHTTP (\<lambda>x. if x = q then Inr (str ''d5:peers0:e'') else Inl ErrOther) (str ''port=1&passkey=a%20b'') p = Inr []) \<and>
    query_all (str ''info_hash'') ps = [replicate 20 38] \<and> query_all (str ''port'') ps = [str ''6881''] \<and>
    query_all (str ''passkey'') ps = [str ''a b'']"
proof -
  let ?raw = "str ''port=1&passkey=a%20b''"
  let ?p = "\<lparr>ap_InfoHash = replicate 20 38, ap_PeerID = replicate 20 0, ap_Port = 6881, ap_Left = 0\<rparr>"
  have "show_int 6881 = str ''6881''" by (simp add: show_int_def show_nat.simps str_def)
  then have port: "show_int (uint (ap_Port ?p)) = str ''6881''" by simp
  have body: "parseHTTPResponse (str ''d5:peers0:e'') = Inr []" by code_simp
  have "str ''passkey'' \<notin> set (map str [''info_hash'', ''peer_id'', ''port'', ''uploaded'', ''downloaded'', ''left'',
      ''compact'', ''event''])" "query_all (str ''passkey'') (valid_fields ?raw) = [str ''a b'']" by code_simp+
  with announce_query_fields [of ?raw ?p] port show ?thesis
    by (elim exE conjE) (intro exI conjI, assumption, simp_all add: body)
qed

section \<open>What a tracker's answer becomes\<close>

lemma ParseCompact_iff:
  "ParseCompactPeers p = Inr ps \<longleftrightarrow> p = concat (map peer_bytes ps) \<and> list_all (\<lambda>q. length (IP q) = 4) ps"
proof
  assume l: "ParseCompactPeers p = Inr ps"
  then have ps: "ps = map compact_peer (chunks 6 p)" "6 dvd length p"
    by (auto simp: ParseCompactPeers_def dvd_eq_mod_eq_0 split: if_splits)
  have c: "\<forall>c\<in>set (chunks 6 p). length c = 6" by (simp add: set_chunks_length)
  then have "map peer_bytes ps = chunks 6 p" using ps(1) by (auto simp: peer_bytes_compact intro: map_idI)
  then have "p = concat (map peer_bytes ps)" using concat_chunks [of 6 p] ps(2) by simp
  moreover have "list_all (\<lambda>q. length (IP q) = 4) ps" using ps(1) c by (auto simp: list_all_iff compact_peer_def)
  ultimately show "p = concat (map peer_bytes ps) \<and> list_all (\<lambda>q. length (IP q) = 4) ps" by simp
qed (simp add: parse_compact list_all_iff)

text \<open>The body of a tracker's answer gives the peers \<open>ps\<close> exactly when it is an encoded
  dictionary without a failure reason whose peers are either the compact records of \<open>ps\<close>, each
  with a 4-byte address, or a list from whose usable dictionaries \<open>ps\<close> is read; anything else is
  an error.\<close>

theorem http_peers:
  "parseHTTPResponse body = Inr ps \<longleftrightarrow>
    (\<exists>d. Decode body = Inr (GMap d) \<and> as_string (mget d (str ''failure reason'')) = None \<and>
       (mget d (str ''peers'') = Some (GString (concat (map peer_bytes ps))) \<and> list_all (\<lambda>q. length (IP q) = 4) ps \<or>
        (\<exists>xs. mget d (str ''peers'') = Some (GList xs) \<and> ps = parseDictPeers xs)))"
proof (cases "Decode body")
  case (Inr v)
  show ?thesis
  proof (cases v)
    case (GMap d)
    have "parsePeers d = Inr ps \<longleftrightarrow>
        (mget d (str ''peers'') = Some (GString (concat (map peer_bytes ps))) \<and> list_all (\<lambda>q. length (IP q) = 4) ps \<or>
         (\<exists>xs. mget d (str ''peers'') = Some (GList xs) \<and> ps = parseDictPeers xs))"
      by (auto simp: parsePeers_def ParseCompact_iff split: option.split any.split)
    with Inr GMap show ?thesis by (simp add: parseHTTPResponse_def split: option.split)
  qed (use Inr in \<open>simp_all add: parseHTTPResponse_def\<close>)
qed (simp add: parseHTTPResponse_def)

lemma take_peers: "\<forall>p\<in>set ps. length (IP p) = 4 \<Longrightarrow>
    take (6 * n) (concat (map peer_bytes ps)) = concat (map peer_bytes (take n ps))"
proof (induction ps arbitrary: n)
  case (Cons p ps)
  then show ?case by (cases n) (simp_all add: peer_bytes_def)
qed simp

text \<open>C18. A UDP tracker that answers the connect request with a connection id of its choice and
  the announce request with compact peers: exactly two packets are sent, laid out as the protocol
  has them, the connect packet with its magic number and the announce with the id the tracker
  chose, and the peers returned are those of the answer, of which the buffer of 2048 bytes holds
  338; the others are dropped without an error.\<close>

theorem udp_announce:
  assumes "2 \<le> up_writes c" and "length stats = 12" and "\<forall>p\<in>set ps. length (IP p) = 4"
    and "up_in c = (put_u32 0 @ put_u32 t1 @ put_u64 cid @ extra) # (put_u32 1 @ put_u32 t @ stats @ concat (map peer_bytes ps)) # rest"
    and "length (ap_InfoHash params) = 20" and "length (ap_PeerID params) = 20"
  shows "\<exists>c'. announceUDP (Some c) t1 t2 params = Inr (take 338 ps, c') \<and> up_in c' = rest \<and>
    up_out c' = up_out c @ [put_u64 0x41727101980 @ put_u32 0 @ put_u32 t1,
      put_u64 cid @ put_u32 1 @ put_u32 t2 @ ap_InfoHash params @ ap_PeerID params @ put_u64 0 @
      put_u64 (word_of_int (ap_Left params)) @ put_u64 0 @ put_u32 2 @ put_u64 0 @ put_u32 0xFFFFFFFF @ put_u16 (ap_Port params)]"
proof -
  obtain n where n: "up_writes c = Suc (Suc n)" using assms(1) by (metis add_2_eq_Suc le_Suc_ex)
  let ?peers = "concat (map peer_bytes ps)"
  let ?p2 = "put_u32 1 @ put_u32 t @ stats @ ?peers"
  let ?c1 = "c\<lparr>up_out := up_out c @ [connect_request t1], up_writes := Suc n\<rparr>"
  have "full_read 16 (up_in c) = Some (put_u32 0 @ put_u32 t1 @ put_u64 cid, ?p2 # rest)"
    using assms(4) by simp
  then have c1: "udpConnectHandshake t1 c = Inr (cid, ?c1\<lparr>up_in := ?p2 # rest\<rparr>)"
    using n by (simp add: udpConnectHandshake_def udp_Write_def udp_ReadFull_def)
  have first: "take 2028 ?peers = concat (map peer_bytes (take 338 ps))"
    using take_peers [OF assms(3), of 338] by simp
  have four: "\<forall>p\<in>set (take 338 ps). length (IP p) = 4" using assms(3) by (meson in_set_takeD)
  have cut: "take 2048 ?p2 = put_u32 1 @ put_u32 t @ stats @ concat (map peer_bytes (take 338 ps))"
    using assms(2) first by simp
  have "ParseCompactPeers (drop 20 (take 2048 ?p2)) = Inr (take 338 ps)"
    unfolding cut using parse_compact [OF four] assms(2) by simp
  moreover have "20 \<le> length (take 2048 ?p2)" "get_u32 (take 4 (take 2048 ?p2)) = 1"
    unfolding cut using assms(2) by simp_all
  ultimately have "udpAnnounceRequest cid t2 params (?c1\<lparr>up_in := ?p2 # rest\<rparr>) =
      Inr (take 338 ps, ?c1\<lparr>up_in := rest, up_out := up_out c @ [connect_request t1, announce_request cid t2 params], up_writes := n\<rparr>)"
    by (simp add: udpAnnounceRequest_def udp_Write_def udp_Read_def del: take_append drop_append take_take drop_take)
  moreover have "put_u64 0 = replicate 8 0" by (simp add: put_u64_def eval_nat_numeral)
  then have "announce_request cid t2 params =
      put_u64 cid @ put_u32 1 @ put_u32 t2 @ ap_InfoHash params @ ap_PeerID params @ put_u64 0 @
      put_u64 (word_of_int (ap_Left params)) @ put_u64 0 @ put_u32 2 @ put_u64 0 @ put_u32 0xFFFFFFFF @ put_u16 (ap_Port params)"
    using assms(5,6) by (simp add: announce_request_def copy_same_length)
  ultimately show ?thesis using c1 by (simp add: announceUDP_def connect_request_def)
qed

theorem udp_announce_witness:
  "\<exists>c'. announceUDP (Some \<lparr>up_in = [put_u32 0 @ put_u32 7 @ put_u64 99, put_u32 1 @ put_u32 8 @ replicate 12 0 @ [10, 0, 0, 1, 0, 80]],
      up_out = [], up_writes = 5\<rparr>) 7 8
      \<lparr>ap_InfoHash = replicate 20 1, ap_PeerID = replicate 20 2, ap_Port = 6881, ap_Left = 0\<rparr> =
    Inr ([\<lparr>IP = [10, 0, 0, 1], Port = 80\<rparr>], c') \<and> map length (up_out c') = [16, 98]"
proof -
  let ?c = "\<lparr>up_in = [put_u32 0 @ put_u32 7 @ put_u64 99, put_u32 1 @ put_u32 8 @ replicate 12 0 @ [10, 0, 0, 1, 0, 80]],
      up_out = [], up_writes = 5\<rparr>"
  have pb: "peer_bytes \<lparr>IP = [10, 0, 0, 1], Port = 80\<rparr> = [10, 0, 0, 1, 0, 80]" by code_simp
  from udp_announce [of ?c "replicate 12 0" "[\<lparr>IP = [10, 0, 0, 1], Port = 80\<rparr>]" 7 99 "[]" 8 "[]"
    "\<lparr>ap_InfoHash = replicate 20 1, ap_PeerID = replicate 20 2, ap_Port = 6881, ap_Left = 0\<rparr>" 8]
  show ?thesis by (auto simp: pb connect_request_def)
qed

text \<open>The transaction id of the second answer is not looked at: the answer to another announce, or
  a forged one, is taken.\<close>

lemma udp_foreign_answer:
  "map_sum id fst (announceUDP (Some \<lparr>up_in = [put_u32 0 @ put_u32 7 @ put_u64 99, put_u32 1 @ put_u32 123 @ replicate 12 0 @ [10, 0, 0, 1, 0, 80]],
      up_out = [], up_writes = 5\<rparr>) 7 8
      \<lparr>ap_InfoHash = replicate 20 1, ap_PeerID = replicate 20 2, ap_Port = 6881, ap_Left = 0\<rparr>) =
    Inr [\<lparr>IP = [10, 0, 0, 1], Port = 80\<rparr>]"
  by code_simp

text \<open>A peer of the dictionary form whose address is a host name is kept with a nil address.\<close>

lemma dict_peer_host_name:
  "parseDictPeers [GMap [(str ''ip'', GString (str ''example'')), (str ''port'', GInt64 80)]] =
    [\<lparr>IP = [], Port = 80\<rparr>]"
  by code_simp

end
