(* ===== verification/Progress.thy ===== *)
theory Progress
  imports DownloadRun Tracker
begin

text \<open>
  Around the download (\<^verbatim>\<open>torrent/torrent.go\<close>): the figures of
  \<^verbatim>\<open>Stats\<close> that the display and the trackers are told, and the loop that
  announces again and offers the peers it learns to the download.
\<close>

section \<open>The figures\<close>

text \<open>\<^verbatim>\<open>GetStats\<close> reads the counters one after the other; the torrent's size
  does not change, so what matters is the state in which it reads the pieces and that in which it
  reads the peers.\<close>

definition GetStats :: "sys \<Rightarrow> sys \<Rightarrow> int \<times> int \<times> int \<times> int" where
  "GetStats s t =
     (sint (Downloaded (sy_stats s)), sint (TotalPieces (sy_stats s)), TotalBytes (sy_stats s),
      sint (ActivePeers (sy_sh t)))"

text \<open>What a later announce tells the trackers.\<close>

definition reannounce_params :: "info \<Rightarrow> bytes \<Rightarrow> bytes \<Rightarrow> sys \<Rightarrow> announceParams" where
  "reannounce_params info infoHash peerID s =
     \<lparr>ap_InfoHash = infoHash, ap_PeerID = peerID, ap_Port = 6881,
      ap_Left = wrap64 (TotalLength info - DownloadedBytes (sy_stats s))\<rparr>"

section \<open>Announcing again\<close>

text \<open>
  The announces under way, each to one tracker; the answers, of which the peers are still to be
  offered; the channel of new peers, with room for 100.
\<close>

record announcer =
  an_asked :: "(bytes \<times> announceParams) list"
  an_offers :: "peer list list"
  an_newPeers :: "peer list"

definition offer :: "peer \<Rightarrow> peer list \<Rightarrow> peer list" where
  "offer p ch = (if length ch < 100 then ch @ [p] else ch)"

text \<open>
  The ticker fires, a tracker answers or fails, a peer is offered without waiting, and the
  spawner takes a peer from the channel; any of it between any two steps of the download, also
  after its end.
\<close>

inductive net_step :: "info \<Rightarrow> bytes \<Rightarrow> bytes \<Rightarrow> (bytes \<Rightarrow> url option) \<Rightarrow> bytes list \<Rightarrow>
    sys \<times> announcer \<Rightarrow> sys \<times> announcer \<Rightarrow> bool"
  for info :: info and infoHash :: bytes and peerID :: bytes and parse_url :: "bytes \<Rightarrow> url option"
    and trackers :: "bytes list" where
  download: "dl_step info infoHash peerID s t \<Longrightarrow>
    net_step info infoHash peerID parse_url trackers (s, a) (t, a)"
| tick: "\<not> crashed (sy_sh s) \<Longrightarrow>
    net_step info infoHash peerID parse_url trackers (s, a)
      (s, a\<lparr>an_asked := an_asked a @ map (\<lambda>tr. (tr, reannounce_params info infoHash peerID s)) trackers\<rparr>)"
| answer: "\<not> crashed (sy_sh s) \<Longrightarrow> an_asked a = xs @ (tr, params) # ys \<Longrightarrow>
    Announce parse_url http dial t1 t2 tr params = Inr ps \<Longrightarrow>
    net_step info infoHash peerID parse_url trackers (s, a)
      (s, a\<lparr>an_asked := xs @ ys, an_offers := ps # an_offers a\<rparr>)"
| no_answer: "\<not> crashed (sy_sh s) \<Longrightarrow> an_asked a = xs @ (tr, params) # ys \<Longrightarrow>
    Announce parse_url http dial t1 t2 tr params = Inl e \<Longrightarrow> e \<noteq> Panic \<Longrightarrow>
    net_step info infoHash peerID parse_url trackers (s, a) (s, a\<lparr>an_asked := xs @ ys\<rparr>)"
| answer_panic: "\<not> crashed (sy_sh s) \<Longrightarrow> an_asked a = xs @ (tr, params) # ys \<Longrightarrow>
    Announce parse_url http dial t1 t2 tr params = Inl Panic \<Longrightarrow>
    net_step info infoHash peerID parse_url trackers (s, a)
      (s\<lparr>sy_sh := (sy_sh s)\<lparr>crashed := True\<rparr>\<rparr>, a\<lparr>an_asked := xs @ ys\<rparr>)"
| found: "\<not> crashed (sy_sh s) \<Longrightarrow> an_offers a = xs @ (p # ps) # ys \<Longrightarrow>
    net_step info infoHash peerID parse_url trackers (s, a)
      (s, a\<lparr>an_offers := xs @ ps # ys, an_newPeers := offer p (an_newPeers a)\<rparr>)"
| spawn: "\<not> crashed (sy_sh s) \<Longrightarrow> an_newPeers a = p # ch \<Longrightarrow>
    net_step info infoHash peerID parse_url trackers (s, a)
      (s\<lparr>sy_workers := startWorker (Addr p) (sy_workers s)\<rparr>, a\<lparr>an_newPeers := ch\<rparr>)"

inductive net_reachable :: "info \<Rightarrow> bytes \<Rightarrow> bytes \<Rightarrow> bytes \<Rightarrow> os \<Rightarrow> peer list \<Rightarrow> (bytes \<Rightarrow> url option) \<Rightarrow>
    bytes list \<Rightarrow> sys \<times> announcer \<Rightarrow> bool"
  for info :: info and infoHash :: bytes and peerID :: bytes and base :: bytes and d :: os
    and peers :: "peer list" and parse_url :: "bytes \<Rightarrow> url option" and trackers :: "bytes list" where
  init: "net_reachable info infoHash peerID base d peers parse_url trackers
    (init_sys info base d peers, \<lparr>an_asked = [], an_offers = [], an_newPeers = []\<rparr>)"
| step: "net_reachable info infoHash peerID base d peers parse_url trackers x \<Longrightarrow>
    net_step info infoHash peerID parse_url trackers x y \<Longrightarrow>
    net_reachable info infoHash peerID base d peers parse_url trackers y"

lemma run_net:
  "dl_run info ih pid base d peers s \<Longrightarrow>
    net_reachable info ih pid base d peers pu trs (s, \<lparr>an_asked = [], an_offers = [], an_newPeers = []\<rparr>)"
  unfolding dl_run_def
  by (induction rule: rtranclp_induct) (auto intro: net_reachable.init net_reachable.step net_step.download)

section \<open>The figures are right\<close>

fun connected :: "wpc \<Rightarrow> bool" where
  "connected (WDial a) = False"
| "connected WExit = False"
| "connected _ = True"

definition sessions :: "sys \<Rightarrow> nat" where
  "sessions s = length (filter (\<lambda>w. connected (snd w)) (sy_workers s))"

lemma connected_next [simp]: "\<not> connected (next_attempt a)"
  by (simp add: next_attempt_def)

lemma filter_update:
  assumes "i < length ws"
  shows "length (filter P (ws[i := w])) + (if P (ws ! i) then 1 else 0) =
    length (filter P ws) + (if P w then 1 else 0)"
proof -
  have "filter P ws = filter P (take i ws) @ filter P [ws ! i] @ filter P (drop (Suc i) ws)"
    using id_take_nth_drop [OF assms] by (metis append_Cons append_Nil filter_append)
  moreover have "filter P (ws[i := w]) = filter P (take i ws) @ filter P [w] @ filter P (drop (Suc i) ws)"
    using assms by (simp add: upd_conv_take_nth_drop)
  ultimately show ?thesis by simp
qed

lemma wstep_active:
  assumes "wstep n ih pid (sh, pc) (sh', pc')" and "\<not> crashed sh'"
  shows "ActivePeers sh' + of_nat (if connected pc then 1 else 0) =
    ActivePeers sh + of_nat (if connected pc' then 1 else 0)"
  using assms by (cases rule: wstep.cases) auto

text \<open>The piece that is written but not in the first counter yet, or not in the second.\<close>

fun uncounted :: "collector \<Rightarrow> int set" where
  "uncounted (Written r) = {pr_Index r}"
| "uncounted _ = {}"

fun unsummed :: "collector \<Rightarrow> int set" where
  "unsummed (Written r) = {pr_Index r}"
| "unsummed (Counted r) = {pr_Index r}"
| "unsummed _ = {}"

text \<open>
  The counters, with \<open>D\<close> the pieces written: those completed, but for the one whose write
  has failed.
\<close>

definition accounts :: "info \<Rightarrow> sys \<Rightarrow> int set \<Rightarrow> bool" where
  "accounts info s D \<longleftrightarrow> D \<subseteq> flagged s \<and> (\<exists>i. flagged s \<subseteq> insert i D) \<and>
     (\<not> failed s \<longrightarrow> D = written s) \<and> finite D \<and> sy_done s = int (card D) \<and>
     Downloaded (sy_stats s) = of_nat (card (D - uncounted (sy_coll s))) \<and>
     DownloadedBytes (sy_stats s) = (\<Sum>i\<in>D - unsummed (sy_coll s). PieceSize info i) \<and>
     TotalPieces (sy_stats s) = word_of_int (NumPieces info) \<and> TotalBytes (sy_stats s) = TotalLength info"

definition inv_stats :: "info \<Rightarrow> sys \<Rightarrow> bool" where
  "inv_stats info s \<longleftrightarrow> crashed (sy_sh s) \<or>
     ((\<exists>D. accounts info s D) \<and> ActivePeers (sy_sh s) = of_nat (sessions s))"

lemma accounts_cong:
  assumes "sy_completed t = sy_completed s" and "sy_done t = sy_done s" and "sy_stats t = sy_stats s"
    and "sy_coll t = sy_coll s"
  shows "accounts info s D \<Longrightarrow> accounts info t D"
  using assms by (simp add: accounts_def flagged_def written_def failed_def)

lemma pieces_sum:
  assumes "layout_ok info" and "D \<subseteq> {0..<NumPieces info}"
  shows "(\<Sum>i\<in>D. PieceSize info i) + (\<Sum>i\<in>{0..<NumPieces info} - D. PieceSize info i) = TotalLength info"
    and "0 \<le> (\<Sum>i\<in>D. PieceSize info i)" and "0 \<le> (\<Sum>i\<in>{0..<NumPieces info} - D. PieceSize info i)"
proof -
  let ?n = "length (i_Pieces info)"
  have pos: "0 \<le> PieceSize info i" if "i \<in> {0..<NumPieces info}" for i
    using PieceSize_layout(3) [OF assms(1), of i] that by simp
  show "0 \<le> (\<Sum>i\<in>D. PieceSize info i)" "0 \<le> (\<Sum>i\<in>{0..<NumPieces info} - D. PieceSize info i)"
    using pos assms(2) by (auto intro!: sum_nonneg)
  have "int ` {0..<?n} = {0..<NumPieces info}"
    by (auto simp: NumPieces_def image_iff intro!: bexI [of _ "nat _"])
  then have "(\<Sum>i\<in>{0..<NumPieces info}. PieceSize info i) = (\<Sum>i\<in>{0..<?n}. PieceSize info (int i))"
    by (metis (no_types, lifting) comp_apply inj_on_of_nat sum.cong sum.reindex)
  also have "\<dots> = (\<Sum>i\<leftarrow>[0..<?n]. PieceSize info (int i))" by (simp add: sum_list_distinct_conv_sum_set)
  also have "\<dots> = TotalLength info"
    using PieceSize_prefix_sum [OF assms(1), of ?n] assms(1)
    by (simp add: TotalLength_data [OF assms(1)] layout_ok_def NumPieces_def min_absorb2)
  finally show "(\<Sum>i\<in>D. PieceSize info i) + (\<Sum>i\<in>{0..<NumPieces info} - D. PieceSize info i) = TotalLength info"
    using sum.subset_diff [OF assms(2), of "PieceSize info"] by simp
qed

lemma total_small: "layout_ok info \<Longrightarrow> TotalLength info < 2 ^ 63"
  by (simp add: TotalLength_data) (simp add: layout_ok_def)

lemma sum_small:
  assumes "layout_ok info" and "D \<subseteq> {0..<NumPieces info}"
  shows "0 \<le> (\<Sum>i\<in>D. PieceSize info i)" and "(\<Sum>i\<in>D. PieceSize info i) < 2 ^ 63"
  using pieces_sum [OF assms] total_small [OF assms(1)] by linarith+

text \<open>What each step of the collector does to the counters.\<close>

lemma accounts_receive:
  assumes "accounts info s D" and "map_ok (sy_completed s)" and "sy_coll s = Collecting"
  shows "accounts info (receive r s) D"
proof (cases "pr_Err r = None \<and> \<not> flag (sy_completed s) (pr_Index r)")
  case True
  let ?t = "s\<lparr>sy_completed := mput (pr_Index r) True (sy_completed s), sy_coll := Received r\<rparr>"
  have t: "receive r s = ?t" using True by (simp add: receive_def)
  have D: "D = flagged s" using assms(1,3) by (simp add: accounts_def failed_def written_def)
  have "flagged ?t = insert (pr_Index r) (flagged s)" using assms(2) by (simp add: flagged_def flagged_mput)
  moreover from this have "written ?t = flagged s" using True by (auto simp: written_def flagged_def)
  ultimately show ?thesis
    using assms(1,3) unfolding t D by (auto simp: accounts_def failed_def)
qed (use assms(1) in \<open>auto simp: receive_def\<close>)

lemma accounts_phase:
  assumes "accounts info s D" and "flagged t = flagged s" and "written t = written s"
    and "\<not> failed s" and "sy_done t = sy_done s"
    and "Downloaded (sy_stats t) = of_nat (card (D - uncounted (sy_coll t)))"
    and "DownloadedBytes (sy_stats t) = (\<Sum>i\<in>D - unsummed (sy_coll t). PieceSize info i)"
    and "TotalPieces (sy_stats t) = TotalPieces (sy_stats s)" and "TotalBytes (sy_stats t) = TotalBytes (sy_stats s)"
  shows "accounts info t D"
  using assms by (auto simp: accounts_def)

lemma accounts_advance:
  assumes acc: "accounts info s D" and lay: "layout_ok info" and inv: "inv info base d s"
    and nc: "\<not> crashed (sy_sh s)" and "busy (sy_coll s)"
  shows "crashed (sy_sh (advance info s)) \<or> (\<exists>E. accounts info (advance info s) E)"
proof -
  have id: "inv_disk info base d s" using inv nc by (simp add: inv_def)
  have nf: "\<not> failed s" using assms(5) by (auto simp: failed_def)
  have D: "D = written s" "finite D" "D \<subseteq> flagged s" using acc nf unfolding accounts_def by blast+
  have all: "flagged s \<subseteq> {0..<NumPieces info}" using id by (simp add: inv_disk_def)
  have hand: "pr_Index r \<in> flagged s" "result_ok info r" if "in_hand (sy_coll s) = Some r" for r
    using id that by (simp_all add: inv_disk_def)
  show ?thesis
  proof (cases "sy_coll s")
    case (Received r)
    let ?t = "tell_endgame r s"
    have "flagged ?t = flagged s" "written ?t = written s"
      by (simp_all add: tell_endgame_def flagged_def written_def Received)
    then have "accounts info ?t D" using acc nf Received by (auto simp: accounts_def tell_endgame_def failed_def)
    then have "accounts info (advance info s) D" using Received by (simp add: advance_def)
    then show ?thesis by blast
  next
    case (Writing r)
    obtain e dsk where W: "WritePiece (pr_Index r) (pr_Data r) (sy_disk s) = (e, dsk)" by (rule prod.exhaust)
    have i: "pr_Index r \<in> flagged s" "D = flagged s - {pr_Index r}" using hand Writing D(1) by (simp_all add: written_def)
    show ?thesis
    proof (cases e)
      case None
      let ?t = "s\<lparr>sy_disk := dsk, sy_done := sy_done s + 1, sy_coll := Written r\<rparr>"
      have t: "advance info s = ?t" using Writing W None by (simp add: advance_def write_result_def)
      have "flagged ?t = flagged s" "written ?t = flagged s" by (simp_all add: flagged_def written_def)
      moreover have "flagged s = insert (pr_Index r) D" "pr_Index r \<notin> D" using i by auto
      ultimately have "accounts info ?t (flagged s)"
        using acc nf D(2) Writing by (auto simp: accounts_def failed_def)
      with t show ?thesis by auto
    next
      case (Some er)
      have "accounts info (finish (Some er) (s\<lparr>sy_disk := dsk\<rparr>)) D"
        using acc nf Writing by (auto simp: accounts_def finish_def flagged_def failed_def)
      then show ?thesis using Writing W Some by (auto simp: advance_def write_result_def)
    qed
  next
    case (Written r)
    have "pr_Index r \<in> D" using hand Written D(1) by (simp add: written_def)
    then have "card D = Suc (card (D - {pr_Index r}))" using D(2) by (metis card_Suc_Diff1)
    moreover have "Downloaded (sy_stats s) = of_nat (card (D - {pr_Index r}))"
      "DownloadedBytes (sy_stats s) = (\<Sum>i\<in>D - {pr_Index r}. PieceSize info i)"
      using acc Written by (simp_all add: accounts_def)
    ultimately have "accounts info (advance info s) D" using nf Written
      by (intro accounts_phase [OF acc]) (simp_all add: advance_def count_piece_def flagged_def written_def failed_def)
    then show ?thesis by blast
  next
    case (Counted r)
    have i: "pr_Index r \<in> D" "int (length (pr_Data r)) = PieceSize info (pr_Index r)"
      using hand Counted D(1) by (simp_all add: written_def result_ok_def)
    then have "(\<Sum>j\<in>D. PieceSize info j) = DownloadedBytes (sy_stats s) + int (length (pr_Data r))"
      using acc Counted D(2) by (simp add: accounts_def sum.remove)
    moreover have "D \<subseteq> {0..<NumPieces info}" using D(3) all by blast
    note sum_small [OF lay this]
    ultimately have "wrap64 (DownloadedBytes (sy_stats s) + int (length (pr_Data r))) = (\<Sum>j\<in>D. PieceSize info j)"
      by (simp add: wrap64_nonneg_id)
    moreover have "Downloaded (sy_stats s) = of_nat (card D)" using acc Counted by (simp add: accounts_def)
    ultimately have "accounts info (advance info s) D" using nf Counted
      by (intro accounts_phase [OF acc]) (simp_all add: advance_def count_bytes_def flagged_def written_def failed_def)
    then show ?thesis by blast
  next
    case Deciding
    have "Downloaded (sy_stats s) = of_nat (card D)" "DownloadedBytes (sy_stats s) = (\<Sum>i\<in>D. PieceSize info i)"
      using acc Deciding by (simp_all add: accounts_def)
    then have "accounts info (advance info s) D" using nf Deciding
      by (intro accounts_phase [OF acc])
        (simp_all add: advance_def decide_def finish_def start_endgame_def flagged_def written_def failed_def)
    then show ?thesis by blast
  qed (use assms(5) in simp_all)
qed

lemma inv_stats_step:
  assumes "dl_step info ih pid s t" and "inv info base d s" and "inv_stats info s" and "layout_ok info"
  shows "inv_stats info t"
  using assms(1)
proof (cases rule: dl_step.cases)
  case (work i ad pc sh pc')
  show ?thesis
  proof (cases "crashed sh")
    case False
    have "ActivePeers (sy_sh s) = of_nat (sessions s)" using assms(3) work(2) by (simp add: inv_stats_def)
    moreover have "of_nat (sessions t) + of_nat (if connected pc then 1 else 0) =
        (of_nat (sessions s) + of_nat (if connected pc' then 1 else 0) :: 32 word)"
      using filter_update [OF work(3), of "\<lambda>w. connected (snd w)" "(ad, pc')"] work(4)
      unfolding work(1) by (simp add: sessions_def flip: of_nat_add) 
    ultimately have "ActivePeers (sy_sh t) = of_nat (sessions t)"
      using wstep_active [OF work(5) False] unfolding work(1) by simp (metis add_right_imp_eq)
    moreover obtain D where "accounts info s D" using assms(3) work(2) by (auto simp: inv_stats_def)
    then have "accounts info t D" unfolding work(1) by (rule accounts_cong [rotated -1]) simp_all
    ultimately show ?thesis by (auto simp: inv_stats_def)
  qed (simp add: work(1) inv_stats_def)
next
  case (collect i ad a ss r)
  let ?t = "s\<lparr>sy_workers := (sy_workers s)[i := (ad, WLoop a ss)]\<rparr>"
  obtain D where acc: "accounts info s D" and act: "ActivePeers (sy_sh s) = of_nat (sessions s)"
    using assms(3) collect(2) by (auto simp: inv_stats_def)
  from acc have "accounts info ?t D" by (rule accounts_cong [rotated -1]) simp_all
  moreover have "map_ok (sy_completed ?t)" using assms(2) collect(2) by (simp add: inv_def inv_disk_def)
  ultimately have "accounts info t D" unfolding collect(1) using collect(5) by (intro accounts_receive) simp_all
  moreover have "sessions t = sessions s"
    using filter_update [OF collect(3), of "\<lambda>w. connected (snd w)" "(ad, WLoop a ss)"] collect(4)
    by (simp add: sessions_def collect(1))
  ultimately show ?thesis using act by (auto simp: inv_stats_def collect(1))
next
  case advance
  have "sessions t = sessions s" by (simp add: sessions_def advance(1))
  then show ?thesis
    using accounts_advance [OF _ assms(4,2) advance(2,3)] assms(3) advance(1,2) by (auto simp: inv_stats_def)
qed (use assms(3) in \<open>auto simp: inv_stats_def sessions_def accounts_def flagged_def written_def failed_def finish_def\<close>)

lemma reachable_stats:
  assumes "reachable info ih pid base d peers s" and "torrent_ok info base d"
  shows "inv_stats info s"
  using assms
proof (induction rule: reachable.induct)
  case init
  have "filter (\<lambda>w. connected (snd w)) (foldl (\<lambda>ws p. startWorker (Addr p) ws) ws peers) =
      filter (\<lambda>w. connected (snd w)) ws" for ws
    by (induction peers arbitrary: ws) (simp_all add: startWorker_def)
  then show ?case
    by (auto simp: inv_stats_def accounts_def init_sys_def sessions_def flagged_def written_def failed_def)
next
  case (step s t)
  have "inv info base d s" by (rule reachable_inv [OF step(1) assms(2)])
  with step assms(2) show ?case using inv_stats_step by (auto simp: torrent_ok_def)
next
  case (peer_found s t)
  from peer_found(2) show ?case
    by (cases rule: spawn_step.cases)
      (use peer_found in \<open>auto simp: inv_stats_def sessions_def startWorker_def accounts_def flagged_def written_def failed_def\<close>)
qed

lemma progress_facts:
  assumes "reachable info infoHash peerID base d peers s" and "torrent_ok info base d"
    and "\<not> crashed (sy_sh s)" and "NumPieces info < 2 ^ 31"
  shows "\<exists>D. accounts info s D \<and> D \<subseteq> {0..<NumPieces info} \<and> unsummed (sy_coll s) \<subseteq> D \<and>
    sint (Downloaded (sy_stats s)) = int (card (D - uncounted (sy_coll s))) \<and>
    sint (TotalPieces (sy_stats s)) = NumPieces info \<and>
    ActivePeers (sy_sh s) = of_nat (sessions s) \<and>
    ap_Left (reannounce_params info infoHash peerID s) =
      (\<Sum>i\<in>({0..<NumPieces info} - D) \<union> unsummed (sy_coll s). PieceSize info i) \<and>
    (ap_Left (reannounce_params info infoHash peerID s) = 0 \<longleftrightarrow> D = {0..<NumPieces info} \<and> unsummed (sy_coll s) = {}) \<and>
    (\<not> failed s \<longrightarrow> (\<forall>i\<in>D. piece_on_disk info (sy_disk s) i)) \<and>
    (sy_coll s = Finished None \<longrightarrow> D = {0..<NumPieces info})"
proof -
  let ?all = "{0..<NumPieces info}" and ?u = "unsummed (sy_coll s)"
  have lay: "layout_ok info" using assms(2) by (simp add: torrent_ok_def)
  obtain D where D: "accounts info s D" and act: "ActivePeers (sy_sh s) = of_nat (sessions s)"
    using reachable_stats [OF assms(1,2)] assms(3) by (auto simp: inv_stats_def)
  have "inv info base d s" by (rule reachable_inv [OF assms(1,2)])
  then have disk: "inv_disk info base d s" using assms(3) by (simp add: inv_def)
  then have sub: "D \<subseteq> ?all" using D by (auto simp: inv_disk_def accounts_def)
  have u: "?u \<subseteq> D"
    using D disk by (cases "sy_coll s") (simp_all add: accounts_def inv_disk_def written_def failed_def)
  have "card (D - uncounted (sy_coll s)) \<le> nat (NumPieces info)" using card_mono [of ?all "D - uncounted (sy_coll s)"] sub by auto
  then have small: "int (card (D - uncounted (sy_coll s))) < 2 ^ 31" using assms(4) by (simp add: NumPieces_def)
  have conv: "sint (word_of_int k :: 32 word) = k" if "0 \<le> k" "k < 2 ^ 31" for k
    using that by (simp add: sint_sbintrunc' signed_take_bit_int_eq_self)
  have counts: "sint (Downloaded (sy_stats s)) = int (card (D - uncounted (sy_coll s)))"
    "sint (TotalPieces (sy_stats s)) = NumPieces info"
    using D conv [of "int (card (D - uncounted (sy_coll s)))"] conv [of "NumPieces info"] small assms(4)
    by (simp_all add: accounts_def NumPieces_def)
  have sub': "D - ?u \<subseteq> ?all" using sub by blast
  have rest: "?all - (D - ?u) = (?all - D) \<union> ?u" using u sub by blast
  note sums = pieces_sum [OF lay sub', unfolded rest]
  have left: "ap_Left (reannounce_params info infoHash peerID s) = (\<Sum>i\<in>(?all - D) \<union> ?u. PieceSize info i)"
    using D sums total_small [OF lay] by (simp add: reannounce_params_def accounts_def wrap64_nonneg_id)
  have "0 < (\<Sum>i\<in>(?all - D) \<union> ?u. PieceSize info i)" if "\<not> (D = ?all \<and> ?u = {})"
  proof (rule sum_pos)
    show "(?all - D) \<union> ?u \<noteq> {}" using that sub by blast
    show "finite ((?all - D) \<union> ?u)" using u sub by (auto intro: finite_subset)
  qed (use PieceSize_layout(3) [OF lay] u sub in auto)
  then have "ap_Left (reannounce_params info infoHash peerID s) = 0 \<longleftrightarrow> D = ?all \<and> ?u = {}"
    unfolding left by (cases "D = ?all \<and> ?u = {}") auto
  moreover have "\<not> failed s \<longrightarrow> (\<forall>i\<in>D. piece_on_disk info (sy_disk s) i)"
    "sy_coll s = Finished None \<longrightarrow> D = ?all"
    using D disk by (auto simp: accounts_def inv_disk_def failed_def written_def)
  ultimately show ?thesis using sub u D act counts left by (intro exI [of _ D] conjI)
qed

lemma progress_figures:
  assumes "reachable info infoHash peerID base d peers s" and "torrent_ok info base d"
    and "\<not> crashed (sy_sh s)" and "NumPieces info < 2 ^ 31"
    and "reachable info infoHash peerID base d peers t" and "\<not> crashed (sy_sh t)"
  shows "(\<not> failed s \<longrightarrow>
      GetStats s t = (int (card (written s - uncounted (sy_coll s))), NumPieces info, TotalLength info,
        sint (of_nat (sessions t) :: 32 word)) \<and>
      ap_Left (reannounce_params info infoHash peerID s) =
        (\<Sum>i\<in>({0..<NumPieces info} - written s) \<union> unsummed (sy_coll s). PieceSize info i) \<and>
      (ap_Left (reannounce_params info infoHash peerID s) = 0 \<longleftrightarrow>
        written s = {0..<NumPieces info} \<and> unsummed (sy_coll s) = {}) \<and>
      uncounted (sy_coll s) \<subseteq> unsummed (sy_coll s) \<and> unsummed (sy_coll s) \<subseteq> written s \<and>
      written s \<subseteq> {0..<NumPieces info} \<and> (\<forall>i\<in>written s. piece_on_disk info (sy_disk s) i)) \<and>
    (sy_coll s = Finished None \<longrightarrow> written s = {0..<NumPieces info}) \<and>
    (failed s \<longrightarrow> (\<exists>D i. D \<subseteq> flagged s \<and> flagged s \<subseteq> insert i D \<and>
      GetStats s t = (int (card D), NumPieces info, TotalLength info, sint (of_nat (sessions t) :: 32 word)) \<and>
      ap_Left (reannounce_params info infoHash peerID s) = (\<Sum>i\<in>{0..<NumPieces info} - D. PieceSize info i)))"
proof -
  obtain D where D: "accounts info s D" "D \<subseteq> {0..<NumPieces info}" "unsummed (sy_coll s) \<subseteq> D"
    "sint (Downloaded (sy_stats s)) = int (card (D - uncounted (sy_coll s)))"
    "sint (TotalPieces (sy_stats s)) = NumPieces info"
    "ap_Left (reannounce_params info infoHash peerID s) =
      (\<Sum>i\<in>({0..<NumPieces info} - D) \<union> unsummed (sy_coll s). PieceSize info i)"
    "ap_Left (reannounce_params info infoHash peerID s) = 0 \<longleftrightarrow> D = {0..<NumPieces info} \<and> unsummed (sy_coll s) = {}"
    "\<not> failed s \<longrightarrow> (\<forall>i\<in>D. piece_on_disk info (sy_disk s) i)"
    "sy_coll s = Finished None \<longrightarrow> D = {0..<NumPieces info}"
    using progress_facts [OF assms(1-4)] by (elim exE conjE)
  have act: "ActivePeers (sy_sh t) = of_nat (sessions t)"
    using progress_facts [OF assms(5,2,6,4)] by (elim exE conjE)
  have st: "GetStats s t = (int (card (D - uncounted (sy_coll s))), NumPieces info, TotalLength info,
      sint (of_nat (sessions t) :: 32 word))"
    using D(1,4,5) act by (simp add: GetStats_def accounts_def)
  have w: "uncounted (sy_coll s) \<subseteq> unsummed (sy_coll s)" by (cases "sy_coll s") simp_all
  show ?thesis
  proof (cases "failed s")
    case True
    then have none: "uncounted (sy_coll s) = {}" "unsummed (sy_coll s) = {}" by (auto simp: failed_def)
    obtain i where "D \<subseteq> flagged s" "flagged s \<subseteq> insert i D" using D(1) by (auto simp: accounts_def)
    with True st D(6) show ?thesis unfolding none by (auto simp: failed_def)
  next
    case False
    then have eq: "D = written s" using D(1) by (simp add: accounts_def)
    show ?thesis using False st D(2,3,6-9) w unfolding eq by blast
  qed
qed



section \<open>Peers found later\<close>

lemma filter_update_le: "(\<not> P w \<or> P (ws ! i)) \<Longrightarrow> length (filter P (ws[i := w])) \<le> length (filter P ws)"
  by (cases "i < length ws") (use filter_update [of i ws P w] in \<open>auto simp: list_update_beyond not_less split: if_splits\<close>)

lemma active_startWorker:
  assumes "\<forall>ad. active_workers ad ws \<le> maxWorkersPerPeer"
  shows "active_workers ad (startWorker p ws) \<le> maxWorkersPerPeer"
  using assms spec [OF assms, of ad] by (auto simp: startWorker_def active_workers_def not_le)

lemma active_step:
  assumes "dl_step info ih pid s t"
  shows "active_workers ad (sy_workers t) \<le> active_workers ad (sy_workers s)" and "map fst (sy_workers t) = map fst (sy_workers s)"
proof -
  have same: "map fst (ws[i := (a, pc)]) = map fst ws" if "i < length ws" "ws ! i = (a, pc')" for ws :: "(bytes \<times> wpc) list" and i a pc pc'
    using that by (simp add: map_update list_update_same_conv)
  show "active_workers ad (sy_workers t) \<le> active_workers ad (sy_workers s)"
    using assms
  proof (cases rule: dl_step.cases)
    case (work i a pc sh pc')
    then have "pc \<noteq> WExit" using wstep_exit by blast
    then show ?thesis using work(1,4) by (auto simp: active_workers_def intro!: filter_update_le)
  qed (auto simp: active_workers_def finish_def intro!: filter_update_le)
  show "map fst (sy_workers t) = map fst (sy_workers s)"
    using assms by (cases rule: dl_step.cases) (auto simp: finish_def same)
qed

text \<open>A peer that a tracker answered to an announce with the figures of a reachable state.\<close>

definition heard :: "info \<Rightarrow> bytes \<Rightarrow> bytes \<Rightarrow> bytes \<Rightarrow> os \<Rightarrow> peer list \<Rightarrow> (bytes \<Rightarrow> url option) \<Rightarrow> bytes list \<Rightarrow> peer \<Rightarrow> bool" where
  "heard info infoHash peerID base d peers parse_url trackers p \<longleftrightarrow>
     (\<exists>s tr http dial t1 t2 ps. reachable info infoHash peerID base d peers s \<and> tr \<in> set trackers \<and>
        Announce parse_url http dial t1 t2 tr (reannounce_params info infoHash peerID s) = Inr ps \<and> p \<in> set ps)"

definition an_ok :: "(announceParams \<Rightarrow> bool) \<Rightarrow> (peer \<Rightarrow> bool) \<Rightarrow> bytes list \<Rightarrow> announcer \<Rightarrow> bool" where
  "an_ok asked ok trackers a \<longleftrightarrow>
     list_all (\<lambda>x. fst x \<in> set trackers \<and> asked (snd x)) (an_asked a) \<and>
     list_all (list_all ok) (an_offers a) \<and> list_all ok (an_newPeers a) \<and> length (an_newPeers a) \<le> 100"

definition pool_ok :: "(bytes \<Rightarrow> bool) \<Rightarrow> (bytes \<times> wpc) list \<Rightarrow> bool" where
  "pool_ok known ws \<longleftrightarrow> (\<forall>ad. active_workers ad ws \<le> maxWorkersPerPeer) \<and> list_all known (map fst ws)"

lemma pool_start: "pool_ok known ws \<Longrightarrow> known ad \<Longrightarrow> pool_ok known (startWorker ad ws)"
  using active_startWorker by (auto simp: pool_ok_def) (auto simp: startWorker_def)

lemma pool_start_all:
  "pool_ok known ws \<Longrightarrow> list_all (\<lambda>p. known (Addr p)) peers \<Longrightarrow>
    pool_ok known (foldl (\<lambda>ws p. startWorker (Addr p) ws) ws peers)"
  by (induction peers arbitrary: ws) (simp_all add: pool_start)

lemma pool_step: "dl_step info ih pid s t \<Longrightarrow> pool_ok known (sy_workers s) \<Longrightarrow> pool_ok known (sy_workers t)"
  using active_step [of info ih pid s t] by (auto simp: pool_ok_def intro: order.trans)

lemma net_reachable_inv:
  assumes "net_reachable info ih pid base d peers pu trs x"
  defines "ok \<equiv> heard info ih pid base d peers pu trs"
  shows "(crashed (sy_sh (fst x)) \<or> reachable info ih pid base d peers (fst x)) \<and>
    an_ok (\<lambda>params. \<exists>s. reachable info ih pid base d peers s \<and> params = reannounce_params info ih pid s) ok trs (snd x) \<and>
    pool_ok (\<lambda>ad. ad \<in> Addr ` set peers \<or> (\<exists>p. ok p \<and> ad = Addr p)) (sy_workers (fst x))"
    (is "_ \<and> an_ok ?asked _ _ _ \<and> pool_ok ?known _")
  using assms(1)
proof (induction rule: net_reachable.induct)
  case init
  have "pool_ok ?known []" by (simp add: pool_ok_def active_workers_def)
  then have "pool_ok ?known (sy_workers (init_sys info base d peers))"
    unfolding init_sys_def sys.simps by (rule pool_start_all) (simp add: list_all_iff)
  then show ?case using reachable.init by (simp add: an_ok_def)
next
  case (step x y)
  from step(2) show ?case
  proof (cases rule: net_step.cases)
    case (download s t a)
    have "\<not> crashed (sy_sh s)" using download(3) by (cases rule: dl_step.cases) auto
    then show ?thesis
      using step(3) pool_step [OF download(3)] reachable.step [OF _ download(3)] by (simp add: download(1,2))
  next
    case (answer s a xs tr params ys http dial t1 t2 ps)
    have "tr \<in> set trs" "?asked params" using step(3) answer(1,4) by (simp_all add: an_ok_def)
    then have "list_all ok ps" using answer(5) unfolding ok_def heard_def list_all_iff by blast
    then show ?thesis using step(3) answer(1,2,4) by (simp add: an_ok_def)
  next
    case (spawn s a p ch)
    have "?known (Addr p)" using step(3) spawn(1,4) by (auto simp: an_ok_def)
    then have "pool_ok ?known (startWorker (Addr p) (sy_workers s))" using step(3) spawn(1) by (intro pool_start) simp_all
    moreover have "reachable info ih pid base d peers (s\<lparr>sy_workers := startWorker (Addr p) (sy_workers s)\<rparr>)"
      using step(3) spawn(1,3) by (intro reachable.peer_found [OF _ spawn_step.spawn]) simp_all
    ultimately show ?thesis using step(3) spawn(1,2,4) by (simp add: an_ok_def)
  next
    case (tick s a)
    then have "?asked (reannounce_params info ih pid s)" using step(3) by auto
    then have "list_all (\<lambda>x. fst x \<in> set trs \<and> ?asked (snd x)) (map (\<lambda>tr. (tr, reannounce_params info ih pid s)) trs)"
      unfolding list_all_iff by auto
    then show ?thesis using step(3) tick(1,2) by (simp add: an_ok_def)
  qed (use step(3) in \<open>simp_all add: an_ok_def offer_def\<close>)
qed

text \<open>C8. With the announce loop and the spawner in detail the download behaves as in
  \<open>reachable\<close>, so that everything shown there holds, until a panic ends the process. The channel
  of new peers never holds more than 100; at most two workers are alive for an address at any time;
  and a worker's address is that of a peer known at the start or of one that a tracker of the
  magnet link returned to an announce with the figures of some moment.\<close>

theorem workers_known:
  assumes "net_reachable info infoHash peerID base d peers parse_url trackers (s, a)"
  shows "(crashed (sy_sh s) \<or> reachable info infoHash peerID base d peers s) \<and>
    length (an_newPeers a) \<le> 100 \<and> active_workers ad (sy_workers s) \<le> 2 \<and>
    (ad \<in> fst ` set (sy_workers s) \<longrightarrow> ad \<in> Addr ` set peers \<or>
       (\<exists>t tr http dial t1 t2 ps. reachable info infoHash peerID base d peers t \<and> tr \<in> set trackers \<and>
          Announce parse_url http dial t1 t2 tr (reannounce_params info infoHash peerID t) = Inr ps \<and>
          ad \<in> Addr ` set ps))"
proof -
  have "\<exists>t tr http dial t1 t2 ps. reachable info infoHash peerID base d peers t \<and> tr \<in> set trackers \<and>
      Announce parse_url http dial t1 t2 tr (reannounce_params info infoHash peerID t) = Inr ps \<and> ad \<in> Addr ` set ps"
    if "heard info infoHash peerID base d peers parse_url trackers p" "ad = Addr p" for p
    using that unfolding heard_def by blast
  moreover from net_reachable_inv [OF assms] have "active_workers ad (sy_workers s) \<le> 2"
    by (simp add: pool_ok_def maxWorkersPerPeer_def)
  moreover from net_reachable_inv [OF assms] have "ad \<in> fst ` set (sy_workers s) \<Longrightarrow> ad \<in> Addr ` set peers \<or>
      (\<exists>p. heard info infoHash peerID base d peers parse_url trackers p \<and> ad = Addr p)"
    by (auto simp: pool_ok_def list_all_iff)
  moreover from net_reachable_inv [OF assms] have "length (an_newPeers a) \<le> 100"
    "crashed (sy_sh s) \<or> reachable info infoHash peerID base d peers s"
    by (simp_all add: an_ok_def)
  ultimately show ?thesis by blast
qed

theorem workers_known_witness:
  "active_workers (Addr swarm_peer) (sy_workers (init_sys swarm_info (str ''/d'') sample_os [swarm_peer, swarm_peer, swarm_peer])) \<le> 2"
  using workers_known [OF net_reachable.init] by simp

end
