(* ===== verification/Dht.thy ===== *)
theory Dht
  imports Tracker Sha1 "HOL-Library.Multiset"
begin

text \<open>
  \<^verbatim>\<open>dht/dht.go\<close>: the node of the distributed hash table. Each handler is one
  step on the client's state. What is not determined by the program is an argument: the order in
  which Go iterates over a map (\<open>iter\<close>), the random transaction ids and the datagrams that
  arrive while a query waits (\<open>env\<close>), and which sends fail (in the state).
\<close>

section \<open>The state\<close>

record node =
  n_ID :: bytes
  n_Addr :: bytes

text \<open>
  A query that waits has a channel with room for one response. \<open>d_out\<close> are the datagrams
  sent, \<open>d_send_err\<close> the addresses that do not resolve or cannot be reached.
\<close>

type_synonym dict = "(bytes, any) gomap"

record client =
  d_id :: bytes
  d_secret :: bytes
  d_nodes :: "(bytes, node) gomap"
  d_peers :: "(bytes, peer list) gomap"
  d_queries :: "(bytes, dict option) gomap"
  d_listening :: bool
  d_out :: "(bytes \<times> bytes) list"
  d_send_err :: "bytes \<Rightarrow> bool"
  d_done :: bool

definition TokenLen :: nat where
  "TokenLen = 4"

definition New_client :: "bytes \<Rightarrow> bytes \<Rightarrow> (bytes \<Rightarrow> bool) \<Rightarrow> client" where
  "New_client randomID secret err =
     \<lparr>d_id = randomID[0 := 77], d_secret = secret, d_nodes = [], d_peers = [], d_queries = [],
      d_listening = False, d_out = [], d_send_err = err, d_done = False\<rparr>"

definition Listen :: "bool \<Rightarrow> client \<Rightarrow> error option \<times> client" where
  "Listen can_listen c = (if can_listen then (None, c\<lparr>d_listening := True\<rparr>) else (Some ErrOther, c))"

text \<open>Once closed, the socket takes nothing more.\<close>

definition Close_client :: "client \<Rightarrow> client" where
  "Close_client c =
     (if d_done c then c
      else if d_listening c then c\<lparr>d_done := True, d_send_err := (\<lambda>_. True)\<rparr> else c\<lparr>d_done := True\<rparr>)"

section \<open>Sending\<close>

definition send :: "bytes \<Rightarrow> dict \<Rightarrow> client \<Rightarrow> error option \<times> client" where
  "send addr msg c =
     (if \<not> d_listening c then (Some ErrNotListening, c)
      else case Encode (GMap msg) of Inl e \<Rightarrow> (Some e, c)
      | Inr data \<Rightarrow>
          if d_send_err c addr then (Some ErrOther, c)
          else (None, c\<lparr>d_out := d_out c @ [(addr, data)]\<rparr>))"

section \<open>Compact lists\<close>

text \<open>The text of a node's address, \<^verbatim>\<open>fmt.Sprintf("%s:%d")\<close>.\<close>

definition node_addr :: "bytes \<Rightarrow> 16 word \<Rightarrow> bytes" where
  "node_addr ip port = IP_String ip @ [58] @ show_int (uint port)"

definition compact_node :: "bytes \<Rightarrow> node" where
  "compact_node d = \<lparr>n_ID = take 20 d,
     n_Addr = node_addr (take 4 (drop 20 d)) (get_u16 (take 2 (drop 24 d)))\<rparr>"

definition addNodes :: "bytes \<Rightarrow> client \<Rightarrow> client" where
  "addNodes nodesStr c =
     foldl (\<lambda>c n. if mget (d_nodes c) (n_Addr n) = None
                  then c\<lparr>d_nodes := mput (n_Addr n) n (d_nodes c)\<rparr> else c) c
       (map compact_node (chunks 26 nodesStr))"

text \<open>\<^verbatim>\<open>net.SplitHostPort\<close>.\<close>

definition SplitHostPort :: "bytes \<Rightarrow> (bytes \<times> bytes) option" where
  "SplitHostPort s =
     (let port = rev (takeWhile (\<lambda>b. b \<noteq> 58) (rev s));
          i = length s - length port - 1;
          e = length (takeWhile (\<lambda>b. b \<noteq> 93) s)
      in if 58 \<notin> set s then None
         else if hd s = 91 then
           (if e = length s \<or> e + 1 \<noteq> i then None
            else if 91 \<in> set (drop 1 s) \<or> 93 \<in> set (drop (e + 1) s) then None
            else Some (drop 1 (take e s), port))
         else if 58 \<in> set (take i s) \<or> 91 \<in> set s \<or> 93 \<in> set s then None
         else Some (take i s, port))"

text \<open>\<^verbatim>\<open>fmt.Sscanf\<close> with \<^verbatim>\<open>%d\<close> into a variable that is 0.\<close>

definition scan_port :: "bytes \<Rightarrow> int" where
  "scan_port s =
     (let s1 = dropWhile (\<lambda>b. b = 32 \<or> b = 9) s;
          sign = (if s1 \<noteq> [] \<and> (hd s1 = 43 \<or> hd s1 = 45) then [hd s1] else []);
          digits = takeWhile (\<lambda>b. is_digit b \<or> b = 95) (drop (length sign) s1)
      in case parse_int (sign @ digits) of None \<Rightarrow> 0 | Some n \<Rightarrow> n)"

definition node_bytes :: "node \<Rightarrow> bytes" where
  "node_bytes n =
     (case SplitHostPort (n_Addr n) of None \<Rightarrow> []
      | Some (host, portStr) \<Rightarrow>
          (case To4 (ParseIP host) of None \<Rightarrow> []
           | Some ip \<Rightarrow> n_ID n @ ip @ put_u16 (word_of_int (scan_port portStr))))"

definition encodeCompactNodes :: "node list \<Rightarrow> bytes" where
  "encodeCompactNodes nodes = concat (map node_bytes nodes)"

definition encodePeerList :: "peer list \<Rightarrow> bytes" where
  "encodePeerList peers =
     concat (map (\<lambda>p. case To4 (IP p) of None \<Rightarrow> [] | Some ip4 \<Rightarrow> ip4 @ put_u16 (Port p)) peers)"

fun dict_peers :: "any list \<Rightarrow> peer list" where
  "dict_peers [] = []"
| "dict_peers (GMap m # xs) =
     (case (as_string (mget m (str ''ip'')), as_int64 (mget m (str ''port''))) of
        (Some ip, Some port) \<Rightarrow> \<lparr>IP = ParseIP ip, Port = word_of_int port\<rparr> # dict_peers xs
      | _ \<Rightarrow> dict_peers xs)"
| "dict_peers (_ # xs) = dict_peers xs"

fun decodePeers :: "any \<Rightarrow> peer list" where
  "decodePeers (GString s) = map compact_peer (chunks 6 s)"
| "decodePeers (GList xs) = dict_peers xs"
| "decodePeers _ = []"

section \<open>Answering\<close>

definition sha1Hash :: "bytes \<Rightarrow> bytes" where
  "sha1Hash data = copy (replicate 20 0) (sha1 data)"

lemma sha1Hash_sha1 [simp]: "sha1Hash data = sha1 data"
  by (simp add: sha1Hash_def copy_same_length)

definition genToken :: "bytes \<Rightarrow> client \<Rightarrow> bytes" where
  "genToken addr c = map2 (XOR) (copy (replicate TokenLen 0) (d_secret c)) (sha1Hash (addr @ d_secret c))"

definition closestNodes :: "((bytes, node) gomap \<Rightarrow> node list) \<Rightarrow> client \<Rightarrow> node list" where
  "closestNodes iter c = take 8 (iter (d_nodes c))"

definition add_nodes_field :: "((bytes, node) gomap \<Rightarrow> node list) \<Rightarrow> client \<Rightarrow> dict \<Rightarrow> dict" where
  "add_nodes_field iter c r =
     (let encoded = encodeCompactNodes (closestNodes iter c)
      in if encoded = [] then r else mput (str ''nodes'') (GString encoded) r)"

definition query_reply :: "((bytes, node) gomap \<Rightarrow> node list) \<Rightarrow> bytes \<Rightarrow> dict \<Rightarrow> client \<Rightarrow> dict" where
  "query_reply iter addr msg c =
     (let q = (case as_string (mget msg (str ''q'')) of None \<Rightarrow> [] | Some s \<Rightarrow> s);
          args = (case mget msg (str ''a'') of Some (GMap m) \<Rightarrow> m | _ \<Rightarrow> []);
          r = [(str ''id'', GBytes (d_id c))]
      in if q = str ''find_node'' then
           (if as_string (mget args (str ''target'')) = None then r else add_nodes_field iter c r)
         else if q = str ''get_peers'' then
           (case as_string (mget args (str ''info_hash'')) of None \<Rightarrow> r
            | Some infoHash \<Rightarrow>
                if length infoHash \<noteq> 20 then r
                else
                  let r1 = mput (str ''token'') (GBytes (genToken addr c)) r;
                      known = (case mget (d_peers c) infoHash of None \<Rightarrow> [] | Some ps \<Rightarrow> ps)
                  in if known \<noteq> [] then mput (str ''values'') (GString (encodePeerList known)) r1
                     else add_nodes_field iter c r1)
         else r)"

definition handleQuery ::
  "((bytes, node) gomap \<Rightarrow> node list) \<Rightarrow> bytes \<Rightarrow> bytes \<Rightarrow> dict \<Rightarrow> client \<Rightarrow> client" where
  "handleQuery iter addr t msg c =
     snd (send addr [(str ''r'', GMap (query_reply iter addr msg c)), (str ''t'', GString t),
       (str ''y'', GString (str ''r''))] c)"

definition handleResponse :: "bytes \<Rightarrow> dict \<Rightarrow> client \<Rightarrow> client" where
  "handleResponse t msg c =
     (case mget (d_queries c) t of None \<Rightarrow> c
      | Some ch \<Rightarrow>
          (case mget msg (str ''r'') of
             Some (GMap r) \<Rightarrow>
               (case ch of None \<Rightarrow> c\<lparr>d_queries := mput t (Some r) (d_queries c)\<rparr> | Some _ \<Rightarrow> c)
           | _ \<Rightarrow> c))"

definition handle :: "((bytes, node) gomap \<Rightarrow> node list) \<Rightarrow> bytes \<Rightarrow> dict \<Rightarrow> client \<Rightarrow> client" where
  "handle iter addr msg c =
     (let y = (case as_string (mget msg (str ''y'')) of None \<Rightarrow> [] | Some s \<Rightarrow> s);
          t = (case as_string (mget msg (str ''t'')) of None \<Rightarrow> [] | Some s \<Rightarrow> s)
      in if y = str ''q'' then handleQuery iter addr t msg c
         else if y = str ''r'' then handleResponse t msg c
         else c)"

text \<open>One round of \<^verbatim>\<open>recvLoop\<close>; a panic of the decoder ends the process.\<close>

definition recv_packet ::
  "((bytes, node) gomap \<Rightarrow> node list) \<Rightarrow> bytes \<times> bytes \<Rightarrow> client \<Rightarrow> client option" where
  "recv_packet iter pkt c =
     (case Decode (take 65536 (snd pkt)) of
        Inl e \<Rightarrow> if e = Panic then None else Some c
      | Inr (GMap msg) \<Rightarrow> Some (handle iter (fst pkt) msg c)
      | Inr v \<Rightarrow> Some c)"

fun recv_packets ::
  "((bytes, node) gomap \<Rightarrow> node list) \<Rightarrow> (bytes \<times> bytes) list \<Rightarrow> client \<Rightarrow> client option" where
  "recv_packets iter [] c = Some c"
| "recv_packets iter (p # ps) c = Option.bind (recv_packet iter p c) (recv_packets iter ps)"

section \<open>Asking\<close>

text \<open>
  A query with its transaction id: the channel is registered, the question sent, and the datagrams
  that arrive until the response or the timeout are handled; the channel is removed again in every
  case.
\<close>

definition query_msg :: "bytes \<Rightarrow> bytes \<Rightarrow> dict \<Rightarrow> dict" where
  "query_msg tid qtype args =
     [(str ''a'', GMap args), (str ''q'', GString qtype), (str ''t'', GString tid), (str ''y'', GString (str ''q''))]"

definition remove_query :: "bytes \<Rightarrow> client \<Rightarrow> client" where
  "remove_query tid c = c\<lparr>d_queries := mdel tid (d_queries c)\<rparr>"

definition query ::
  "((bytes, node) gomap \<Rightarrow> node list) \<Rightarrow> bytes \<Rightarrow> (bytes \<times> bytes) list \<Rightarrow> bytes \<Rightarrow> bytes \<Rightarrow> dict \<Rightarrow> client \<Rightarrow>
    (error + dict) \<times> client" where
  "query iter tid pkts addr qtype args c =
     (case send addr (query_msg tid qtype args) (c\<lparr>d_queries := mput tid None (d_queries c)\<rparr>) of
        (Some e, c1) \<Rightarrow> (Inl e, remove_query tid c1)
      | (None, c1) \<Rightarrow>
          (case recv_packets iter pkts c1 of
             None \<Rightarrow> (Inl Panic, c1)
           | Some c2 \<Rightarrow>
               (case mget (d_queries c2) tid of
                  Some (Some r) \<Rightarrow> (Inr r, remove_query tid c2)
                | _ \<Rightarrow> (Inl ErrTimeout, remove_query tid c2))))"

definition pingNode ::
  "((bytes, node) gomap \<Rightarrow> node list) \<Rightarrow> bytes \<Rightarrow> (bytes \<times> bytes) list \<Rightarrow> bytes \<Rightarrow> client \<Rightarrow> error option \<times> client" where
  "pingNode iter tid pkts addr c =
     (case query iter tid pkts addr (str ''ping'') [(str ''id'', GBytes (d_id c))] c of
        (Inl e, c1) \<Rightarrow> (Some e, c1)
      | (Inr resp, c1) \<Rightarrow>
          (case as_string (mget resp (str ''id'')) of
             Some idStr \<Rightarrow>
               if length idStr = 20
               then (None, c1\<lparr>d_nodes := mput addr \<lparr>n_ID = idStr, n_Addr = addr\<rparr> (d_nodes c1)\<rparr>)
               else (None, c1)
           | None \<Rightarrow> (None, c1)))"

text \<open>
  The bootstrap nodes one after the other; \<open>env\<close> gives each query its transaction id and its
  datagrams. The result fails with the last error when no node answered.
\<close>

fun bootstrap_loop ::
  "((bytes, node) gomap \<Rightarrow> node list) \<Rightarrow> (nat \<Rightarrow> bytes \<times> (bytes \<times> bytes) list) \<Rightarrow> nat \<Rightarrow> bytes list \<Rightarrow>
    error option \<Rightarrow> nat \<Rightarrow> client \<Rightarrow> error option \<times> client" where
  "bootstrap_loop iter env k [] lastErr reachable c = ((if reachable = 0 then lastErr else None), c)"
| "bootstrap_loop iter env k (addr # addrs) lastErr reachable c =
     (case pingNode iter (fst (env k)) (snd (env k)) addr c of
        (Some e, c1) \<Rightarrow>
          if e = Panic then (Some Panic, c1)
          else bootstrap_loop iter env (Suc k) addrs (Some e) reachable c1
      | (None, c1) \<Rightarrow> bootstrap_loop iter env (Suc k) addrs lastErr (Suc reachable) c1)"

definition Bootstrap ::
  "((bytes, node) gomap \<Rightarrow> node list) \<Rightarrow> (nat \<Rightarrow> bytes \<times> (bytes \<times> bytes) list) \<Rightarrow> bytes list \<Rightarrow> client \<Rightarrow>
    error option \<times> client" where
  "Bootstrap iter env addrs c = bootstrap_loop iter env 0 addrs None 0 c"

text \<open>
  The loop of \<^verbatim>\<open>GetPeers\<close> over the nodes known at its start: the peers offered to
  the channel, of which those offered while it is full (\<open>busy\<close>, counted over all offers) are
  dropped, and the client afterwards.
\<close>

definition offered :: "(nat \<Rightarrow> bool) \<Rightarrow> nat \<Rightarrow> peer list \<Rightarrow> peer list" where
  "offered busy k ps = map fst (filter (\<lambda>(p, i). \<not> busy i) (zip ps [k..<k + length ps]))"

definition learn_peers :: "bytes \<Rightarrow> dict \<Rightarrow> client \<Rightarrow> peer list \<times> client" where
  "learn_peers infoHash resp c =
     (case mget resp (str ''values'') of None \<Rightarrow> ([], c)
      | Some v \<Rightarrow>
          (let ps = decodePeers v; known = (case mget (d_peers c) infoHash of None \<Rightarrow> [] | Some ps \<Rightarrow> ps)
           in (ps, c\<lparr>d_peers := mput infoHash (known @ ps) (d_peers c)\<rparr>)))"

definition learn_nodes :: "dict \<Rightarrow> client \<Rightarrow> client" where
  "learn_nodes resp c =
     (case as_string (mget resp (str ''nodes'')) of None \<Rightarrow> c
      | Some s \<Rightarrow> if length s \<ge> 26 then addNodes s c else c)"

fun get_peers_loop ::
  "((bytes, node) gomap \<Rightarrow> node list) \<Rightarrow> (nat \<Rightarrow> bytes \<times> (bytes \<times> bytes) list) \<Rightarrow> (nat \<Rightarrow> bool) \<Rightarrow> bytes \<Rightarrow>
    nat \<Rightarrow> nat \<Rightarrow> nat \<Rightarrow> node list \<Rightarrow> client \<Rightarrow> (error + peer list) \<times> client" where
  "get_peers_loop iter env busy infoHash k m good [] c = (Inr [], c)"
| "get_peers_loop iter env busy infoHash k m good (n # ns) c =
     (if good \<ge> 8 then (Inr [], c)
      else case query iter (fst (env k)) (snd (env k)) (n_Addr n) (str ''get_peers'')
             [(str ''id'', GBytes (d_id c)), (str ''info_hash'', GBytes infoHash)] c of
        (Inl e, c1) \<Rightarrow>
          if e = Panic then (Inl Panic, c1)
          else get_peers_loop iter env busy infoHash (Suc k) m good ns c1
      | (Inr resp, c1) \<Rightarrow>
          (let (ps, c2) = learn_peers infoHash resp c1
           in case get_peers_loop iter env busy infoHash (Suc k) (m + length ps) (Suc good) ns (learn_nodes resp c2) of
                (Inl e, c3) \<Rightarrow> (Inl e, c3)
              | (Inr qs, c3) \<Rightarrow> (Inr (offered busy m ps @ qs), c3)))"

definition GetPeers ::
  "((bytes, node) gomap \<Rightarrow> node list) \<Rightarrow> (nat \<Rightarrow> bytes \<times> (bytes \<times> bytes) list) \<Rightarrow> (nat \<Rightarrow> bool) \<Rightarrow> bytes \<Rightarrow>
    client \<Rightarrow> (error + peer list) \<times> client" where
  "GetPeers iter env busy infoHash c =
     (case mget (d_peers c) infoHash of
        Some (p # ps) \<Rightarrow> (Inr (p # ps), c)
      | _ \<Rightarrow> get_peers_loop iter env busy infoHash 0 0 0 (iter (d_nodes c)) c)"

section \<open>Compact nodes\<close>

lemma port_text: "show_int (uint (p :: 16 word)) = show_nat (unat p)"
  by (simp add: show_int_def nat_uint_eq del: unsigned_of_nat)

lemma show_nat_93: "93 \<notin> set (show_nat n)"
  using show_nat_digits [of n] by (auto simp: list_all_iff is_digit_def)

lemma show_ipv4_93: "93 \<notin> set (show_ipv4 ip)"
  using set_join_with [of "[46]" "map (\<lambda>b. show_nat (unat b)) ip"] show_nat_93 by (auto simp: show_ipv4_def)

lemma node_addr_text: "length ip = 4 \<Longrightarrow> node_addr ip port = show_ipv4 ip @ 58 # show_nat (unat port)"
  by (auto simp: node_addr_def port_text IP_String_def To4_def)

lemma split_node_addr:
  assumes "length ip = 4"
  shows "SplitHostPort (node_addr ip port) = Some (show_ipv4 ip, show_nat (unat port))"
proof -
  let ?h = "show_ipv4 ip" and ?p = "show_nat (unat port)"
  have h: "58 \<notin> set ?h" "91 \<notin> set ?h" "93 \<notin> set ?h" using show_ipv4_chars show_ipv4_93 by blast+
  have p: "58 \<notin> set ?p" "91 \<notin> set ?p" "93 \<notin> set ?p" using show_nat_seps show_nat_93 by blast+
  have "takeWhile (\<lambda>b. b \<noteq> 58) (rev (?h @ 58 # ?p)) = rev ?p"
    using p(1) by (subst rev_append, simp) (subst takeWhile_append2, auto)
  moreover have "hd (?h @ 58 # ?p) \<noteq> 91" using h by (cases ?h) auto
  ultimately show ?thesis
    using h p by (simp add: SplitHostPort_def node_addr_text [OF assms] Let_def)
qed

lemma scan_show: "scan_port (show_nat (unat (p :: 16 word))) = int (unat p)"
proof -
  let ?s = "show_nat (unat p)"
  obtain c r where s: "?s = c # r" "is_digit c" using show_nat_Cons by blast
  have ws: "dropWhile (\<lambda>b. b = 32 \<or> b = 9) ?s = ?s" using s by (auto simp: is_digit_def)
  have sg: "hd ?s \<noteq> 43" "hd ?s \<noteq> 45" using s digit_not_delim [of c] by auto
  have "takeWhile (\<lambda>b. is_digit b \<or> b = 95) ?s = ?s"
    using show_nat_digits [of "unat p"] by (simp only: takeWhile_eq_all_conv list_all_iff) simp
  moreover have "int (unat p) < 2 ^ 63" using unsigned_less [of p, where 'a = int] by simp
  ultimately show ?thesis using ws sg parse_int_show_nat [of "unat p"]
    by (simp add: scan_port_def Let_def del: takeWhile_eq_all_conv)
qed

definition node_ok :: "node \<Rightarrow> bool" where
  "node_ok n \<longleftrightarrow> length (n_ID n) = 20 \<and> (\<exists>ip port. length ip = 4 \<and> n_Addr n = node_addr ip port)"

lemma node_bytes_addr:
  assumes "length ip = 4"
  shows "node_bytes \<lparr>n_ID = i, n_Addr = node_addr ip port\<rparr> = i @ ip @ put_u16 port"
proof -
  have "To4 (ParseIP (show_ipv4 ip)) = Some ip"
    using assms by (simp add: ParseIP_show To4_def)
  then show ?thesis using assms by (simp add: node_bytes_def split_node_addr scan_show)
qed

interpretation nodes: fixed_codec node_bytes compact_node id 26 node_ok
proof
  fix n assume "node_ok n"
  then obtain ip port where n: "length (n_ID n) = 20" "length ip = 4" "n = \<lparr>n_ID = n_ID n, n_Addr = node_addr ip port\<rparr>"
    by (cases n) (auto simp: node_ok_def)
  then have b: "node_bytes n = n_ID n @ ip @ put_u16 port" by (metis node_bytes_addr)
  then show "length (node_bytes n) = 26" using n by simp
  show "compact_node (node_bytes n) = id n" using n by (simp add: b compact_node_def)
qed simp

lemma addNodes_map:
  "addNodes s c = c\<lparr>d_nodes := foldl (\<lambda>m (k, n). if mget m k = None then mput k n m else m) (d_nodes c)
     (map (\<lambda>n. (n_Addr n, n)) (map compact_node (chunks 26 s)))\<rparr>"
proof -
  have "foldl (\<lambda>c n. if mget (d_nodes c) (n_Addr n) = None
            then c\<lparr>d_nodes := mput (n_Addr n) n (d_nodes c)\<rparr> else c) c ns =
      c\<lparr>d_nodes := foldl (\<lambda>m (k, n). if mget m k = None then mput k n m else m) (d_nodes c)
         (map (\<lambda>n. (n_Addr n, n)) ns)\<rparr>" for ns
    by (induction ns arbitrary: c) simp_all
  then show ?thesis by (simp add: addNodes_def)
qed

lemma addNodes_table:
  assumes "map_ok (d_nodes c)" and "\<forall>n\<in>set ns. node_ok n"
  shows "mget (d_nodes (addNodes (encodeCompactNodes ns) c)) = map_of (map (\<lambda>n. (n_Addr n, n)) ns) ++ mget (d_nodes c)"
  using assms nodes.table_roundtrip [OF assms(2)]
  by (simp add: addNodes_map encodeCompactNodes_def gm.get_add_new)

section \<open>Answers\<close>

definition reply_msg :: "((bytes, node) gomap \<Rightarrow> node list) \<Rightarrow> bytes \<Rightarrow> bytes \<Rightarrow> dict \<Rightarrow> client \<Rightarrow> dict" where
  "reply_msg iter addr t msg c =
     [(str ''r'', GMap (query_reply iter addr msg c)), (str ''t'', GString t), (str ''y'', GString (str ''r''))]"

lemma enc_supported: "supported v \<Longrightarrow> Encode v = Inr (enc v)"
  using encode_supported [of v] by (auto simp: enc_def Encode_def)

lemma dht_keys:
  "str ''id'' \<noteq> str ''nodes''" "str ''id'' \<noteq> str ''token''" "str ''id'' \<noteq> str ''values''"
  "str ''nodes'' \<noteq> str ''token''" "str ''nodes'' \<noteq> str ''values''" "str ''token'' \<noteq> str ''values''"
  "str ''find_node'' \<noteq> str ''get_peers''"
  by (simp_all add: str_def)

lemma mget_add_nodes:
  "map_ok r \<Longrightarrow> mget (add_nodes_field iter c r) k =
     (if k = str ''nodes'' \<and> encodeCompactNodes (closestNodes iter c) \<noteq> []
      then Some (GString (encodeCompactNodes (closestNodes iter c))) else mget r k)"
  by (simp add: add_nodes_field_def Let_def mget_mput)

lemmas reply_simps = mget_add_nodes mget_mput map_ok_mput map_ok_Cons dht_keys dht_keys [symmetric]

lemma supported_reply: "list_all (supported \<circ> snd) (query_reply iter addr msg c)"
proof -
  have put: "list_all (supported \<circ> snd) m \<Longrightarrow> supported v \<Longrightarrow> list_all (supported \<circ> snd) (mput k v m)" for k v and m :: dict
    using set_mput_subset [of k v m] by (auto simp: list_all_iff)
  have "list_all (supported \<circ> snd) r \<Longrightarrow> list_all (supported \<circ> snd) (add_nodes_field iter c r)" for r
    by (simp add: add_nodes_field_def Let_def put)
  then show ?thesis by (simp add: query_reply_def Let_def put split: option.split)
qed

lemma send_ready:
  assumes "d_listening c" and "\<not> d_send_err c addr" and "supported (GMap msg)"
  shows "send addr msg c = (None, c\<lparr>d_out := d_out c @ [(addr, enc (GMap msg))]\<rparr>)"
  using assms by (simp add: send_def enc_supported)

lemma handleQuery_sends:
  assumes "d_listening c" and "\<not> d_send_err c addr"
  shows "handleQuery iter addr t msg c = c\<lparr>d_out := d_out c @ [(addr, enc (GMap (reply_msg iter addr t msg c)))]\<rparr>"
proof -
  have "supported (GMap (reply_msg iter addr t msg c))"
    using supported_reply [of iter addr msg c] by (auto simp: reply_msg_def list_all_iff)
  from send_ready [OF assms this] show ?thesis by (simp add: handleQuery_def reply_msg_def)
qed

text \<open>What a message asks for: nodes, or the peers of an info hash of 20 bytes.\<close>

definition asks_nodes :: "dict \<Rightarrow> bool" where
  "asks_nodes msg \<longleftrightarrow> as_string (mget msg (str ''q'')) = Some (str ''find_node'') \<and>
     (case mget msg (str ''a'') of Some (GMap args) \<Rightarrow> as_string (mget args (str ''target'')) \<noteq> None | _ \<Rightarrow> False)"

definition asks_peers :: "dict \<Rightarrow> bytes \<Rightarrow> bool" where
  "asks_peers msg h \<longleftrightarrow> as_string (mget msg (str ''q'')) = Some (str ''get_peers'') \<and> length h = 20 \<and>
     (case mget msg (str ''a'') of Some (GMap args) \<Rightarrow> as_string (mget args (str ''info_hash'')) = Some h | _ \<Rightarrow> False)"

lemma asks_one: "asks_peers msg h \<Longrightarrow> asks_peers msg h' \<Longrightarrow> h' = h"
  by (auto simp: asks_peers_def split: option.splits any.splits)

lemma asks_either: "asks_nodes msg \<Longrightarrow> \<not> asks_peers msg h"
  by (simp add: asks_nodes_def asks_peers_def dht_keys)

lemma empty_keys: "[] \<noteq> str ''find_node''" "[] \<noteq> str ''get_peers''"
  by (simp_all add: str_def)

text \<open>The four shapes of an answer.\<close>

lemma reply_nodes:
  assumes "asks_nodes msg"
  shows "query_reply iter addr msg c = add_nodes_field iter c [(str ''id'', GBytes (d_id c))]"
  using assms by (auto simp: asks_nodes_def query_reply_def Let_def split: option.splits any.splits)

lemma reply_peers:
  assumes "asks_peers msg h"
  shows "query_reply iter addr msg c =
    (let r = mput (str ''token'') (GBytes (genToken addr c)) [(str ''id'', GBytes (d_id c))];
         known = (case mget (d_peers c) h of None \<Rightarrow> [] | Some ps \<Rightarrow> ps)
     in if known \<noteq> [] then mput (str ''values'') (GString (encodePeerList known)) r else add_nodes_field iter c r)"
  using assms dht_keys(7)
  by (auto simp: asks_peers_def query_reply_def Let_def split: option.splits any.splits simp del: mput.simps)

lemma reply_plain:
  assumes "\<not> asks_nodes msg" and "\<And>h. \<not> asks_peers msg h"
  shows "query_reply iter addr msg c = [(str ''id'', GBytes (d_id c))]"
  using assms empty_keys dht_keys(7)
  by (auto simp: asks_nodes_def asks_peers_def query_reply_def Let_def
      split: option.splits any.splits if_splits simp del: mput.simps)


definition sample_client :: client where
  "sample_client = (New_client (replicate 20 1) [1, 2, 3, 4] (\<lambda>_. False))\<lparr>d_listening := True,
     d_nodes := [(node_addr [10, 0, 0, 2] 80, \<lparr>n_ID = replicate 20 5, n_Addr = node_addr [10, 0, 0, 2] 80\<rparr>)],
     d_peers := [(replicate 20 9, [\<lparr>IP = [10, 0, 0, 3], Port = 90\<rparr>])]\<rparr>"


section \<open>Queries\<close>

text \<open>What a datagram does: only a response to a registered transaction id reaches a channel.\<close>

definition response_to :: "bytes \<Rightarrow> bytes \<times> bytes \<Rightarrow> dict \<Rightarrow> bool" where
  "response_to tid pkt r \<longleftrightarrow> (\<exists>msg. Decode (take 65536 (snd pkt)) = Inr (GMap msg) \<and>
     as_string (mget msg (str ''y'')) = Some (str ''r'') \<and>
     (case as_string (mget msg (str ''t'')) of None \<Rightarrow> [] | Some s \<Rightarrow> s) = tid \<and>
     mget msg (str ''r'') = Some (GMap r))"

lemma handleQuery_frame:
  "\<exists>out. handleQuery iter addr t msg c = c\<lparr>d_out := out\<rparr>"
proof -
  have "\<exists>out. c = c\<lparr>d_out := out\<rparr>" by (rule exI [of _ "d_out c"]) (cases c, simp)
  then show ?thesis
    unfolding handleQuery_def send_def by (auto split: sum.split)
qed

lemma yr_keys: "str ''r'' \<noteq> str ''q''" "str ''q'' \<noteq> str ''r''" "[] \<noteq> str ''r''" "[] \<noteq> str ''q''"
  by (simp_all add: str_def)

lemma recv_packet_frame:
  assumes "recv_packet iter pkt c = Some c'" and "map_ok (d_queries c)"
  shows "d_nodes c' = d_nodes c \<and> d_peers c' = d_peers c \<and> d_id c' = d_id c \<and> map_ok (d_queries c') \<and>
    (\<forall>tid. mget (d_queries c') tid = mget (d_queries c) tid \<or>
       mget (d_queries c) tid = Some None \<and> (\<exists>r. mget (d_queries c') tid = Some (Some r) \<and> response_to tid pkt r))"
proof -
  consider "c' = c" | msg where "Decode (take 65536 (snd pkt)) = Inr (GMap msg)" "c' = handle iter (fst pkt) msg c"
    using assms(1) by (auto simp: recv_packet_def split: sum.splits any.splits if_splits)
  then show ?thesis
  proof cases
    case 2
    let ?t = "case as_string (mget msg (str ''t'')) of None \<Rightarrow> [] | Some s \<Rightarrow> s"
    consider "c' = c" | "c' = handleQuery iter (fst pkt) ?t msg c"
      | "c' = handleResponse ?t msg c" "as_string (mget msg (str ''y'')) = Some (str ''r'')"
      using 2(2) yr_keys by (auto simp: handle_def Let_def split: if_splits option.splits)
    then show ?thesis
    proof cases
      case 2
      then show ?thesis using handleQuery_frame [of iter "fst pkt" ?t msg c] assms(2) by auto
    next
      case 3
      then show ?thesis using \<open>Decode _ = _\<close> assms(2)
        by (auto simp: handleResponse_def response_to_def mget_mput map_ok_mput split: option.split any.split)
    qed (use assms(2) in simp)
  qed (use assms(2) in simp)
qed

lemma recv_packets_frame:
  assumes "recv_packets iter pkts c = Some c'" and "map_ok (d_queries c)"
  shows "d_nodes c' = d_nodes c \<and> d_peers c' = d_peers c \<and> d_id c' = d_id c \<and> map_ok (d_queries c') \<and>
    (\<forall>tid. mget (d_queries c') tid = mget (d_queries c) tid \<or>
       mget (d_queries c) tid = Some None \<and> (\<exists>r. mget (d_queries c') tid = Some (Some r) \<and> (\<exists>p\<in>set pkts. response_to tid p r)))"
  using assms
proof (induction pkts arbitrary: c)
  case (Cons p pkts)
  obtain c1 where c1: "recv_packet iter p c = Some c1" "recv_packets iter pkts c1 = Some c'"
    using Cons.prems(1) by (cases "recv_packet iter p c") auto
  note F = recv_packet_frame [OF c1(1) Cons.prems(2)]
  then have "map_ok (d_queries c1)" by blast
  note G = Cons.IH [OF c1(2) this]
  have "mget (d_queries c') tid = mget (d_queries c) tid \<or>
       mget (d_queries c) tid = Some None \<and> (\<exists>r. mget (d_queries c') tid = Some (Some r) \<and> (\<exists>p\<in>set (p # pkts). response_to tid p r))" for tid
  proof -
    have a: "mget (d_queries c1) tid = mget (d_queries c) tid \<or>
       mget (d_queries c) tid = Some None \<and> (\<exists>r. mget (d_queries c1) tid = Some (Some r) \<and> response_to tid p r)"
      using F by blast
    have b: "mget (d_queries c') tid = mget (d_queries c1) tid \<or>
       mget (d_queries c1) tid = Some None \<and> (\<exists>r. mget (d_queries c') tid = Some (Some r) \<and> (\<exists>p\<in>set pkts. response_to tid p r))"
      using G by blast
    from a b show ?thesis by auto
  qed
  with F G show ?case by auto
qed simp

lemma query_facts:
  assumes "query iter tid pkts addr qtype args c = (res, c')" and "map_ok (d_queries c)" and "res \<noteq> Inl Panic"
  shows "map_ok (d_queries c') \<and> mget (d_queries c') tid = None \<and> d_nodes c' = d_nodes c \<and> d_peers c' = d_peers c \<and>
    (\<forall>r. res = Inr r \<longrightarrow> (\<exists>p\<in>set pkts. response_to tid p r)) \<and>
    (\<forall>u. u \<noteq> tid \<longrightarrow> mget (d_queries c') u = mget (d_queries c) u \<or>
       mget (d_queries c) u = Some None \<and>
       (\<exists>r. mget (d_queries c') u = Some (Some r) \<and> (\<exists>p\<in>set pkts. response_to u p r)))"
proof -
  let ?c0 = "c\<lparr>d_queries := mput tid None (d_queries c)\<rparr>"
  have ok0: "map_ok (d_queries ?c0)" using assms(2) by (simp add: map_ok_mput)
  obtain e c1 where s: "send addr (query_msg tid qtype args) ?c0 = (e, c1)" by fastforce
  then have c1: "d_queries c1 = d_queries ?c0" "d_nodes c1 = d_nodes c" "d_peers c1 = d_peers c"
    by (auto simp: send_def split: if_splits sum.splits)
  show ?thesis
  proof (cases e)
    case (Some er)
    then show ?thesis using assms(1,2) s c1
      by (auto simp: query_def remove_query_def mget_mdel mget_mput map_ok_mdel map_ok_mput)
  next
    case None
    then obtain c2 where c2: "recv_packets iter pkts c1 = Some c2"
      using assms(1,3) s by (cases "recv_packets iter pkts c1") (auto simp: query_def)
    note F = recv_packets_frame [OF c2, unfolded c1, OF ok0]
    have c': "c' = remove_query tid c2" and r: "res = Inr r \<Longrightarrow> mget (d_queries c2) tid = Some (Some r)" for r
      using assms(1) s None c2 by (auto simp: query_def split: option.splits)
    have "mget (d_queries ?c0) tid = Some None" using assms(2) by (simp add: mget_mput)
    then have "res = Inr r \<longrightarrow> (\<exists>p\<in>set pkts. response_to tid p r)" for r
      using F r by (metis option.inject option.distinct(1))
    moreover have "mget (d_queries c2) u = mget (d_queries c) u \<or> mget (d_queries c) u = Some None \<and>
        (\<exists>r. mget (d_queries c2) u = Some (Some r) \<and> (\<exists>p\<in>set pkts. response_to u p r))" if "u \<noteq> tid" for u
    proof -
      have "mget (d_queries ?c0) u = mget (d_queries c) u" using assms(2) that by (simp add: mget_mput)
      moreover from F have "mget (d_queries c2) u = mget (d_queries ?c0) u \<or> mget (d_queries ?c0) u = Some None \<and>
          (\<exists>r. mget (d_queries c2) u = Some (Some r) \<and> (\<exists>p\<in>set pkts. response_to u p r))" by blast
      ultimately show ?thesis by simp
    qed
    ultimately show ?thesis using F by (auto simp: c' remove_query_def mget_mdel map_ok_mdel)
  qed
qed

text \<open>C13. A query ends in every case without its transaction id registered and without touching the
  routing table or the known peers; it succeeds only with the dictionary of a response that carries
  its id and arrived while it waited, and other waiting queries keep their channels, in which at
  most a response with their own id has arrived.\<close>

theorem query_result:
  assumes "query iter tid pkts addr qtype args c = (res, c')" and "map_ok (d_queries c)" and "res \<noteq> Inl Panic"
  shows "mget (d_queries c') tid = None \<and> d_nodes c' = d_nodes c \<and> d_peers c' = d_peers c \<and>
    (\<forall>r. res = Inr r \<longrightarrow> (\<exists>p\<in>set pkts. response_to tid p r)) \<and>
    (\<forall>u. u \<noteq> tid \<longrightarrow> mget (d_queries c') u = mget (d_queries c) u \<or>
       mget (d_queries c) u = Some None \<and>
       (\<exists>r. mget (d_queries c') u = Some (Some r) \<and> (\<exists>p\<in>set pkts. response_to u p r)))"
  using query_facts [OF assms] by (rule conjunct2)

text \<open>What a node answers and what the asker makes of it.\<close>

definition get_peers_args :: "bytes \<Rightarrow> client \<Rightarrow> dict" where
  "get_peers_args infoHash c = [(str ''id'', GBytes (d_id c)), (str ''info_hash'', GBytes infoHash)]"

definition ipv4_peer :: "peer \<Rightarrow> peer" where
  "ipv4_peer p = \<lparr>IP = the (To4 (IP p)), Port = Port p\<rparr>"

lemma decode_encode_peers:
  assumes "\<forall>p\<in>set ps. To4 (IP p) \<noteq> None"
  shows "decodePeers (GString (encodePeerList ps)) = map ipv4_peer ps" and "length (encodePeerList ps) = 6 * length ps"
proof -
  have e: "encodePeerList ps = concat (map peer_bytes (map ipv4_peer ps))"
    using assms by (induction ps) (auto simp: encodePeerList_def peer_bytes_def ipv4_peer_def)
  have v: "\<forall>q\<in>set (map ipv4_peer ps). length (IP q) = 4"
    using assms To4_length by (fastforce simp: ipv4_peer_def)
  show "decodePeers (GString (encodePeerList ps)) = map ipv4_peer ps"
    unfolding e using compact.table_roundtrip [OF v] by simp
  show "length (encodePeerList ps) = 6 * length ps"
    unfolding e using compact.length_table [OF v] by simp
qed

lemma question_ok:
  assumes "length (d_id c) = 20" and "length h = 20" and "length tid = 2"
  shows "val_ok (GMap (query_msg tid (str ''get_peers'') (get_peers_args h c)))"
    and "length (enc (GMap (query_msg tid (str ''get_peers'') (get_peers_args h c)))) \<le> 65536"
  using assms
  by (simp_all add: query_msg_def get_peers_args_def str_def map_ok_Cons max_alloc_def enc_def Encode_def encodeString_def
      show_int_def show_nat.simps)

lemma length_genToken: "length (d_secret c) = 4 \<Longrightarrow> length (genToken addr c) = 4"
  by (simp add: genToken_def TokenLen_def length_sha1)

definition peers_reply :: "bytes \<Rightarrow> bytes \<Rightarrow> bytes \<Rightarrow> bytes \<Rightarrow> dict" where
  "peers_reply self tok values tid =
     [(str ''r'', GMap [(str ''id'', GBytes self), (str ''token'', GBytes tok), (str ''values'', GString values)]),
      (str ''t'', GString tid), (str ''y'', GString (str ''r''))]"

lemma peers_reply_ok:
  assumes "length self = 20" and "length tok = 4" and "length values < 60000" and "length tid = 2"
  shows "val_ok (GMap (peers_reply self tok values tid))"
    and "length (enc (GMap (peers_reply self tok values tid))) \<le> 65536"
proof -
  show "val_ok (GMap (peers_reply self tok values tid))"
    using assms by (simp add: peers_reply_def str_def map_ok_Cons max_alloc_def)
  have "length (show_int (int (length values))) \<le> 5"
    using show_nat_length [of "length values" 4] assms(3) by (simp add: show_int_def)
  then show "length (enc (GMap (peers_reply self tok values tid))) \<le> 65536"
    using assms by (simp add: peers_reply_def str_def enc_def Encode_def encodeString_def show_int_def show_nat.simps)
qed

text \<open>The datagram of an encoded dictionary is taken as that dictionary.\<close>

lemma recv_enc:
  assumes "val_ok (GMap m)" and "length (enc (GMap m)) \<le> 65536"
  shows "recv_packet iter (addr, enc (GMap m)) c = Some (handle iter addr (map (\<lambda>(k, v). (k, norm v)) m) c)"
  using assms by (simp add: recv_packet_def Decode_enc)

lemma answer_known:
  assumes "d_listening c" and "\<not> d_send_err c addr" and "mget (d_peers c) h = Some ps" and "ps \<noteq> []" and "length h = 20"
  shows "handle iter addr (map (\<lambda>(k, v). (k, norm v)) (query_msg tid (str ''get_peers'') (get_peers_args h c1))) c =
    c\<lparr>d_out := d_out c @ [(addr, enc (GMap (peers_reply (d_id c) (genToken addr c) (encodePeerList ps) tid)))]\<rparr>"
proof -
  let ?m = "map (\<lambda>(k, v). (k, norm v)) (query_msg tid (str ''get_peers'') (get_peers_args h c1))"
  have m: "mget ?m (str ''y'') = Some (GString (str ''q''))" "mget ?m (str ''t'') = Some (GString tid)"
    "mget ?m (str ''q'') = Some (GString (str ''get_peers''))"
    "mget ?m (str ''a'') = Some (GMap [(str ''id'', GString (d_id c1)), (str ''info_hash'', GString h)])"
    by (simp_all add: query_msg_def get_peers_args_def) (simp_all add: str_def)
  have a: "mget [(str ''id'', GString (d_id c1)), (str ''info_hash'', GString h)] (str ''info_hash'') = Some (GString h)"
    by (simp add: str_def)
  have "query_reply iter addr ?m c = mput (str ''values'') (GString (encodePeerList ps))
      (mput (str ''token'') (GBytes (genToken addr c)) [(str ''id'', GBytes (d_id c))])"
    using assms(3-5) m(3,4) a dht_keys(7) by (simp add: query_reply_def Let_def)
  also have "\<dots> = [(str ''id'', GBytes (d_id c)), (str ''token'', GBytes (genToken addr c)), (str ''values'', GString (encodePeerList ps))]"
    by (simp add: str_def)
  finally have "reply_msg iter addr tid ?m c = peers_reply (d_id c) (genToken addr c) (encodePeerList ps) tid"
    by (simp add: reply_msg_def peers_reply_def)
  then show ?thesis using handleQuery_sends [OF assms(1,2), of iter tid ?m] m(1,2) by (simp add: handle_def Let_def)
qed

lemma exchange_facts:
  assumes "d_listening c1" and "\<not> d_send_err c1 addr2" and "length (d_id c1) = 20" and "map_ok (d_queries c1)"
    and "d_listening c2" and "\<not> d_send_err c2 addr1" and "length (d_id c2) = 20" and "length (d_secret c2) = 4"
    and "mget (d_peers c2) h = Some ps" and "ps \<noteq> []" and "length ps < 10000" and "\<forall>p\<in>set ps. To4 (IP p) \<noteq> None"
    and "length h = 20" and "length tid = 2"
  shows "\<exists>question answer r c1'.
    send addr2 (query_msg tid (str ''get_peers'') (get_peers_args h c1)) c1 =
      (None, c1\<lparr>d_out := d_out c1 @ [(addr2, question)]\<rparr>) \<and>
    recv_packet iter2 (addr1, question) c2 = Some (c2\<lparr>d_out := d_out c2 @ [(addr1, answer)]\<rparr>) \<and>
    query iter1 tid [(addr2, answer)] addr2 (str ''get_peers'') (get_peers_args h c1) c1 = (Inr r, c1') \<and>
    fst (learn_peers h r c1') = map ipv4_peer ps"
proof -
  let ?q = "query_msg tid (str ''get_peers'') (get_peers_args h c1)"
  let ?a = "peers_reply (d_id c2) (genToken addr1 c2) (encodePeerList ps) tid"
  let ?c0 = "c1\<lparr>d_queries := mput tid None (d_queries c1)\<rparr>"
  let ?r = "[(str ''id'', GString (d_id c2)), (str ''token'', GString (genToken addr1 c2)), (str ''values'', GString (encodePeerList ps))]"
  note Q = question_ok [OF assms(3,13,14)] and P = decode_encode_peers [OF assms(12)]
  have A: "val_ok (GMap ?a)" "length (enc (GMap ?a)) \<le> 65536"
    using peers_reply_ok [OF assms(7) length_genToken [OF assms(8)]] P(2) assms(11,14) by simp_all
  have sends: "send addr2 ?q c = (None, c\<lparr>d_out := d_out c @ [(addr2, enc (GMap ?q))]\<rparr>)"
    if "d_listening c" "\<not> d_send_err c addr2" for c
    using send_ready [OF that val_ok_supported [OF Q(1)]] .
  have "recv_packet iter2 (addr1, enc (GMap ?q)) c2 = Some (c2\<lparr>d_out := d_out c2 @ [(addr1, enc (GMap ?a))]\<rparr>)"
    using recv_enc [OF Q] answer_known [OF assms(5,6,9,10,13)] by simp
  moreover have "query iter1 tid [(addr2, enc (GMap ?a))] addr2 (str ''get_peers'') (get_peers_args h c1) c1 =
      (Inr ?r, remove_query tid (?c0\<lparr>d_out := d_out c1 @ [(addr2, enc (GMap ?q))], d_queries := mput tid (Some ?r) (mput tid None (d_queries c1))\<rparr>))"
  proof -
    let ?m = "map (\<lambda>(k, v). (k, norm v)) ?a"
    let ?s = "?c0\<lparr>d_out := d_out c1 @ [(addr2, enc (GMap ?q))]\<rparr>"
    have m: "mget ?m (str ''y'') = Some (GString (str ''r''))" "mget ?m (str ''t'') = Some (GString tid)"
      "mget ?m (str ''r'') = Some (GMap ?r)"
      by (simp_all add: peers_reply_def) (simp_all add: str_def)
    have t: "mget (d_queries ?s) tid = Some None" using assms(4) by (simp add: mget_mput)
    have "handle iter1 addr2 ?m ?s = ?s\<lparr>d_queries := mput tid (Some ?r) (mput tid None (d_queries c1))\<rparr>"
      using m t yr_keys by (simp add: handle_def Let_def handleResponse_def)
    then show ?thesis
      using sends [of ?c0] recv_enc [OF A] assms(1,2,4) by (simp add: query_def mget_mput map_ok_mput)
  qed
  moreover have "mget ?r (str ''values'') = Some (GString (encodePeerList ps))" by (simp add: str_def)
  then have "fst (learn_peers h ?r c) = map ipv4_peer ps" for c
    using P(1) by (simp add: learn_peers_def Let_def)
  ultimately show ?thesis using sends [OF assms(1,2)] by blast
qed

text \<open>C12. Two nodes that run the program understand each other: asked for the peers of an info hash,
  a node that knows some answers with them, and the asker, whose query ends with that answer,
  learns exactly these peers, in order.\<close>

theorem dht_exchange:
  assumes "d_listening c1" and "\<not> d_send_err c1 addr2" and "length (d_id c1) = 20" and "map_ok (d_queries c1)"
    and "d_listening c2" and "\<not> d_send_err c2 addr1" and "length (d_id c2) = 20" and "length (d_secret c2) = 4"
    and "mget (d_peers c2) h = Some ps" and "ps \<noteq> []" and "length ps < 10000" and "\<forall>p\<in>set ps. To4 (IP p) \<noteq> None"
    and "length h = 20" and "length tid = 2"
  shows "\<exists>question answer r c1'.
    send addr2 (query_msg tid (str ''get_peers'') (get_peers_args h c1)) c1 =
      (None, c1\<lparr>d_out := d_out c1 @ [(addr2, question)]\<rparr>) \<and>
    recv_packet iter2 (addr1, question) c2 = Some (c2\<lparr>d_out := d_out c2 @ [(addr1, answer)]\<rparr>) \<and>
    query iter1 tid [(addr2, answer)] addr2 (str ''get_peers'') (get_peers_args h c1) c1 = (Inr r, c1') \<and>
    fst (learn_peers h r c1') = map ipv4_peer ps"
  by (rule exchange_facts [OF assms])

lemma sample_client_sel:
  "d_listening sample_client" "\<not> d_send_err sample_client a" "d_id sample_client = 77 # replicate 19 1"
  "d_secret sample_client = [1, 2, 3, 4]" "d_queries sample_client = []"
  "d_peers sample_client = [(replicate 20 9, [\<lparr>IP = [10, 0, 0, 3], Port = 90\<rparr>])]"
  by (simp_all add: sample_client_def New_client_def numeral_eq_Suc)

theorem query_result_witness:
  "fst (query (map snd) [1, 2] [] (str ''a'') (str ''ping'') [] sample_client) = Inl ErrTimeout \<and>
    mget (d_queries (snd (query (map snd) [1, 2] [] (str ''a'') (str ''ping'') [] sample_client))) [1, 2] = None"
proof -
  have s: "send (str ''a'') (query_msg [1, 2] (str ''ping'') []) c = (None, c\<lparr>d_out := d_out c @
      [(str ''a'', enc (GMap (query_msg [1, 2] (str ''ping'') [])))]\<rparr>)" if "d_listening c" "\<not> d_send_err c (str ''a'')" for c
    using that by (intro send_ready) (simp_all add: query_msg_def)
  have r: "fst (query (map snd) [1, 2] [] (str ''a'') (str ''ping'') [] sample_client) = Inl ErrTimeout"
    by (simp add: query_def s sample_client_sel)
  then have "query (map snd) [1, 2] [] (str ''a'') (str ''ping'') [] sample_client =
      (Inl ErrTimeout, snd (query (map snd) [1, 2] [] (str ''a'') (str ''ping'') [] sample_client))"
    by (metis prod.collapse)
  from query_result [OF this] r show ?thesis by (simp add: sample_client_sel)
qed

theorem dht_exchange_witness:
  "\<exists>answer r c1'. query (map snd) [1, 2] [(str ''b'', answer)] (str ''b'') (str ''get_peers'')
      (get_peers_args (replicate 20 9) sample_client) sample_client = (Inr r, c1') \<and>
    fst (learn_peers (replicate 20 9) r c1') = [\<lparr>IP = [10, 0, 0, 3], Port = 90\<rparr>]"
proof -
  have "map ipv4_peer [\<lparr>IP = [10, 0, 0, 3], Port = 90\<rparr>] = [\<lparr>IP = [10, 0, 0, 3], Port = 90\<rparr>]"
    by (simp add: ipv4_peer_def To4_def)
  moreover have "To4 [10, 0, 0, 3] = Some [10, 0, 0, 3]" by (simp add: To4_def)
  ultimately show ?thesis
    using dht_exchange [of sample_client "str ''b''" sample_client "str ''a''" "replicate 20 9"
        "[\<lparr>IP = [10, 0, 0, 3], Port = 90\<rparr>]" "[1, 2]" "map snd" "map snd"]
    by (simp add: sample_client_sel) blast
qed

section \<open>Where the code differs from the protocol\<close>

text \<open>The protocol sends the peers as a list of six-byte strings; such a list is ignored.\<close>

lemma decodePeers_bep5: "decodePeers (GList [GString [10, 0, 0, 1, 0, 80]]) = []"
  by simp

text \<open>One datagram with an absurd string length ends the process.\<close>

lemma recv_packet_panic: "recv_packet iter (addr, str ''999999999999999999:'') c = None"
proof -
  have "take 65536 (str ''999999999999999999:'') = str ''999999999999999999:''" by simp
  moreover have "Decode (str ''999999999999999999:'') = Inl Panic" by code_simp
  ultimately show ?thesis by (simp add: recv_packet_def)
qed

end
