(* ===== verification/Lookup.thy ===== *)
theory Lookup
  imports Dht
begin

text \<open>
  The search for peers in the DHT (\<^verbatim>\<open>GetPeers\<close> of
  \<^verbatim>\<open>dht/dht.go\<close>): where the peers come from and what the client remembers.
\<close>

definition client_ok :: "client \<Rightarrow> bool" where
  "client_ok c \<longleftrightarrow> map_ok (d_nodes c) \<and> map_ok (d_peers c) \<and> map_ok (d_queries c)"

definition known_peers :: "client \<Rightarrow> bytes \<Rightarrow> peer list" where
  "known_peers c h = (case mget (d_peers c) h of None \<Rightarrow> [] | Some ps \<Rightarrow> ps)"

text \<open>A peer in a response to the \<open>k\<close>-th query, with its transaction id and while it waited.\<close>

definition answered :: "(nat \<Rightarrow> bytes \<times> (bytes \<times> bytes) list) \<Rightarrow> nat \<Rightarrow> peer \<Rightarrow> bool" where
  "answered env k p \<longleftrightarrow> (\<exists>pkt\<in>set (snd (env k)). \<exists>r v. response_to (fst (env k)) pkt r \<and>
     mget r (str ''values'') = Some v \<and> p \<in> set (decodePeers v))"

text \<open>The routing table grows, and what is known for other info hashes stays.\<close>

definition extends :: "bytes \<Rightarrow> client \<Rightarrow> client \<Rightarrow> bool" where
  "extends h c c' \<longleftrightarrow> client_ok c' \<and> mget (d_nodes c) \<subseteq>\<^sub>m mget (d_nodes c') \<and>
     (\<forall>h'. h' \<noteq> h \<longrightarrow> known_peers c' h' = known_peers c h')"

lemma extends_trans: "extends h c c1 \<Longrightarrow> extends h c1 c2 \<Longrightarrow> extends h c c2"
  by (auto simp: extends_def intro: map_le_trans)

lemma query_extends:
  assumes "query iter tid pkts addr qtype args c = (res, c')" and "client_ok c" and "res \<noteq> Inl Panic"
  shows "extends h c c'" and "known_peers c' h = known_peers c h" and "res = Inr r \<Longrightarrow> \<exists>p\<in>set pkts. response_to tid p r"
  using query_facts [OF assms(1) _ assms(3)] assms(2) by (auto simp: extends_def client_ok_def known_peers_def)

lemma learn_peers_extends:
  assumes "learn_peers h r c = (ps, c')" and "client_ok c"
  shows "extends h c c'" and "known_peers c' h = known_peers c h @ ps"
    and "p \<in> set ps \<Longrightarrow> \<exists>v. mget r (str ''values'') = Some v \<and> p \<in> set (decodePeers v)"
  using assms
  by (auto simp: learn_peers_def extends_def client_ok_def known_peers_def Let_def mget_mput map_ok_mput
      split: option.splits)

lemma learn_nodes_extends:
  assumes "client_ok c"
  shows "extends h c (learn_nodes r c)" and "known_peers (learn_nodes r c) h = known_peers c h"
  using assms gm.ok_add_new [of "d_nodes c"] gm.get_add_new [of "d_nodes c"]
  by (auto simp: learn_nodes_def addNodes_map extends_def client_ok_def known_peers_def split: option.split)

lemma offered_all: "(\<And>i. \<not> busy i) \<Longrightarrow> offered busy k ps = ps"
  by (simp add: offered_def)

lemma offered_some: "set (offered busy k ps) \<subseteq> set ps"
  by (auto simp: offered_def dest: set_zip_leftD)

lemma answered_later:
  "\<exists>j. Suc k \<le> j \<and> j < Suc k + length ns \<and> answered env j p \<Longrightarrow> \<exists>j. k \<le> j \<and> j < k + length (n # ns) \<and> answered env j p"
  by (elim exE) (rule_tac x = j in exI, simp)

lemma get_peers_loop_facts:
  assumes "get_peers_loop iter env busy h k m good ns c = (Inr ps, c')" and "client_ok c"
  shows "extends h c c' \<and> (\<exists>qs. known_peers c' h = known_peers c h @ qs \<and> set ps \<subseteq> set qs \<and>
    ((\<forall>i. \<not> busy i) \<longrightarrow> ps = qs) \<and> (\<forall>p\<in>set qs. \<exists>j. k \<le> j \<and> j < k + length ns \<and> answered env j p))"
  using assms
proof (induction ns arbitrary: k m good c ps)
  case Nil
  then show ?case by (auto simp: extends_def)
next
  case (Cons n ns)
  let ?args = "[(str ''id'', GBytes (d_id c)), (str ''info_hash'', GBytes h)]"
  obtain res c1 where q: "query iter (fst (env k)) (snd (env k)) (n_Addr n) (str ''get_peers'') ?args c = (res, c1)"
    by (rule prod.exhaust)
  consider (full) "good \<ge> 8" | (fail) e where "good < 8" "res = Inl e" | (resp) r where "good < 8" "res = Inr r"
    by (cases res) (auto simp: not_le [symmetric])
  then show ?case
  proof cases
    case full
    with Cons.prems show ?thesis by (auto simp: extends_def)
  next
    case (fail e)
    then have np: "res \<noteq> Inl Panic" and rec: "get_peers_loop iter env busy h (Suc k) m good ns c1 = (Inr ps, c')"
      using Cons.prems(1) q by (auto split: if_splits)
    have e1: "extends h c c1" "known_peers c1 h = known_peers c h"
      using query_extends(1,2) [OF q Cons.prems(2) np] by blast+
    then have "client_ok c1" by (simp add: extends_def)
    from Cons.IH [OF rec this] obtain qs where I: "extends h c1 c'" "known_peers c' h = known_peers c1 h @ qs"
      "set ps \<subseteq> set qs" "(\<forall>i. \<not> busy i) \<longrightarrow> ps = qs" and A: "\<forall>p\<in>set qs. \<exists>j. Suc k \<le> j \<and> j < Suc k + length ns \<and> answered env j p"
      by blast
    have "\<exists>j. k \<le> j \<and> j < k + length (n # ns) \<and> answered env j p" if "p \<in> set qs" for p
      using A that by (blast intro: answered_later)
    then show ?thesis using extends_trans [OF e1(1) I(1)] e1(2) I(2-4) by auto
  next
    case (resp r)
    obtain ps1 c2 where l: "learn_peers h r c1 = (ps1, c2)" by (rule prod.exhaust)
    obtain ps2 where rec: "get_peers_loop iter env busy h (Suc k) (m + length ps1) (Suc good) ns (learn_nodes r c2) = (Inr ps2, c')"
      and ps: "ps = offered busy m ps1 @ ps2"
      using Cons.prems(1) q resp l by (auto split: sum.splits prod.splits)
    have np: "res \<noteq> Inl Panic" using resp by simp
    have e1: "extends h c c1" "known_peers c1 h = known_peers c h" "\<exists>p\<in>set (snd (env k)). response_to (fst (env k)) p r"
      using query_extends(1,2) [OF q Cons.prems(2) np] query_extends(3) [OF q Cons.prems(2) np resp(2)] by blast+
    then have ok1: "client_ok c1" by (simp add: extends_def)
    have e2: "extends h c1 c2" "known_peers c2 h = known_peers c1 h @ ps1"
      using learn_peers_extends(1,2) [OF l ok1] by blast+
    then have ok2: "client_ok c2" by (simp add: extends_def)
    have e3: "extends h c2 (learn_nodes r c2)" "known_peers (learn_nodes r c2) h = known_peers c2 h"
      using learn_nodes_extends [OF ok2] by blast+
    then have "client_ok (learn_nodes r c2)" by (simp add: extends_def)
    from Cons.IH [OF rec this] obtain qs where I: "extends h (learn_nodes r c2) c'" "known_peers c' h = known_peers (learn_nodes r c2) h @ qs"
      "set ps2 \<subseteq> set qs" "(\<forall>i. \<not> busy i) \<longrightarrow> ps2 = qs"
      and A: "\<forall>p\<in>set qs. \<exists>j. Suc k \<le> j \<and> j < Suc k + length ns \<and> answered env j p"
      by blast
    have "extends h c c'" using extends_trans [OF extends_trans [OF extends_trans [OF e1(1) e2(1)] e3(1)] I(1)] .
    moreover have "known_peers c' h = known_peers c h @ ps1 @ qs" using I(2) e3(2) e2(2) e1(2) by simp
    moreover have "set ps \<subseteq> set (ps1 @ qs)" using ps I(3) offered_some [of busy m ps1] by auto
    moreover have "(\<forall>i. \<not> busy i) \<longrightarrow> ps = ps1 @ qs" using ps I(4) offered_all [of busy m ps1] by simp
    moreover have "\<exists>j. k \<le> j \<and> j < k + length (n # ns) \<and> answered env j p" if "p \<in> set (ps1 @ qs)" for p
    proof (cases "p \<in> set ps1")
      case True
      then have "answered env k p"
        using learn_peers_extends(3) [OF l ok1 True] e1(3) unfolding answered_def by blast
      then show ?thesis by (intro exI [of _ k]) simp
    next
      case False
      then have "p \<in> set qs" using that by simp
      with A show ?thesis by (blast intro: answered_later)
    qed
    ultimately show ?thesis by blast
  qed
qed

text \<open>C11. A search that finds nothing in memory asks the nodes of the table. Every peer it delivers
  was in an answer to one of its own queries; all of them are delivered as long as the receiver
  keeps up; they are remembered for the info hash, so that the next search answers from memory;
  nothing known for other hashes changes and no node of the table is lost or replaced.\<close>

theorem dht_lookup:
  assumes "GetPeers iter env busy h c = (Inr ps, c')" and "client_ok c" and "known_peers c h = []"
  shows "set ps \<subseteq> set (known_peers c' h) \<and> ((\<forall>i. \<not> busy i) \<longrightarrow> ps = known_peers c' h) \<and>
    (\<forall>p\<in>set (known_peers c' h). \<exists>j < length (iter (d_nodes c)). answered env j p) \<and>
    (known_peers c' h \<noteq> [] \<longrightarrow> GetPeers iter' env' busy' h c' = (Inr (known_peers c' h), c')) \<and>
    (\<forall>h'. h' \<noteq> h \<longrightarrow> known_peers c' h' = known_peers c h') \<and> mget (d_nodes c) \<subseteq>\<^sub>m mget (d_nodes c')"
proof -
  have "get_peers_loop iter env busy h 0 0 0 (iter (d_nodes c)) c = (Inr ps, c')"
    using assms(1,3) by (auto simp: GetPeers_def known_peers_def split: option.splits list.splits)
  from get_peers_loop_facts [OF this assms(2)] assms(3)
  have "extends h c c'" "set ps \<subseteq> set (known_peers c' h)" "(\<forall>i. \<not> busy i) \<longrightarrow> ps = known_peers c' h"
    "\<forall>p\<in>set (known_peers c' h). \<exists>j < length (iter (d_nodes c)). answered env j p"
    by auto
  moreover have "known_peers c' h \<noteq> [] \<longrightarrow> GetPeers iter' env' busy' h c' = (Inr (known_peers c' h), c')"
    by (auto simp: GetPeers_def known_peers_def split: option.split list.split)
  ultimately show ?thesis by (simp add: extends_def)
qed

section \<open>A search in a network of two nodes\<close>

definition asker :: client where
  "asker = sample_client\<lparr>d_peers := []\<rparr>"

lemma asker_asks:
  obtains answer r c1 where "query (map snd) [1, 2] [(node_addr [10, 0, 0, 2] 80, answer)] (node_addr [10, 0, 0, 2] 80)
      (str ''get_peers'') (get_peers_args (replicate 20 9) asker) asker = (Inr r, c1)"
    and "fst (learn_peers (replicate 20 9) r c1) = [\<lparr>IP = [10, 0, 0, 3], Port = 90\<rparr>]"
proof -
  have p: "map ipv4_peer [\<lparr>IP = [10, 0, 0, 3], Port = 90\<rparr>] = [\<lparr>IP = [10, 0, 0, 3], Port = 90\<rparr>]"
    "To4 [10, 0, 0, 3] = Some [10, 0, 0, 3]"
    by (simp_all add: ipv4_peer_def To4_def)
  have "d_listening asker" "\<not> d_send_err asker a" "length (d_id asker) = 20" "map_ok (d_queries asker)" for a
    by (simp_all add: asker_def sample_client_sel)
  from exchange_facts [OF this, of sample_client "str ''a''" "replicate 20 9" "[\<lparr>IP = [10, 0, 0, 3], Port = 90\<rparr>]" "[1, 2]"
    "node_addr [10, 0, 0, 2] 80" "map snd" "map snd"] p that
  show thesis by (simp add: sample_client_sel) blast
qed

theorem dht_lookup_witness:
  "\<exists>env c'. GetPeers (map snd) env (\<lambda>_. False) (replicate 20 9) asker = (Inr [\<lparr>IP = [10, 0, 0, 3], Port = 90\<rparr>], c') \<and>
    known_peers c' (replicate 20 9) = [\<lparr>IP = [10, 0, 0, 3], Port = 90\<rparr>] \<and>
    GetPeers (map snd) env (\<lambda>_. True) (replicate 20 9) c' = (Inr [\<lparr>IP = [10, 0, 0, 3], Port = 90\<rparr>], c')"
proof -
  let ?a = "node_addr [10, 0, 0, 2] 80" and ?ps = "[\<lparr>IP = [10, 0, 0, 3], Port = 90\<rparr>] :: peer list"
  obtain answer r c1 where q: "query (map snd) [1, 2] [(?a, answer)] ?a (str ''get_peers'')
      (get_peers_args (replicate 20 9) asker) asker = (Inr r, c1)"
    and l: "fst (learn_peers (replicate 20 9) r c1) = ?ps"
    by (rule asker_asks)
  obtain c2 where l2: "learn_peers (replicate 20 9) r c1 = (?ps, c2)" using l by (metis prod.collapse)
  let ?env = "\<lambda>_. ([1, 2], [(?a, answer)])"
  have n: "d_nodes asker = [(?a, \<lparr>n_ID = replicate 20 5, n_Addr = ?a\<rparr>)]" "d_peers asker = []" "d_queries asker = []"
    by (simp_all add: asker_def sample_client_def New_client_def)
  then have ok: "client_ok asker" "known_peers asker (replicate 20 9) = []"
    by (simp_all add: client_ok_def map_ok_def known_peers_def)
  have "get_peers_loop (map snd) ?env (\<lambda>_. False) (replicate 20 9) 0 0 0 [\<lparr>n_ID = replicate 20 5, n_Addr = ?a\<rparr>] asker =
      (Inr ?ps, learn_nodes r c2)"
    using q l2 by (simp only: get_peers_loop.simps get_peers_args_def) (simp add: offered_def)
  then have g: "GetPeers (map snd) ?env (\<lambda>_. False) (replicate 20 9) asker = (Inr ?ps, learn_nodes r c2)"
    by (simp only: GetPeers_def n) simp
  note D = dht_lookup [OF g ok, where iter' = "map snd" and env' = ?env and busy' = "\<lambda>_. True"]
  then have k: "known_peers (learn_nodes r c2) (replicate 20 9) = ?ps" by auto
  with D have "GetPeers (map snd) ?env (\<lambda>_. True) (replicate 20 9) (learn_nodes r c2) = (Inr ?ps, learn_nodes r c2)"
    by simp
  with g k show ?thesis by blast
qed

end
