(* ===== verification/Torrent.thy ===== *)
theory Torrent
  imports DownloadRun Metadata Dht
begin

text \<open>
  The life of a torrent up to its download (\<^verbatim>\<open>torrent/torrent.go\<close> outside
  \<^verbatim>\<open>downloadPieces\<close>, and the first part of \<^verbatim>\<open>run\<close> in
  \<^verbatim>\<open>main.go\<close>): peers from the trackers and from the DHT, the metadata. The world
  outside is one record; progress messages are left out. The whole program is in \<open>Program\<close>.
\<close>

section \<open>The world and the torrent\<close>

text \<open>
  What the program does not determine: parsed tracker URLs, HTTP bodies, UDP sockets and
  transaction ids; the order in which trackers and metadata peers answer; the DHT's socket, random
  numbers, map iteration and datagrams, and how many of its peers arrive before the timeout; what
  dialing an address gives; the random part of the peer id.
\<close>

record world =
  w_url :: "bytes \<Rightarrow> url option"
  w_http :: "bytes \<Rightarrow> bytes \<Rightarrow> error + bytes"
  w_udp :: "bytes \<Rightarrow> udp option"
  w_tx :: "bytes \<Rightarrow> 32 word \<times> 32 word"
  w_arrival :: "bytes list \<Rightarrow> bytes list"
  w_listen :: bool
  w_nodeID :: bytes
  w_secret :: bytes
  w_send_err :: "bytes \<Rightarrow> bool"
  w_iter :: "(bytes, node) gomap \<Rightarrow> node list"
  w_env :: "nat \<Rightarrow> bytes \<times> (bytes \<times> bytes) list"
  w_busy :: "nat \<Rightarrow> bool"
  w_received :: nat
  w_answers :: "peer list \<Rightarrow> peer list"
  w_dial :: "bytes \<Rightarrow> (bytes \<times> nat) option"
  w_random :: bytes

record torrent =
  t_Magnet :: magnet
  t_Info :: "info option"
  t_PeerID :: bytes
  t_OutputDir :: bytes
  t_peers :: "peer list"

definition New_torrent :: "bytes \<Rightarrow> magnet \<Rightarrow> bytes \<Rightarrow> torrent" where
  "New_torrent random m outputDir =
     \<lparr>t_Magnet = m, t_Info = None, t_PeerID = str ''-AM0001-'' @ copy (replicate 12 0) random,
      t_OutputDir = outputDir, t_peers = []\<rparr>"

section \<open>Peers\<close>

definition announce_params :: "torrent \<Rightarrow> announceParams" where
  "announce_params t =
     \<lparr>ap_InfoHash = m_InfoHash (t_Magnet t), ap_PeerID = t_PeerID t, ap_Port = 6881, ap_Left = 0\<rparr>"

definition tracker_result :: "world \<Rightarrow> announceParams \<Rightarrow> bytes \<Rightarrow> error + peer list" where
  "tracker_result w params tr =
     Announce (w_url w) (w_http w) (w_udp w) (fst (w_tx w tr)) (snd (w_tx w tr)) tr params"

text \<open>The loop over the results: failures are skipped, a panic ends the process.\<close>

fun gather :: "(error + peer list) list \<Rightarrow> error + peer list" where
  "gather [] = Inr []"
| "gather (r # rs) =
     (case gather rs of Inl e \<Rightarrow> Inl e
      | Inr qs \<Rightarrow>
          (case r of Inl e \<Rightarrow> if e = Panic then Inl Panic else Inr qs | Inr ps \<Rightarrow> Inr (ps @ qs)))"

definition discoverPeers :: "world \<Rightarrow> torrent \<Rightarrow> error + peer list" where
  "discoverPeers w t =
     (case gather (map (tracker_result w (announce_params t)) (w_arrival w (m_Trackers (t_Magnet t)))) of
        Inl e \<Rightarrow> Inl e
      | Inr allPeers \<Rightarrow>
          (let unique = dedupPeers [] allPeers in if unique = [] then Inl ErrNoPeers else Inr unique))"

definition BootstrapNodes :: "bytes list" where
  "BootstrapNodes = [str ''router.bittorrent.com:6881'', str ''router.utorrent.com:6881'',
     str ''dht.transmissionbt.com:6881'']"

text \<open>A failed bootstrap is ignored; the peers are those that arrive before the timeout.\<close>

definition discoverDHTPeers :: "world \<Rightarrow> torrent \<Rightarrow> error + peer list" where
  "discoverDHTPeers w t =
     (case Listen (w_listen w) (New_client (w_nodeID w) (w_secret w) (w_send_err w)) of
        (Some e, c) \<Rightarrow> Inr []
      | (None, c) \<Rightarrow>
          (case Bootstrap (w_iter w) (w_env w) BootstrapNodes c of
             (e, c1) \<Rightarrow>
               if e = Some Panic then Inl Panic
               else case GetPeers (w_iter w) (\<lambda>k. w_env w (length BootstrapNodes + k)) (w_busy w)
                           (m_InfoHash (t_Magnet t)) c1 of
                  (Inl e, c2) \<Rightarrow> Inl e
                | (Inr ps, c2) \<Rightarrow> Inr (take (w_received w) ps)))"

definition DiscoverAndFetchMetadata :: "world \<Rightarrow> torrent \<Rightarrow> error option \<times> torrent" where
  "DiscoverAndFetchMetadata w t =
     (case discoverPeers w t of Inl e \<Rightarrow> (Some e, t)
      | Inr peers \<Rightarrow>
          (case discoverDHTPeers w t of Inl e \<Rightarrow> (Some e, t)
           | Inr dhtPeers \<Rightarrow>
               (let allPeers = dedupPeers peers dhtPeers; t1 = t\<lparr>t_peers := allPeers\<rparr>
                in case fetchMetadata (map (\<lambda>p. w_dial w (Addr p)) (w_answers w allPeers))
                          (m_InfoHash (t_Magnet t)) (t_PeerID t) of
                     Inl e \<Rightarrow> (Some e, t1)
                   | Inr info \<Rightarrow> (None, t1\<lparr>t_Info := Some info\<rparr>))))"

section \<open>The program\<close>

text \<open>\<^verbatim>\<open>run\<close> up to the start of the download, in the working directory.\<close>

definition prepare :: "world \<Rightarrow> bytes list \<Rightarrow> bytes option \<Rightarrow> error + torrent" where
  "prepare w args cwd =
     (case args of [] \<Rightarrow> Inl ErrOther
      | uri # _ \<Rightarrow>
          (case Parse_magnet uri of Inl e \<Rightarrow> Inl e
           | Inr m \<Rightarrow>
               (case cwd of None \<Rightarrow> Inl ErrOther
                | Some dir \<Rightarrow>
                    (case DiscoverAndFetchMetadata w (New_torrent (w_random w) m dir) of
                       (Some e, t) \<Rightarrow> Inl e
                     | (None, t) \<Rightarrow> Inr t))))"

text \<open>\<^verbatim>\<open>Download\<close>: the states it can be in.\<close>

definition downloading :: "os \<Rightarrow> torrent \<Rightarrow> sys \<Rightarrow> bool" where
  "downloading d t s \<longleftrightarrow> (\<exists>info. t_Info t = Some info \<and>
     reachable info (m_InfoHash (t_Magnet t)) (t_PeerID t) (t_OutputDir t) d (t_peers t) s)"

section \<open>Peers that were found\<close>

lemma gather_Inr:
  "gather rs = Inr ps \<Longrightarrow> set ps = (\<Union>r\<in>set rs. case r of Inl e \<Rightarrow> {} | Inr qs \<Rightarrow> set qs)"
  by (induction rs arbitrary: ps) (auto split: sum.splits if_splits)

lemma dedup_addrs:
  "Addr ` set (dedupPeers existing new) = Addr ` set existing \<union> Addr ` set new \<and>
   set existing \<subseteq> set (dedupPeers existing new) \<and>
   (distinct (map Addr existing) \<longrightarrow> distinct (map Addr (dedupPeers existing new)))"
  using first_by_props [of Addr "Addr ` set existing" new] by (auto simp: dedupPeers_first_by)

text \<open>C15. The peers used are addressed each exactly once: every address a tracker gave that answered,
  and every one that the DHT delivered in time. At least one
  tracker gave a peer: without any, the program gives up before it asks the DHT.\<close>

theorem discovered_peers:
  assumes "DiscoverAndFetchMetadata w t = (None, t')"
  shows "\<exists>dht. discoverDHTPeers w t = Inr dht \<and> distinct (map Addr (t_peers t')) \<and>
    Addr ` set (t_peers t') = Addr ` (set dht \<union>
      (\<Union>tr\<in>set (w_arrival w (m_Trackers (t_Magnet t))).
         case tracker_result w (announce_params t) tr of Inl e \<Rightarrow> {} | Inr ps \<Rightarrow> set ps)) \<and>
    (\<exists>tr\<in>set (w_arrival w (m_Trackers (t_Magnet t))). \<exists>ps. tracker_result w (announce_params t) tr = Inr ps \<and> ps \<noteq> [])"
proof -
  let ?trs = "w_arrival w (m_Trackers (t_Magnet t))" and ?res = "tracker_result w (announce_params t)"
  obtain peers dht where p: "discoverPeers w t = Inr peers" "discoverDHTPeers w t = Inr dht"
    "t_peers t' = dedupPeers peers dht"
    using assms by (auto simp: DiscoverAndFetchMetadata_def Let_def split: sum.splits)
  obtain ps where ps: "gather (map ?res ?trs) = Inr ps" "peers = dedupPeers [] ps" "peers \<noteq> []"
    using p(1) by (auto simp: discoverPeers_def Let_def split: sum.splits if_splits)
  have all: "set ps = (\<Union>tr\<in>set ?trs. case ?res tr of Inl e \<Rightarrow> {} | Inr ps \<Rightarrow> set ps)"
    using gather_Inr [OF ps(1)] by simp
  have d1: "Addr ` set peers = Addr ` set ps" "distinct (map Addr peers)"
    using dedup_addrs [of "[]" ps] ps(2) by auto
  have d2: "Addr ` set (t_peers t') = Addr ` set peers \<union> Addr ` set dht" "distinct (map Addr (t_peers t'))"
    using dedup_addrs [of peers dht] p(3) d1(2) by auto
  have ne: "set ps \<noteq> {}" using d1(1) ps(3) by auto
  have "\<exists>tr\<in>set ?trs. \<exists>qs. ?res tr = Inr qs \<and> qs \<noteq> []"
  proof -
    obtain q where "q \<in> set ps" using ne by (metis all_not_in_conv)
    then obtain tr where "tr \<in> set ?trs" "q \<in> (case ?res tr of Inl e \<Rightarrow> {} | Inr ps \<Rightarrow> set ps)"
      unfolding all by blast
    then have "?res tr = Inr (projr (?res tr)) \<and> projr (?res tr) \<noteq> []" by (cases "?res tr") auto
    with \<open>tr \<in> set ?trs\<close> show ?thesis by blast
  qed
  moreover have "Addr ` set (t_peers t') = Addr ` (set dht \<union> set ps)"
    using d1(1) d2(1) by (simp only: image_Un Un_commute)
  ultimately show ?thesis using p(2) d2(2) unfolding all by (intro exI [of _ dht] conjI)
qed

section \<open>From the link to the disk\<close>

text \<open>From the magnet link to the files: the info hash of the link is the SHA-1 of an info
  dictionary, and a download of it that ends without an error has written data of which every piece
  has the hash that dictionary lists.\<close>

lemma magnet_to_disk:
  assumes "prepare w (uri # args) (Some dir) = Inr t" and "downloading d t s"
    and "sy_coll s = Finished None" and "\<not> crashed (sy_sh s)"
    and "\<And>info. t_Info t = Some info \<Longrightarrow> torrent_ok info dir d"
  shows "\<exists>m dict info whole. Parse_magnet uri = Inr m \<and> sha1 dict = m_InfoHash m \<and>
    ParseUnverified dict = Inr info \<and> t_Info t = Some info \<and> int (length whole) = TotalLength info \<and>
    (\<forall>i < length (i_Pieces info). sha1 (take (nat (PieceSize info (int i)))
       (drop (i * nat (i_PieceLength info)) whole)) = i_Pieces info ! i) \<and>
    (\<forall>(p, c)\<in>set (file_contents (fileList info dir) whole).
       c \<noteq> [] \<longrightarrow> dk (snd (sy_disk s)) p = Some c) \<and>
    (\<forall>p. p \<notin> fe_Path ` set (fileList info dir) \<longrightarrow> dk (snd (sy_disk s)) p = dk d p)"
proof -
  obtain m where m: "Parse_magnet uri = Inr m"
    "DiscoverAndFetchMetadata w (New_torrent (w_random w) m dir) = (None, t)"
    using assms(1) by (auto simp: prepare_def split: sum.splits prod.splits option.splits)
  obtain info ps where i: "t_Info t = Some info" "t_OutputDir t = dir" "t_Magnet t = m"
    "fetchMetadata ps (m_InfoHash m) (t_PeerID t) = Inr info"
    using m(2) by (auto simp: DiscoverAndFetchMetadata_def New_torrent_def Let_def split: sum.splits)
  obtain dict where dict: "sha1 dict = m_InfoHash m" "ParseUnverified dict = Inr info"
    using fetchMetadata_hash [OF i(4)] by blast
  have "reachable info (m_InfoHash m) (t_PeerID t) dir d (t_peers t) s"
    using assms(2) i by (simp add: downloading_def)
  from finished_download [OF this assms(5) [OF i(1)] assms(4,3)] m(1) i(1) dict show ?thesis by blast
qed

section \<open>A complete run\<close>

text \<open>One tracker, one peer that has the metadata and then the two pieces of the sample torrent.\<close>

definition dict_bytes :: bytes where
  "dict_bytes = enc (info_dict swarm_info)"

definition metadata_link :: "bytes \<Rightarrow> bytes \<Rightarrow> bytes" where
  "metadata_link ih raw = BuildHandshakeBytes ih (replicate 20 8) True @
     WriteMessage (ext_msg 3 (int (length raw))) @ WriteMessage (metadata_msg raw 0)"

definition sample_uri :: bytes where
  "sample_uri = str ''magnet:?'' @ join_with [38] (map (field_text escape)
     [(str ''xt'', str ''urn:btih:'' @ hex_encode (sha1 dict_bytes)), (str ''tr'', str ''http://t'')])"

definition sample_magnet :: magnet where
  "sample_magnet = \<lparr>m_InfoHash = sha1 dict_bytes, m_Name = [], m_Trackers = [str ''http://t'']\<rparr>"

definition sample_world :: world where
  "sample_world =
     \<lparr>w_url = (\<lambda>_. Some \<lparr>u_Scheme = str ''http'', u_Host = [], u_RawQuery = []\<rparr>),
      w_http = (\<lambda>_ _. Inr (enc (GMap [(str ''peers'', GString (peer_bytes swarm_peer))]))),
      w_udp = (\<lambda>_. None), w_tx = (\<lambda>_. (0, 0)), w_arrival = id, w_listen = False, w_nodeID = [], w_secret = [],
      w_send_err = (\<lambda>_. True), w_iter = map snd, w_env = (\<lambda>_. ([], [])), w_busy = (\<lambda>_. False), w_received = 0,
      w_answers = id, w_dial = (\<lambda>_. Some (metadata_link (sha1 dict_bytes) dict_bytes, 9)), w_random = []\<rparr>"

lemma fetch_from_holder:
  assumes "0 < length raw" and "length raw \<le> 16384" and "length ih = 20"
  shows "fetch_from_peer (Some (metadata_link ih raw, 9)) ih pid = Parse raw ih"
proof -
  obtain c where c: "Dial (Some (metadata_link ih raw, 9)) ih pid = Inr c" "SupportsExtension c" "sends_ok c = 8"
    "rx c = WriteMessage (ext_msg 3 (int (length raw))) @ WriteMessage (metadata_msg raw 0)"
    using Dial_handshake_run [of ih "replicate 20 8" True _ 8 pid] assms(3) by (simp add: metadata_link_def)
  have "supported (GMap [(str ''m'', GMap [(str ''ut_metadata'', GInt64 1)])])" by simp
  then obtain c' where c': "SendExtensionHandshake c = Inr c'" "rx c' = rx c" "sends_ok c' = 7"
    using c(3) enc_supported by (auto simp: SendExtensionHandshake_def Let_def flush_bytes_def)
  have "(int (length raw) + 16383) div 16384 = 1"
    using assms(1,2) by (intro int_div_pos_eq [where r = "int (length raw) - 1"]) simp_all
  then have "num_metadata_pieces (int (length raw)) = 1"
    using assms(1,2) by (simp add: num_metadata_pieces_eq max_alloc_def)
  then have "\<exists>c2. readMetadataFromPeer ih c' = (Parse raw ih, c2) \<and> rx c2 = []"
    using assms(1,2) c(4) c'(2,3) by (intro metadata_run [where k = 3 and order = "[0]"]) (auto simp: max_alloc_def)
  then show ?thesis using c(1,2) c'(1) by (auto simp: fetch_from_peer_def)
qed

lemma swarm_dict: "Parse dict_bytes (sha1 dict_bytes) = Inr swarm_info" "0 < length dict_bytes" "length dict_bytes \<le> 16384"
proof -
  have ok: "info_ok swarm_info" "val_ok (info_dict swarm_info)"
    by (simp_all add: swarm_info_def sample_info_def info_ok_def info_dict_def file_val_def str_def map_ok_Cons
        int64_ok_def max_alloc_def)
  show "Parse dict_bytes (sha1 dict_bytes) = Inr swarm_info"
    using Parse_info_dict [OF ok] by (auto simp: dict_bytes_def enc_def)
  show "0 < length dict_bytes" "length dict_bytes \<le> 16384"
    by (simp_all add: dict_bytes_def enc_def Encode_def info_dict_def swarm_info_def sample_info_def file_val_def
        encodeString_def str_def show_int_def show_nat.simps)
qed

lemma sample_link: "Parse_magnet sample_uri = Inr sample_magnet"
proof -
  let ?ps = "[(str ''xt'', str ''urn:btih:'' @ hex_encode (sha1 dict_bytes)), (str ''tr'', str ''http://t'')]"
  have "Parse_magnet sample_uri = Inr \<lparr>m_InfoHash = sha1 dict_bytes, m_Name = query_get (str ''dn'') ?ps,
      m_Trackers = query_all (str ''tr'') ?ps\<rparr>"
    unfolding sample_uri_def
    by (rule Parse_magnet_link [OF percent.query_parsed, of _ "hex_encode (sha1 dict_bytes)"])
      (simp_all add: query_get_def query_all_def parseInfoHash_def length_hex hex_roundtrip copy_same_length)
  also have "\<dots> = Inr sample_magnet"
    by (simp add: sample_magnet_def query_get_def query_all_def) (simp add: str_def)
  finally show ?thesis .
qed

lemma sample_tracker: "tracker_result sample_world params tr = Inr [swarm_peer]"
proof -
  have ip: "length (IP swarm_peer) = 4" by (simp add: swarm_peer_def)
  have "Decode (enc (GMap [(str ''peers'', GString (peer_bytes swarm_peer))])) =
      Inr (GMap [(str ''peers'', GString (peer_bytes swarm_peer))])"
    using Decode_enc [of "[(str ''peers'', GString (peer_bytes swarm_peer))]"] ip
    by (simp add: map_ok_Cons max_alloc_def peer_bytes_def)
  moreover have "str ''peers'' \<noteq> str ''failure reason''" by (simp add: str_def)
  ultimately have "parseHTTPResponse (enc (GMap [(str ''peers'', GString (peer_bytes swarm_peer))])) = Inr [swarm_peer]"
    using parse_compact [of "[swarm_peer]"] ip by (simp add: parseHTTPResponse_def parsePeers_def)
  then show ?thesis by (simp add: tracker_result_def sample_world_def Announce_def announceHTTP_def)
qed

abbreviation sample_torrent :: torrent where
  "sample_torrent \<equiv> New_torrent [] sample_magnet (str ''/d'')"

lemma sample_discover:
  "DiscoverAndFetchMetadata sample_world sample_torrent =
    (None, sample_torrent\<lparr>t_peers := [swarm_peer], t_Info := Some swarm_info\<rparr>)"
proof -
  have "w_arrival sample_world = id" "m_Trackers (t_Magnet sample_torrent) = [str ''http://t'']"
    by (simp_all add: New_torrent_def sample_magnet_def sample_world_def)
  then have "discoverPeers sample_world sample_torrent = Inr [swarm_peer]"
    by (simp add: discoverPeers_def sample_tracker dedupPeers_def)
  moreover have "discoverDHTPeers sample_world sample_torrent = Inr []"
    by (simp add: discoverDHTPeers_def sample_world_def Listen_def)
  moreover have "dedupPeers [swarm_peer] [] = [swarm_peer]" by (simp add: dedupPeers_def)
  moreover have "fetchMetadata (map (\<lambda>p. w_dial sample_world (Addr p)) (w_answers sample_world [swarm_peer]))
      (m_InfoHash (t_Magnet sample_torrent)) pid = Inr swarm_info" for pid
    using fetch_from_holder [OF swarm_dict(2,3)] swarm_dict(1)
    by (simp add: fetchMetadata_def sample_world_def New_torrent_def sample_magnet_def)
  ultimately show ?thesis by (simp add: DiscoverAndFetchMetadata_def Let_def)
qed

theorem discovered_peers_witness:
  "\<exists>t. DiscoverAndFetchMetadata sample_world sample_torrent = (None, t) \<and> distinct (map Addr (t_peers t)) \<and>
    Addr ` set (t_peers t) = {Addr swarm_peer}"
proof -
  have "discoverDHTPeers sample_world sample_torrent = Inr []"
    by (simp add: discoverDHTPeers_def sample_world_def Listen_def)
  moreover have "w_arrival sample_world (m_Trackers (t_Magnet sample_torrent)) = [str ''http://t'']"
    by (simp add: New_torrent_def sample_magnet_def sample_world_def)
  ultimately have "distinct (map Addr [swarm_peer]) \<and> Addr ` set [swarm_peer] = {Addr swarm_peer}"
    using discovered_peers [OF sample_discover] by (simp add: sample_tracker)
  then show ?thesis using sample_discover by simp
qed

end
