(* ===== verification/Floats.thy ===== *)
theory Floats
  imports Prelude "HOL-Library.Log_Nat"
begin

text \<open>
  The floating-point arithmetic of the figures the program displays. A \<^verbatim>\<open>float64\<close>
  is the rational number it stands for and an operation is the exact result rounded to 53
  significant bits, ties to even. There are no infinities and no subnormal numbers: the operands
  are counts, sizes and times, far from both. Printing with a fixed number of decimals rounds the
  exact value, ties to even, as \<^verbatim>\<open>strconv\<close> does.
\<close>

section \<open>Rounding to an integer\<close>

definition rne :: "rat \<Rightarrow> int" where
  "rne x = (let n = \<lfloor>x\<rfloor>; d = x - of_int n in if d < 1 / 2 \<or> (d = 1 / 2 \<and> even n) then n else n + 1)"

lemma rne_of_int [simp]: "rne (of_int n) = n"
  by (simp add: rne_def)

lemma rne_close: "\<bar>of_int (rne x) - x\<bar> \<le> 1 / 2"
proof -
  have "of_int \<lfloor>x\<rfloor> \<le> x" "x < of_int \<lfloor>x\<rfloor> + 1" by linarith+
  then show ?thesis by (auto simp: rne_def Let_def)
qed

lemma rne_mono: "x \<le> y \<Longrightarrow> rne x \<le> rne y"
proof -
  assume xy: "x \<le> y"
  have f: "\<lfloor>x\<rfloor> \<le> \<lfloor>y\<rfloor>" using xy by (rule floor_mono)
  have b: "\<lfloor>z\<rfloor> \<le> rne z \<and> rne z \<le> \<lfloor>z\<rfloor> + 1" for z by (simp add: rne_def Let_def)
  show ?thesis
  proof (cases "\<lfloor>x\<rfloor> = \<lfloor>y\<rfloor>")
    case True
    with xy show ?thesis by (auto simp: rne_def Let_def)
  next
    case False
    with f b [of x] b [of y] show ?thesis by linarith
  qed
qed

section \<open>Rounding to 53 bits\<close>

text \<open>The exponent of the leading bit of a positive number.\<close>

definition binade :: "rat \<Rightarrow> int" where
  "binade x =
     (let (a, b) = quotient_of x; k = bitlen a - bitlen b
      in if power_int 2 k \<le> x then k else k - 1)"

definition fl_pos :: "rat \<Rightarrow> rat" where
  "fl_pos x = of_int (rne (x * power_int 2 (52 - binade x))) * power_int 2 (binade x - 52)"

definition fl :: "rat \<Rightarrow> rat" where
  "fl x = (if x = 0 then 0 else if x < 0 then - fl_pos (- x) else fl_pos x)"

lemma bitlen_rat:
  assumes "0 < (a :: int)"
  shows "power_int 2 (bitlen a - 1) \<le> (of_int a :: rat)" and "(of_int a :: rat) < power_int 2 (bitlen a)"
proof -
  have l: "2 ^ nat (bitlen a - 1) \<le> a" "a < 2 ^ nat (bitlen a)" using bitlen_bounds [OF assms] by auto
  have "1 \<le> bitlen a" using assms by (simp add: bitlen_alt_def)
  moreover have "of_int (2 ^ nat (bitlen a - 1)) \<le> (of_int a :: rat)" "(of_int a :: rat) < of_int (2 ^ nat (bitlen a))"
    using l of_int_le_iff of_int_less_iff by blast+
  ultimately show "power_int 2 (bitlen a - 1) \<le> (of_int a :: rat)" "(of_int a :: rat) < power_int 2 (bitlen a)"
    by (simp_all add: power_int_def)
qed

lemma binade_bounds:
  assumes "0 < x"
  shows "power_int 2 (binade x) \<le> x" and "x < power_int 2 (binade x + 1)"
proof -
  obtain a b where q: "quotient_of x = (a, b)" by (rule prod.exhaust)
  then have x: "x = of_int a / of_int b" and b: "0 < b"
    by (simp_all add: quotient_of_div quotient_of_denom_pos)
  then have a: "0 < a" using assms by (simp add: zero_less_divide_iff)
  let ?k = "bitlen a - bitlen b"
  note A = bitlen_rat [OF a] and B = bitlen_rat [OF b]
  have bp: "(0 :: rat) < of_int b" using b by simp
  have "power_int 2 (?k - 1) * of_int b \<le> (power_int 2 (?k - 1) * power_int 2 (bitlen b) :: rat)"
    using B(2) by (intro mult_left_mono) auto
  also have "\<dots> = power_int 2 (bitlen a - 1)" by (simp flip: power_int_add)
  also have "\<dots> \<le> of_int a" by (rule A(1))
  finally have lo: "power_int 2 (?k - 1) \<le> x" using bp by (simp add: x pos_le_divide_eq)
  have "of_int a < (power_int 2 (bitlen a) :: rat)" by (rule A(2))
  also have "\<dots> = power_int 2 (?k + 1) * power_int 2 (bitlen b - 1)" by (simp flip: power_int_add)
  also have "\<dots> \<le> power_int 2 (?k + 1) * of_int b" using B(1) by (intro mult_left_mono) auto
  finally have hi: "x < power_int 2 (?k + 1)" using bp by (simp add: x pos_divide_less_eq)
  show "power_int 2 (binade x) \<le> x" "x < power_int 2 (binade x + 1)"
    using lo hi q by (auto simp: binade_def Let_def not_le)
qed

lemma binade_less: "0 < x \<Longrightarrow> x < power_int 2 k \<Longrightarrow> binade x < k"
proof (rule ccontr)
  assume x: "0 < x" "x < power_int 2 k" "\<not> binade x < k"
  then have "power_int 2 k \<le> (power_int 2 (binade x) :: rat)" by (intro power_int_increasing) auto
  with binade_bounds(1) [OF x(1)] x(2) show False by linarith
qed

lemma binade_mono: "0 < x \<Longrightarrow> x \<le> y \<Longrightarrow> binade x \<le> binade y"
  using binade_less [of x "binade y + 1"] binade_bounds(2) [of y] by linarith

text \<open>The significand is between 2 to the 52 and 2 to the 53.\<close>

lemma scaled_bounds:
  assumes "0 < x"
  shows "2 ^ 52 \<le> x * power_int 2 (52 - binade x)" and "x * power_int 2 (52 - binade x) < 2 ^ 53"
proof -
  let ?s = "power_int 2 (52 - binade x) :: rat"
  have s: "0 < ?s" by simp
  have "power_int 2 (binade x) * ?s \<le> x * ?s" using binade_bounds(1) [OF assms] s by (intro mult_right_mono) auto
  moreover have "power_int 2 (binade x) * ?s = 2 ^ 52" by (simp flip: power_int_add)
  ultimately show "2 ^ 52 \<le> x * ?s" by simp
  have "x * ?s < power_int 2 (binade x + 1) * ?s" using binade_bounds(2) [OF assms] s by (intro mult_strict_right_mono) auto
  moreover have "power_int 2 (binade x + 1) * ?s = 2 ^ 53" by (simp flip: power_int_add)
  ultimately show "x * ?s < 2 ^ 53" by simp
qed

lemma fl_pos_bounds:
  assumes "0 < x"
  shows "power_int 2 (binade x) \<le> fl_pos x" and "fl_pos x \<le> power_int 2 (binade x + 1)"
proof -
  let ?m = "rne (x * power_int 2 (52 - binade x))"
  have "rne (of_int (2 ^ 52)) \<le> ?m" "?m \<le> rne (of_int (2 ^ 53))"
    using scaled_bounds [OF assms] by (auto intro!: rne_mono)
  then have m: "of_int (2 ^ 52) \<le> (of_int ?m :: rat)" "(of_int ?m :: rat) \<le> of_int (2 ^ 53)"
    unfolding rne_of_int of_int_le_iff by auto
  have "(2 :: rat) ^ 52 * power_int 2 (binade x - 52) = power_int 2 (binade x)"
    "(2 :: rat) ^ 53 * power_int 2 (binade x - 52) = power_int 2 (binade x + 1)"
    using power_int_add [of "2 :: rat" 52 "binade x - 52"] power_int_add [of "2 :: rat" 53 "binade x - 52"]
    by (simp_all add: add.commute)
  then show "power_int 2 (binade x) \<le> fl_pos x" "fl_pos x \<le> power_int 2 (binade x + 1)"
    using mult_right_mono [OF m(1), of "power_int 2 (binade x - 52)"]
      mult_right_mono [OF m(2), of "power_int 2 (binade x - 52)"]
    by (simp_all add: fl_pos_def)
qed

lemma fl_pos_positive: "0 < x \<Longrightarrow> 0 < fl_pos x"
  using fl_pos_bounds(1) [of x] by (meson less_le_trans zero_less_numeral zero_less_power_int)

lemma fl_pos_mono:
  assumes "0 < x" and "x \<le> y"
  shows "fl_pos x \<le> fl_pos y"
proof (cases "binade x = binade y")
  case True
  have "x * power_int 2 (52 - binade x) \<le> y * power_int 2 (52 - binade x)" using assms(2) by (intro mult_right_mono) auto
  then have "of_int (rne (x * power_int 2 (52 - binade x))) \<le> (of_int (rne (y * power_int 2 (52 - binade x))) :: rat)"
    using rne_mono by simp
  then show ?thesis unfolding fl_pos_def True by (intro mult_right_mono) auto
next
  case False
  then have "binade x + 1 \<le> binade y" using binade_mono [OF assms] by linarith
  then have "power_int 2 (binade x + 1) \<le> (power_int 2 (binade y) :: rat)" by (intro power_int_increasing) auto
  with fl_pos_bounds(2) [OF assms(1)] fl_pos_bounds(1) [of y] assms show ?thesis by linarith
qed

lemma fl_pos_error:
  assumes "0 < x"
  shows "\<bar>fl_pos x - x\<bar> \<le> x / 2 ^ 53"
proof -
  let ?s = "power_int 2 (52 - binade x) :: rat" and ?r = "power_int 2 (binade x - 52) :: rat"
  have inv: "?s * ?r = 1" by (simp flip: power_int_add)
  have "fl_pos x - x = (of_int (rne (x * ?s)) - x * ?s) * ?r"
    by (simp add: fl_pos_def left_diff_distrib mult.assoc inv)
  then have "\<bar>fl_pos x - x\<bar> = \<bar>of_int (rne (x * ?s)) - x * ?s\<bar> * ?r" by (simp add: abs_mult)
  also have "\<dots> \<le> 1 / 2 * ?r" using rne_close [of "x * ?s"] by (intro mult_right_mono) auto
  also have "?r = power_int 2 (binade x) / 2 ^ 52"
    using power_int_diff [of "2 :: rat" "binade x" 52] by simp
  finally show ?thesis using binade_bounds(1) [OF assms] by simp
qed

text \<open>Numbers with at most 53 significant bits are not changed.\<close>

lemma fl_pos_exact:
  assumes "0 < m" and "m < 2 ^ 53"
  shows "fl_pos (of_int m * power_int 2 e) = of_int m * power_int 2 e"
proof -
  let ?x = "of_int m * power_int 2 e :: rat"
  have x: "0 < ?x" using assms(1) by simp
  have "of_int m < (2 ^ 53 :: rat)" using assms(2) of_int_less_iff [of m "2 ^ 53"] by simp
  then have "?x < 2 ^ 53 * power_int 2 e" by (intro mult_strict_right_mono) auto
  also have "\<dots> = power_int 2 (53 + e)" using power_int_add [of "2 :: rat" 53 e] by simp
  finally have b: "binade ?x < 53 + e" by (rule binade_less [OF x])
  let ?k = "nat (52 - binade ?x + e)"
  have "?x * power_int 2 (52 - binade ?x) = of_int (m * 2 ^ ?k)"
  proof -
    have "power_int 2 e * power_int 2 (52 - binade ?x) = (power_int 2 (int ?k) :: rat)"
      using b by (simp add: algebra_simps flip: power_int_add)
    moreover have "power_int 2 (int ?k) = (2 ^ ?k :: rat)" by (rule power_int_of_nat)
    ultimately show ?thesis by (simp only: of_int_mult of_int_power of_int_numeral mult.assoc)
  qed
  then have "fl_pos ?x = ?x * (power_int 2 (52 - binade ?x) * power_int 2 (binade ?x - 52))"
    unfolding fl_pos_def by (simp only: rne_of_int mult.assoc [symmetric])
  then show ?thesis by (simp flip: power_int_add)
qed

section \<open>The rounding function\<close>

lemma fl_0 [simp]: "fl 0 = 0"
  by (simp add: fl_def)

lemma fl_uminus: "fl (- x) = - fl x"
  by (simp add: fl_def)

lemma fl_nonneg: "0 \<le> x \<Longrightarrow> 0 \<le> fl x"
  using fl_pos_positive [of x] by (auto simp: fl_def)

lemma fl_positive: "0 < x \<Longrightarrow> 0 < fl x"
  by (simp add: fl_def fl_pos_positive)

lemma fl_mono: "x \<le> y \<Longrightarrow> fl x \<le> fl y"
  using fl_pos_mono [of x y] fl_pos_mono [of "- y" "- x"] fl_pos_positive [of "- x"] fl_pos_positive [of y]
  by (auto simp: fl_def)

lemma fl_error: "\<bar>fl x - x\<bar> \<le> \<bar>x\<bar> / 2 ^ 53"
  using fl_pos_error [of x] fl_pos_error [of "- x"] by (auto simp: fl_def abs_if split: if_splits)

lemma powi_pos: "\<not> power_int 2 e < (0 :: rat)"
  by (simp add: not_less)

lemma fl_exact: "\<bar>m\<bar> < 2 ^ 53 \<Longrightarrow> fl (of_int m * power_int 2 e) = of_int m * power_int 2 e"
proof -
  assume m: "\<bar>m\<bar> < 2 ^ 53"
  consider "m = 0" | "0 < m" | "m < 0" by linarith
  then show ?thesis
  proof cases
    case 2
    then show ?thesis using fl_pos_exact [of m e] m by (simp add: fl_def mult_less_0_iff powi_pos)
  next
    case 3
    then show ?thesis using fl_pos_exact [of "- m" e] m by (simp add: fl_def mult_less_0_iff zero_less_mult_iff powi_pos)
  qed simp
qed

lemma fl_of_int [simp]: "\<bar>m\<bar> < 2 ^ 53 \<Longrightarrow> fl (of_int m) = of_int m"
  using fl_exact [of m 0] by simp

text \<open>What is rounded has at most 53 bits, so scaling it by a power of two is exact.\<close>

lemma fl_pos_scale:
  assumes "0 < x"
  shows "fl_pos (fl_pos x * power_int 2 e) = fl_pos x * power_int 2 e"
proof -
  let ?m = "rne (x * power_int 2 (52 - binade x))" and ?k = "binade x - 52 + e"
  have "rne (of_int (2 ^ 52)) \<le> ?m" "?m \<le> rne (of_int (2 ^ 53))"
    using scaled_bounds [OF assms] by (auto intro!: rne_mono)
  then have m: "0 < ?m" "?m \<le> 2 ^ 53" unfolding rne_of_int by auto
  have f: "fl_pos x * power_int 2 e = of_int ?m * power_int 2 ?k"
    by (simp add: fl_pos_def mult.assoc flip: power_int_add)
  show ?thesis
  proof (cases "?m < 2 ^ 53")
    case True
    then show ?thesis unfolding f using m(1) by (rule fl_pos_exact [rotated])
  next
    case False
    then have m53: "?m = 2 ^ 53" using m(2) by simp
    have two: "power_int 2 (?k + 1) = power_int 2 ?k * (2 :: rat)" by (rule power_int_add_1) simp
    have "(of_int (2 ^ 53) :: rat) * power_int 2 ?k = of_int (2 ^ 52) * power_int 2 (?k + 1)"
      unfolding two by (simp only: of_int_power of_int_numeral) simp
    moreover have "fl_pos (of_int (2 ^ 52) * power_int 2 (?k + 1)) = of_int (2 ^ 52) * power_int 2 (?k + 1)"
      by (rule fl_pos_exact) simp_all
    ultimately show ?thesis unfolding f m53 by (simp only:)
  qed
qed

lemma fl_scale: "0 \<le> x \<Longrightarrow> fl (fl x * power_int 2 e) = fl x * power_int 2 e"
  using fl_pos_scale [of x e] fl_pos_positive [of x] by (auto simp: fl_def mult_less_0_iff powi_pos)

text \<open>Rounding does not cross a representable number.\<close>

lemma fl_le_exact: "x \<le> of_int m \<Longrightarrow> \<bar>m\<bar> < 2 ^ 53 \<Longrightarrow> fl x \<le> of_int m"
  using fl_mono [of x "of_int m"] by simp

lemma fl_ge_exact: "of_int m \<le> x \<Longrightarrow> \<bar>m\<bar> < 2 ^ 53 \<Longrightarrow> of_int m \<le> fl x"
  using fl_mono [of "of_int m" x] by simp

end
