(* ===== verification/Display.thy ===== *)
theory Display
  imports Floats Progress
begin

text \<open>
  \<^verbatim>\<open>display/display.go\<close> and the two figures of \<^verbatim>\<open>Stats\<close> only it
  reads: what is written to the terminal, as bytes. The terminal's width, the time elapsed and the
  moments at which the ticker fires are arguments.
\<close>

section \<open>The figures\<close>

text \<open>\<^verbatim>\<open>Progress\<close> and \<^verbatim>\<open>BytesPerSecond\<close>, the latter with the
  seconds since the start.\<close>

definition Progress_of :: "stats \<Rightarrow> rat" where
  "Progress_of st =
     (if TotalPieces st = 0 then 0
      else fl (fl (of_int (sint (Downloaded st))) / fl (of_int (sint (TotalPieces st)))))"

definition BytesPerSecond :: "rat \<Rightarrow> stats \<Rightarrow> rat" where
  "BytesPerSecond elapsed st = (if elapsed = 0 then 0 else fl (fl (of_int (DownloadedBytes st)) / elapsed))"

section \<open>Formatting\<close>

text \<open>\<^verbatim>\<open>fmt\<close> with \<^verbatim>\<open>%.<N>f\<close>, and the conversion of a floating-point
  number to an integer.\<close>

definition pad0 :: "nat \<Rightarrow> nat \<Rightarrow> bytes" where
  "pad0 N m = replicate (N - length (show_nat m)) 48 @ show_nat m"

definition fmt_fixed :: "nat \<Rightarrow> rat \<Rightarrow> bytes" where
  "fmt_fixed N x =
     (let n = nat (rne (\<bar>x\<bar> * 10 ^ N))
      in (if x < 0 then [45] else []) @ show_nat (n div 10 ^ N) @
         (if N = 0 then [] else 46 # pad0 N (n mod 10 ^ N)))"

definition trunc :: "rat \<Rightarrow> int" where
  "trunc x = (if x < 0 then - \<lfloor>- x\<rfloor> else \<lfloor>x\<rfloor>)"

definition TruncateName :: "bytes \<Rightarrow> int \<Rightarrow> error + bytes" where
  "TruncateName name maxLen =
     (if int (length name) \<le> maxLen then Inr name
      else if maxLen \<le> 3 then (if maxLen < 0 then Inl Panic else Inr (take (nat maxLen) name))
      else Inr (take (nat (maxLen - 3)) name @ str ''...''))"

definition FormatBytes :: "int \<Rightarrow> bytes" where
  "FormatBytes b =
     (if b \<ge> 2 ^ 30 then fmt_fixed 2 (fl (fl (of_int b) / 2 ^ 30)) @ str '' GB''
      else if b \<ge> 2 ^ 20 then fmt_fixed 2 (fl (fl (of_int b) / 2 ^ 20)) @ str '' MB''
      else if b \<ge> 2 ^ 10 then fmt_fixed 2 (fl (fl (of_int b) / 2 ^ 10)) @ str '' KB''
      else show_int b @ str '' B'')"

definition FormatSpeed :: "rat \<Rightarrow> bytes" where
  "FormatSpeed bps =
     (if bps \<ge> 2 ^ 20 then fmt_fixed 1 (fl (bps / 2 ^ 20)) @ str '' MB/s''
      else if bps \<ge> 2 ^ 10 then fmt_fixed 1 (fl (bps / 2 ^ 10)) @ str '' KB/s''
      else fmt_fixed 0 bps @ str '' B/s'')"

text \<open>The seconds left, and their text; they are far below what an integer holds.\<close>

definition eta_seconds :: "rat \<Rightarrow> rat \<Rightarrow> int \<Rightarrow> rat" where
  "eta_seconds progress bps totalBytes =
     (let downloaded = fl (progress * fl (of_int totalBytes));
          remaining = fl (fl (of_int totalBytes) - downloaded)
      in fl (remaining / bps))"

definition FormatETA :: "rat \<Rightarrow> rat \<Rightarrow> int \<Rightarrow> bytes" where
  "FormatETA progress bps totalBytes =
     (if bps \<le> 0 \<or> progress \<le> 0 then str ''--:--''
      else if progress \<ge> 1 then str ''done''
      else
        let seconds = eta_seconds progress bps totalBytes; t = trunc seconds
        in if seconds < 60 then show_int t @ str ''s''
           else if seconds < 3600 then show_int (t div 60) @ str ''m'' @ show_int (t mod 60) @ str ''s''
           else show_int (t div 3600) @ str ''h'' @ show_int (t mod 3600 div 60) @ str ''m'')"

section \<open>The line\<close>

definition bar_filled :: "rat \<Rightarrow> int \<Rightarrow> int" where
  "bar_filled progress width =
     (let filled = trunc (fl (progress * fl (of_int width)));
          filled = (if filled > width then width else filled)
      in if filled < 0 then 0 else filled)"

text \<open>\<^verbatim>\<open>strings.Repeat\<close> panics for a negative count.\<close>

definition progressBar :: "rat \<Rightarrow> int \<Rightarrow> error + bytes" where
  "progressBar progress width =
     (let filled = bar_filled progress width; empty = width - filled
      in if empty < 0 then Inl Panic
         else Inr ([91] @ replicate (nat filled) 35 @ replicate (nat empty) 45 @ [93]))"

definition termWidth :: "16 word option \<Rightarrow> int" where
  "termWidth col = (case col of None \<Rightarrow> 80 | Some c \<Rightarrow> if c = 0 then 80 else uint c)"

text \<open>What one rendering reads: progress, speed, the counts, and the terminal's columns if known.\<close>

record snapshot =
  sn_progress :: rat
  sn_bps :: rat
  sn_stats :: "int \<times> int \<times> int \<times> int"
  sn_cols :: "16 word option"

definition stats_text :: "snapshot \<Rightarrow> bytes" where
  "stats_text sn =
     (case sn_stats sn of (downloaded, pieces, totalBytes, peers) \<Rightarrow>
        [32] @ fmt_fixed 1 (fl (sn_progress sn * 100)) @ str ''% '' @ show_int downloaded @ str ''/'' @
        show_int pieces @ [32] @ FormatSpeed (sn_bps sn) @ [32] @ show_int peers @ str ''p '' @
        FormatETA (sn_progress sn) (sn_bps sn) totalBytes)"

definition clear_line :: bytes where
  "clear_line = [27, 91, 50, 75, 13]"

definition render :: "bytes \<Rightarrow> snapshot \<Rightarrow> error + bytes" where
  "render name0 sn =
     (case TruncateName name0 30 of Inl e \<Rightarrow> Inl e
      | Inr name \<Rightarrow>
          (let stats = stats_text sn;
               w = termWidth (sn_cols sn) - int (length name) - int (length stats) - 3;
               barWidth = (if w < 10 then 10 else w)
           in case progressBar (sn_progress sn) barWidth of Inl e \<Rightarrow> Inl e
              | Inr bar \<Rightarrow> Inr (clear_line @ name @ [32] @ bar @ stats)))"

text \<open>The loop of \<^verbatim>\<open>Start\<close>: a rendering for each tick, and one after
  \<^verbatim>\<open>Stop\<close>, with the end of the line.\<close>

fun display_loop :: "bytes \<Rightarrow> snapshot list \<Rightarrow> snapshot \<Rightarrow> error + bytes" where
  "display_loop name [] final = (case render name final of Inl e \<Rightarrow> Inl e | Inr b \<Rightarrow> Inr (b @ [10]))"
| "display_loop name (sn # sns) final =
     (case render name sn of Inl e \<Rightarrow> Inl e
      | Inr b \<Rightarrow> (case display_loop name sns final of Inl e \<Rightarrow> Inl e | Inr bs \<Rightarrow> Inr (b @ bs)))"

text \<open>What the provider, the \<^verbatim>\<open>Stats\<close> of the torrent, gives it: the download goes on
  between one figure and the next, so each is read in a state of its own.\<close>

definition look :: "rat \<Rightarrow> 16 word option \<Rightarrow> sys \<Rightarrow> sys \<Rightarrow> sys \<Rightarrow> sys \<Rightarrow> snapshot" where
  "look elapsed cols s1 s2 s3 s4 =
     \<lparr>sn_progress = Progress_of (sy_stats s1), sn_bps = BytesPerSecond elapsed (sy_stats s2),
      sn_stats = GetStats s3 s4, sn_cols = cols\<rparr>"

section \<open>The bar\<close>

lemma trunc_nonneg: "0 \<le> x \<Longrightarrow> trunc x = \<lfloor>x\<rfloor>"
  by (simp add: trunc_def)

lemma bar_filled_range: "0 \<le> w \<Longrightarrow> 0 \<le> bar_filled p w \<and> bar_filled p w \<le> w"
  by (simp add: bar_filled_def Let_def)

lemma progressBar_shape:
  assumes "0 \<le> w"
  shows "progressBar p w = Inr ([91] @ replicate (nat (bar_filled p w)) 35 @ replicate (nat (w - bar_filled p w)) 45 @ [93])"
  using bar_filled_range [OF assms, of p] by (simp add: progressBar_def Let_def)

lemma progressBar_length:
  assumes "0 \<le> w"
  obtains bar where "progressBar p w = Inr bar" and "int (length bar) = w + 2"
  using bar_filled_range [OF assms, of p] progressBar_shape [OF assms, of p] by simp

text \<open>
  The fraction \<open>d / n\<close> of a bar of \<open>w\<close> cells, as the two roundings leave it: never a
  cell too many, and at most one too few.
\<close>

lemma fl_quotient:
  assumes "0 \<le> d" and "d \<le> n" and "0 < n" and "n < 2 ^ 31"
  shows "0 \<le> fl (of_int d / of_int n)" and "fl (of_int d / of_int n) \<le> 1"
    and "\<bar>fl (of_int d / of_int n) - of_int d / of_int n\<bar> \<le> 1 / 2 ^ 53"
proof -
  let ?x = "of_int d / of_int n :: rat"
  have x: "0 \<le> ?x" "?x \<le> 1" using assms by simp_all
  show "0 \<le> fl ?x" using x by (intro fl_nonneg)
  show "fl ?x \<le> 1" using fl_le_exact [of ?x 1] x by simp
  have "\<bar>?x\<bar> / 2 ^ 53 \<le> 1 / (2 ^ 53 :: rat)" using x by (intro divide_right_mono) auto
  then show "\<bar>fl ?x - ?x\<bar> \<le> 1 / 2 ^ 53" using fl_error [of ?x] by linarith
qed

lemma bar_filled_fraction:
  fixes d n w :: int
  assumes "0 \<le> d" and "d \<le> n" and "0 < n" and "n < 2 ^ 31" and "0 \<le> w" and "w \<le> 2 ^ 16"
  defines "k \<equiv> bar_filled (fl (of_int d / of_int n)) w"
  shows "k * n \<le> w * d \<and> w * d \<le> (k + 1) * n \<and> 0 \<le> k \<and> k \<le> w \<and> (k = w \<longleftrightarrow> w = 0 \<or> d = n)"
proof -
  let ?p = "fl (of_int d / of_int n)"
  let ?q = "fl (?p * of_int w)"
  have w: "fl (of_int w) = of_int w" using assms(5,6) by simp
  have w': "0 \<le> (of_int w :: rat)" "(of_int w :: rat) \<le> 2 ^ 16"
    using assms(5,6) of_int_le_iff [of w "2 ^ 16"] by auto
  note p = fl_quotient [OF assms(1-4)]
  have pw: "0 \<le> ?p * of_int w" "?p * of_int w \<le> of_int w"
    using p w' mult_right_mono [of ?p 1 "of_int w"] by auto
  have q: "0 \<le> ?q" "?q \<le> of_int w"
    using fl_nonneg [OF pw(1)] fl_le_exact [OF pw(2)] assms(5,6) by auto
  have "\<lfloor>?q\<rfloor> \<le> w" using floor_mono [OF q(2)] by simp
  then have k: "k = \<lfloor>?q\<rfloor>"
    using q(1) by (simp add: k_def bar_filled_def Let_def w trunc_nonneg)
  have "\<bar>?q - ?p * of_int w\<bar> \<le> 2 ^ 16 / 2 ^ 53"
  proof -
    have "\<bar>?p * of_int w\<bar> / 2 ^ 53 \<le> 2 ^ 16 / (2 ^ 53 :: rat)" using pw w' by (intro divide_right_mono) auto
    then show ?thesis using fl_error [of "?p * of_int w"] by linarith
  qed
  moreover have "\<bar>?p * of_int w - of_int (d * w) / of_int n\<bar> \<le> 2 ^ 16 / 2 ^ 53"
  proof -
    have "\<bar>?p - of_int d / of_int n\<bar> * of_int w \<le> 1 / 2 ^ 53 * 2 ^ 16"
      using p(3) w' by (intro mult_mono) auto
    moreover have "\<bar>?p * of_int w - of_int d / of_int n * of_int w\<bar> = \<bar>?p - of_int d / of_int n\<bar> * of_int w"
      using w' by (simp only: left_diff_distrib [symmetric] abs_mult abs_of_nonneg)
    ultimately show ?thesis by simp
  qed
  ultimately have "\<bar>?q - of_int (d * w) / of_int n\<bar> \<le> 2 ^ 16 / 2 ^ 53 + 2 ^ 16 / 2 ^ 53" by linarith
  then have err: "\<bar>?q - of_int (d * w) / of_int n\<bar> \<le> 1 / 2 ^ 36" by simp
  have n: "0 < (of_int n :: rat)" "(of_int n :: rat) < 2 ^ 31"
    using assms(3,4) of_int_less_iff [of n "2 ^ 31"] by auto
  have close: "\<bar>?q * of_int n - of_int (d * w)\<bar> < 1"
  proof -
    have "?q * of_int n - of_int (d * w) = (?q - of_int (d * w) / of_int n) * of_int n"
      using n by (simp add: left_diff_distrib)
    then have "\<bar>?q * of_int n - of_int (d * w)\<bar> = \<bar>?q - of_int (d * w) / of_int n\<bar> * of_int n"
      using n by (simp add: abs_mult)
    also have "\<dots> \<le> 1 / 2 ^ 36 * 2 ^ 31" using err n by (intro mult_mono) auto
    finally show ?thesis by simp
  qed
  have "of_int k * of_int n \<le> ?q * of_int n" "?q * of_int n < (of_int k + 1) * of_int n"
    using n unfolding k by (auto intro!: mult_right_mono mult_strict_right_mono) linarith
  with close have "of_int (k * n) < (of_int (d * w + 1) :: rat)" "(of_int (d * w) :: rat) < of_int ((k + 1) * n + 1)"
    by (auto simp: abs_less_iff)
  then have "k * n < d * w + 1" "d * w < (k + 1) * n + 1" unfolding of_int_less_iff by auto
  then have kn: "k * n \<le> w * d" "w * d \<le> (k + 1) * n" by (simp_all add: mult.commute)
  have "0 \<le> k" "k \<le> w" using bar_filled_range [OF assms(5)] by (simp_all add: k_def)
  moreover have "k = w" if "d = n"
  proof -
    have "?p = 1" using that n fl_of_int [of 1] by simp
    then show ?thesis using w by (simp add: k)
  qed
  moreover have "d = n" if "k = w" "w \<noteq> 0"
    using kn(1) that assms(2,5) by (simp add: mult_le_cancel_left)
  ultimately show ?thesis using kn by auto
qed

section \<open>The line fills the terminal\<close>

lemma TruncateName_30: "\<exists>n. TruncateName name 30 = Inr n \<and> length n = min (length name) 30"
  by (simp add: TruncateName_def str_def)

lemma render_line:
  "\<exists>line. render name sn = Inr (clear_line @ line) \<and>
    int (length line) = max (termWidth (sn_cols sn)) (int (min (length name) 30) + int (length (stats_text sn)) + 13)"
proof -
  obtain n where n: "TruncateName name 30 = Inr n" "length n = min (length name) 30" using TruncateName_30 by blast
  let ?w = "termWidth (sn_cols sn) - int (length n) - int (length (stats_text sn)) - 3"
  obtain bar where "progressBar (sn_progress sn) (if ?w < 10 then 10 else ?w) = Inr bar"
    "int (length bar) = (if ?w < 10 then 10 else ?w) + 2"
    by (rule progressBar_length [of "if ?w < 10 then 10 else ?w"]) (auto split: if_splits)
  then show ?thesis using n by (auto simp: render_def Let_def max_def split: if_splits)
qed

lemma display_ends: "\<exists>out. display_loop name sns final = Inr (out @ [10])"
proof (induction sns)
  case Nil
  then show ?case using render_line [of name final] by auto
next
  case (Cons sn sns)
  then show ?case using render_line [of name sn] by (auto simp flip: append_assoc)
qed

text \<open>C33. A rendering never fails, whatever the figures are: it clears the line and writes one that
  is as wide as the terminal, or wider where the name, cut to 30 bytes, and the figures leave less
  than the smallest bar. So the display, started and stopped, writes its lines and ends with a new
  line.\<close>

theorem display_line:
  "(\<exists>line. render name sn = Inr (clear_line @ line) \<and>
     int (length line) = max (termWidth (sn_cols sn)) (int (min (length name) 30) + int (length (stats_text sn)) + 13)) \<and>
   (\<exists>out. display_loop name sns final = Inr (out @ [10]))"
  using render_line display_ends by blast

section \<open>The display tells the truth\<close>

lemma eta_done:
  "FormatETA p bps n = str ''done'' \<longleftrightarrow> 0 < bps \<and> 1 \<le> p"
proof -
  have h: "show_int t @ r \<noteq> str ''done''" for t r
    using show_nat_Cons [of "nat t"] show_nat_Cons [of "nat (- t)"]
    by (auto simp: show_int_def str_def is_digit_def split: if_splits)
  show ?thesis
    by (auto simp: FormatETA_def Let_def h not_le) (auto simp: str_def)
qed

lemma progress_shown:
  assumes "0 \<le> n" and "n \<le> N" and "0 < N" and "N < 2 ^ 31"
    and "sint (Downloaded st) = n" and "sint (TotalPieces st) = N" and "10 \<le> w" and "w \<le> 2 ^ 16"
  shows "bar_filled (Progress_of st) w * N \<le> w * n \<and> w * n \<le> (bar_filled (Progress_of st) w + 1) * N \<and>
    0 \<le> bar_filled (Progress_of st) w \<and> bar_filled (Progress_of st) w \<le> w \<and>
    (bar_filled (Progress_of st) w = w \<longleftrightarrow> n = N) \<and> (1 \<le> Progress_of st \<longleftrightarrow> n = N)"
proof -
  have "TotalPieces st \<noteq> 0" using assms(3,6) by auto
  then have p: "Progress_of st = fl (of_int n / of_int N)" using assms(1-6) by (simp add: Progress_of_def)
  have K: "bar_filled (Progress_of st) w * N \<le> w * n" "w * n \<le> (bar_filled (Progress_of st) w + 1) * N"
    "0 \<le> bar_filled (Progress_of st) w" "bar_filled (Progress_of st) w \<le> w"
    "bar_filled (Progress_of st) w = w \<longleftrightarrow> n = N"
    using bar_filled_fraction [of n N w] assms by (simp_all add: p)
  have "1 \<le> Progress_of st \<longleftrightarrow> n = N"
  proof
    assume "1 \<le> Progress_of st"
    then have "Progress_of st = 1" using fl_quotient(2) [of n N] assms(1-4) unfolding p by simp
    then have "bar_filled (Progress_of st) w = w" using assms(7,8) by (simp add: bar_filled_def trunc_nonneg)
    with K(5) show "n = N" by simp
  next
    assume "n = N"
    then show "1 \<le> Progress_of st" using assms(3) fl_of_int [of 1] by (simp add: p)
  qed
  with K show ?thesis by blast
qed

text \<open>C10. What the display shows is true at every moment of a download of a torrent with consistent
  lengths, distinct paths and files not there before. It reads the progress, the speed, the count
  and the peers one after the other, each in a state of its own. The filled part of the bar is the
  share of \<open>n\<close> pieces, never a cell too many and less than two too few, and full only when
  \<open>n\<close> is all of them; until a write fails \<open>n\<close> is the number of pieces written to disk with
  their hash when the progress is read, but for the one just written and not counted yet, and
  afterwards that of the pieces written before. The printed count is that of the moment it is read.
  The time is given as done exactly when all pieces are there and some bytes are counted, and in the
  last line of a download that succeeded it is, with a full bar.\<close>

theorem display_truth:
  fixes cols :: "16 word option"
  assumes "list_all (\<lambda>s. reachable info infoHash peerID base d peers s \<and> \<not> crashed (sy_sh s)) [s1, s2, s3, s4]"
    and "torrent_ok info base d" and "0 < NumPieces info" and "NumPieces info < 2 ^ 31"
    and "0 < elapsed" and "10 \<le> w" and "w \<le> 2 ^ 16"
  defines "sn \<equiv> look elapsed cols s1 s2 s3 s4"
  shows "\<exists>n k. progressBar (sn_progress sn) w = Inr ([91] @ replicate (nat k) 35 @ replicate (nat (w - k)) 45 @ [93]) \<and>
    0 \<le> k \<and> k \<le> w \<and> k * NumPieces info \<le> w * n \<and> w * n \<le> (k + 1) * NumPieces info \<and>
    (k = w \<longleftrightarrow> n = NumPieces info) \<and>
    (\<not> failed s1 \<longrightarrow> n = int (card (written s1 - uncounted (sy_coll s1))) \<and> uncounted (sy_coll s1) \<subseteq> written s1 \<and>
       written s1 \<subseteq> {0..<NumPieces info} \<and> (\<forall>i\<in>written s1. piece_on_disk info (sy_disk s1) i)) \<and>
    (failed s1 \<longrightarrow> (\<exists>D i. D \<subseteq> flagged s1 \<and> flagged s1 \<subseteq> insert i D \<and> n = int (card D))) \<and>
    (\<not> failed s3 \<longrightarrow> sn_stats sn = (int (card (written s3 - uncounted (sy_coll s3))), NumPieces info, TotalLength info,
       sint (of_nat (sessions s4) :: 32 word))) \<and>
    (FormatETA (sn_progress sn) (sn_bps sn) (TotalLength info) = str ''done'' \<longleftrightarrow>
       n = NumPieces info \<and> 0 < DownloadedBytes (sy_stats s2)) \<and>
    (sy_coll s1 = Finished None \<and> sy_coll s2 = Finished None \<longrightarrow>
       k = w \<and> FormatETA (sn_progress sn) (sn_bps sn) (TotalLength info) = str ''done'')"
proof -
  let ?N = "NumPieces info"
  have R: "reachable info infoHash peerID base d peers s1" "\<not> crashed (sy_sh s1)" "reachable info infoHash peerID base d peers s2"
    "\<not> crashed (sy_sh s2)" "reachable info infoHash peerID base d peers s3" "\<not> crashed (sy_sh s3)"
    "reachable info infoHash peerID base d peers s4" "\<not> crashed (sy_sh s4)"
    using assms(1) by simp_all
  obtain D where D: "accounts info s1 D" "D \<subseteq> {0..<?N}" "unsummed (sy_coll s1) \<subseteq> D"
    "sint (Downloaded (sy_stats s1)) = int (card (D - uncounted (sy_coll s1)))"
    "sint (TotalPieces (sy_stats s1)) = ?N"
    "\<not> failed s1 \<longrightarrow> (\<forall>i\<in>D. piece_on_disk info (sy_disk s1) i)"
    "sy_coll s1 = Finished None \<longrightarrow> D = {0..<?N}"
    using progress_facts [OF R(1) assms(2) R(2) assms(4)] by (elim exE conjE)
  define n where "n = int (card (D - uncounted (sy_coll s1)))"
  let ?k = "bar_filled (sn_progress sn) w"
  have sub: "uncounted (sy_coll s1) \<subseteq> D" using D(3) by (cases "sy_coll s1") simp_all
  have "card (D - uncounted (sy_coll s1)) \<le> card {0..<?N}" using D(2) by (intro card_mono) auto
  then have n: "0 \<le> n" "n \<le> ?N" using assms(3) by (simp_all add: n_def)
  have sn: "sn_progress sn = Progress_of (sy_stats s1)" "sn_bps sn = BytesPerSecond elapsed (sy_stats s2)"
    "sn_stats sn = GetStats s3 s4"
    by (simp_all add: sn_def look_def)
  note P = progress_shown [OF n assms(3,4) D(4) [folded n_def] D(5) assms(6,7), folded sn(1)]
  have exact: "D = written s1" if "\<not> failed s1" using D(1) that by (simp add: accounts_def)
  have fail: "\<exists>D i. D \<subseteq> flagged s1 \<and> flagged s1 \<subseteq> insert i D \<and> n = int (card D)" if "failed s1"
  proof -
    have "uncounted (sy_coll s1) = {}" using that by (auto simp: failed_def)
    then have "n = int (card D)" by (simp add: n_def)
    moreover obtain i where "D \<subseteq> flagged s1" "flagged s1 \<subseteq> insert i D" using D(1) by (auto simp: accounts_def)
    ultimately show ?thesis by blast
  qed
  have bps: "0 < sn_bps sn \<longleftrightarrow> 0 < DownloadedBytes (sy_stats s2)"
  proof -
    have "0 < fl (of_int b) \<longleftrightarrow> 0 < b" for b :: int
      using fl_positive [of "of_int b"] fl_nonneg [of "- of_int b"] fl_uminus [of "of_int b"] by (cases "0 < b") auto
    moreover have "0 < fl (x / elapsed) \<longleftrightarrow> 0 < x" for x
      using assms(5) fl_positive [of "x / elapsed"] fl_nonneg [of "- (x / elapsed)"] fl_uminus [of "x / elapsed"]
      by (cases "0 < x") (auto simp: divide_nonpos_pos)
    ultimately show ?thesis using assms(5) by (simp add: sn(2) BytesPerSecond_def)
  qed
  have eta: "FormatETA (sn_progress sn) (sn_bps sn) (TotalLength info) = str ''done'' \<longleftrightarrow>
      n = ?N \<and> 0 < DownloadedBytes (sy_stats s2)"
    using P bps by (auto simp: eta_done)
  have all: "0 < DownloadedBytes (sy_stats s2)" if "sy_coll s2 = Finished None"
  proof -
    obtain E where E0: "accounts info s2 E" "sy_coll s2 = Finished None \<longrightarrow> E = {0..<?N}"
      using progress_facts [OF R(3) assms(2) R(4) assms(4)] by (elim exE conjE)
    then have E: "accounts info s2 E" "E = {0..<?N}" using that by simp_all
    have "layout_ok info" using assms(2) by (simp add: torrent_ok_def)
    then have "0 < (\<Sum>i\<in>E. PieceSize info i)"
      using E(2) assms(3) PieceSize_layout(3) by (intro sum_pos) auto
    then show ?thesis using E(1) that by (simp add: accounts_def)
  qed
  have whole: "n = ?N" if "sy_coll s1 = Finished None" using D(7) that assms(3) by (simp add: n_def)
  have st: "sn_stats sn = (int (card (written s3 - uncounted (sy_coll s3))), ?N, TotalLength info,
      sint (of_nat (sessions s4) :: 32 word))" if "\<not> failed s3"
    using progress_figures [OF R(5) assms(2) R(6) assms(4) R(7,8)] that by (simp add: sn(3))
  have exact': "\<not> failed s1 \<longrightarrow> n = int (card (written s1 - uncounted (sy_coll s1))) \<and> uncounted (sy_coll s1) \<subseteq> written s1 \<and>
      written s1 \<subseteq> {0..<?N} \<and> (\<forall>i\<in>written s1. piece_on_disk info (sy_disk s1) i)"
  proof
    assume f: "\<not> failed s1"
    show "n = int (card (written s1 - uncounted (sy_coll s1))) \<and> uncounted (sy_coll s1) \<subseteq> written s1 \<and>
      written s1 \<subseteq> {0..<?N} \<and> (\<forall>i\<in>written s1. piece_on_disk info (sy_disk s1) i)"
      using sub D(2,6) f unfolding n_def exact [OF f] by blast
  qed
  have last: "sy_coll s1 = Finished None \<and> sy_coll s2 = Finished None \<longrightarrow>
      ?k = w \<and> FormatETA (sn_progress sn) (sn_bps sn) (TotalLength info) = str ''done''"
    unfolding eta using P whole all by blast
  have bar: "progressBar (sn_progress sn) w = Inr ([91] @ replicate (nat ?k) 35 @ replicate (nat (w - ?k)) 45 @ [93])"
    using assms(6) by (intro progressBar_shape) simp
  note P' = P [THEN conjunct1] P [THEN conjunct2, THEN conjunct1] P [THEN conjunct2, THEN conjunct2, THEN conjunct1]
    P [THEN conjunct2, THEN conjunct2, THEN conjunct2, THEN conjunct1]
    P [THEN conjunct2, THEN conjunct2, THEN conjunct2, THEN conjunct2, THEN conjunct1]
  show ?thesis
    by (rule exI [of _ n], rule exI [of _ ?k]) (use bar P' exact' fail st eta last in \<open>intro conjI impI; (assumption | blast)\<close>)
qed

theorem display_truth_witness:
  "\<exists>t. swarm_reach swarm_hash (replicate 20 9) t \<and> sy_coll t = Finished None \<and>
    progressBar (sn_progress (look 3 None t t t t)) 10 = Inr ([91] @ replicate 10 35 @ [93]) \<and>
    FormatETA (sn_progress (look 3 None t t t t)) (sn_bps (look 3 None t t t t)) (TotalLength swarm_info) = str ''done''"
proof -
  obtain t where t: "swarm_reach swarm_hash (replicate 20 9) t" "\<not> crashed (sy_sh t)" "sy_coll t = Finished None"
    using swarm_run [of swarm_hash "replicate 20 9"] by (auto simp: swarm_hash_def)
  have n: "0 < NumPieces swarm_info" "NumPieces swarm_info < 2 ^ 31" "(0 :: rat) < 3" by (simp_all add: swarm_facts)
  have all: "list_all (\<lambda>s. reachable swarm_info swarm_hash (replicate 20 9) (str ''/d'') sample_os [swarm_peer] s \<and>
      \<not> crashed (sy_sh s)) [t, t, t, t]"
    using run_reachable [OF t(1)] t(2) by simp
  have w: "(10 :: int) \<le> 10" "(10 :: int) \<le> 2 ^ 16" by simp_all
  from display_truth [OF all swarm_ok n w, where cols = None]
  obtain k where "progressBar (sn_progress (look 3 None t t t t)) 10 = Inr ([91] @ replicate (nat k) 35 @ replicate (nat (10 - k)) 45 @ [93])"
    "k = 10" "FormatETA (sn_progress (look 3 None t t t t)) (sn_bps (look 3 None t t t t)) (TotalLength swarm_info) = str ''done''"
    using t(3) by (elim exE conjE) blast
  then show ?thesis using t by auto
qed

section \<open>Sizes\<close>

lemma length_show_small: "m < 100 \<Longrightarrow> length (show_nat m) \<le> 2"
  using show_nat_length [of m 1] by simp

lemma fmt_fixed_2:
  assumes "0 \<le> x"
  shows "\<exists>q r. fmt_fixed 2 x = show_nat q @ 46 # pad0 2 r \<and> r < 100 \<and> length (pad0 2 r) = 2 \<and>
    \<bar>of_nat (100 * q + r) - 100 * x\<bar> \<le> 1 / 2"
proof -
  let ?n = "nat (rne (x * 100))"
  have "0 \<le> rne (x * 100)" using rne_mono [of "of_int 0" "x * 100"] assms by (simp only: rne_of_int)
  then have "\<bar>of_nat ?n - 100 * x\<bar> \<le> 1 / 2" using rne_close [of "x * 100"] by (simp add: mult.commute)
  moreover have "100 * (?n div 100) + ?n mod 100 = ?n" by simp
  moreover have "length (pad0 2 (?n mod 100)) = 2" using length_show_small [of "?n mod 100"] by (simp add: pad0_def)
  ultimately show ?thesis using assms
    by (intro exI [of _ "?n div 100"] exI [of _ "?n mod 100"]) (simp add: fmt_fixed_def Let_def)
qed

text \<open>C32. Every size of 64 bits is shown right. Below a kilobyte it is the number of bytes itself,
  negative numbers included. From there on it is shown in the largest unit it reaches, with two
  decimals: up to 2^53 bytes these are the exact value rounded to the nearest hundredth of the unit;
  above, where a floating-point number no longer holds every size, the error is that of a size at
  most 1024 bytes away.\<close>

theorem FormatBytes_accuracy:
  assumes "b < 2 ^ 63"
  shows "(b < 2 ^ 10 \<longrightarrow> FormatBytes b = show_int b @ str '' B'') \<and>
    (2 ^ 10 \<le> b \<longrightarrow> (\<exists>q r k unit. FormatBytes b = show_nat q @ 46 # pad0 2 r @ unit \<and> r < 100 \<and> length (pad0 2 r) = 2 \<and>
      (k, unit) \<in> {(10, str '' KB''), (20, str '' MB''), (30, str '' GB'')} \<and>
      2 ^ k \<le> b \<and> (k < 30 \<longrightarrow> b < 2 ^ (k + 10)) \<and>
      \<bar>int (100 * q + r) * 2 ^ k - 100 * b\<bar> \<le> 2 ^ (k - 1) + (if b < 2 ^ 53 then 0 else 100 * 2 ^ 10)))"
proof (cases "b < 2 ^ 10")
  case True
  then show ?thesis by (simp add: FormatBytes_def)
next
  case False
  obtain k :: nat and unit where k: "(k, unit) \<in> {(10, str '' KB''), (20, str '' MB''), (30, str '' GB'')}"
    "2 ^ k \<le> b" "k < 30 \<longrightarrow> b < 2 ^ (k + 10)" "FormatBytes b = fmt_fixed 2 (fl (fl (of_int b) / 2 ^ k)) @ unit"
  proof (cases "b \<ge> 2 ^ 30")
    case True
    then show thesis by (intro that [of 30 "str '' GB''"]) (simp_all add: FormatBytes_def)
  next
    case False
    then show thesis using \<open>\<not> b < 2 ^ 10\<close>
      by (cases "b \<ge> 2 ^ 20")
        (auto intro: that [of 20 "str '' MB''"] that [of 10 "str '' KB''"] simp: FormatBytes_def)
  qed
  let ?B = "fl (of_int b) :: rat"
  define err :: rat where "err = (if b < 2 ^ 53 then 0 else 2 ^ 10)"
  have pos: "0 \<le> (of_int b :: rat)" using False by simp
  have close: "\<bar>?B - of_int b\<bar> \<le> err"
  proof (cases "b < 2 ^ 53")
    case True
    then show ?thesis using False by (simp add: err_def)
  next
    case big: False
    have "(of_int b :: rat) \<le> 2 ^ 63" using assms of_int_le_iff [of b "2 ^ 63"] by simp
    then have "\<bar>of_int b :: rat\<bar> / 2 ^ 53 \<le> 2 ^ 10" using pos by simp
    then show ?thesis using fl_error [of "of_int b"] big by (simp add: err_def)
  qed
  have "fl (?B / 2 ^ k) = ?B / 2 ^ k"
    using fl_scale [OF pos, of "- int k"] by (simp add: power_int_minus power_int_of_nat divide_inverse)
  moreover have "0 \<le> ?B / 2 ^ k" using fl_nonneg [OF pos] by simp
  note fmt_fixed_2 [OF this]
  ultimately obtain q r where qr: "fmt_fixed 2 (fl (?B / 2 ^ k)) = show_nat q @ 46 # pad0 2 r"
    "r < 100" "length (pad0 2 r) = 2" "\<bar>of_nat (100 * q + r) - 100 * (?B / 2 ^ k)\<bar> \<le> 1 / 2"
    by auto
  have "\<bar>of_nat (100 * q + r) * 2 ^ k - 100 * ?B\<bar> = \<bar>of_nat (100 * q + r) - 100 * (?B / 2 ^ k)\<bar> * 2 ^ k"
  proof -
    have "of_nat (100 * q + r) * 2 ^ k - 100 * ?B = (of_nat (100 * q + r) - 100 * (?B / 2 ^ k)) * 2 ^ k"
      by (simp add: left_diff_distrib)
    then show ?thesis by (simp only: abs_mult power_abs abs_numeral)
  qed
  also have "\<dots> \<le> 1 / 2 * 2 ^ k" using qr(4) by (intro mult_right_mono) auto
  also have "\<dots> = 2 ^ (k - 1)" using k(1) by auto
  finally have "\<bar>of_nat (100 * q + r) * 2 ^ k - 100 * of_int b\<bar> \<le> (2 ^ (k - 1) + 100 * err :: rat)"
    using close by linarith
  then have "of_int \<bar>int (100 * q + r) * 2 ^ k - 100 * b\<bar> \<le>
      (of_int (2 ^ (k - 1) + (if b < 2 ^ 53 then 0 else 100 * 2 ^ 10)) :: rat)"
    by (simp add: err_def split: if_splits)
  then have "\<bar>int (100 * q + r) * 2 ^ k - 100 * b\<bar> \<le> 2 ^ (k - 1) + (if b < 2 ^ 53 then 0 else 100 * 2 ^ 10)"
    unfolding of_int_le_iff .
  with k qr False show ?thesis
    by (intro conjI impI exI [of _ q] exI [of _ r] exI [of _ k] exI [of _ unit]) simp_all
qed

theorem FormatBytes_accuracy_witness:
  "FormatBytes 1023 = show_int 1023 @ str '' B'' \<and>
    (\<exists>q r k. FormatBytes 1572864 = show_nat q @ 46 # pad0 2 r @ str '' MB'' \<and> int (100 * q + r) = 150 \<and> k = (20 :: nat))"
proof -
  have "FormatBytes 1023 = show_int 1023 @ str '' B''" using FormatBytes_accuracy [of 1023] by simp
  moreover obtain q r k unit where w: "FormatBytes 1572864 = show_nat q @ 46 # pad0 2 r @ unit"
    "(k, unit) \<in> {(10 :: nat, str '' KB''), (20, str '' MB''), (30, str '' GB'')}" "2 ^ k \<le> (1572864 :: int)"
    "k < 30 \<longrightarrow> (1572864 :: int) < 2 ^ (k + 10)" "\<bar>int (100 * q + r) * 2 ^ k - 100 * 1572864\<bar> \<le> 2 ^ (k - 1)"
    using FormatBytes_accuracy [of 1572864] by auto
  then have "k = 20" "unit = str '' MB''" by auto
  with w(1,5) have "\<exists>q r k. FormatBytes 1572864 = show_nat q @ 46 # pad0 2 r @ str '' MB'' \<and>
      int (100 * q + r) = 150 \<and> k = (20 :: nat)"
    by (intro exI [of _ q] exI [of _ r] exI [of _ 20]) auto
  ultimately show ?thesis by blast
qed

section \<open>Where a figure misleads\<close>

text \<open>Rounding happens after the choice of the unit, and the percentage reaches 100.0 before the end.\<close>

lemma fmt_fixed_rne:
  "rne (\<bar>x\<bar> * 10 ^ N) = int n \<Longrightarrow> \<not> x < 0 \<Longrightarrow>
    fmt_fixed N x = show_nat (n div 10 ^ N) @ (if N = 0 then [] else 46 # pad0 N (n mod 10 ^ N))"
  by (simp add: fmt_fixed_def Let_def)

lemma round_up_unit: "FormatBytes 1048575 = str ''1024.00 KB''"
proof -
  have "FormatBytes 1048575 = fmt_fixed 2 (fl (fl (of_int 1048575) / 2 ^ 10)) @ str '' KB''"
    by (simp add: FormatBytes_def)
  moreover have "rne (\<bar>fl (fl (of_int 1048575) / 2 ^ 10)\<bar> * 10 ^ 2) = 102400" "\<not> fl (fl (of_int 1048575) / 2 ^ 10) < 0"
    by code_simp+
  then have "fmt_fixed 2 (fl (fl (of_int 1048575) / 2 ^ 10)) = show_nat (102400 div 10 ^ 2) @ 46 # pad0 2 (102400 mod 10 ^ 2)"
    by (subst fmt_fixed_rne [where n = 102400]) (simp_all only: of_nat_numeral, simp_all)
  ultimately show ?thesis by (simp add: show_nat.simps pad0_def str_def)
qed

lemma early_hundred:
  "fmt_fixed 1 (fl (Progress_of \<lparr>TotalPieces = 10000, Downloaded = 9999, TotalBytes = 0, DownloadedBytes = 0\<rparr> * 100)) = str ''100.0''"
    (is "fmt_fixed 1 ?x = _")
proof -
  have "rne (\<bar>?x\<bar> * 10 ^ 1) = 1000" "\<not> ?x < 0" by code_simp+
  then have "fmt_fixed 1 ?x = show_nat (1000 div 10 ^ 1) @ 46 # pad0 1 (1000 mod 10 ^ 1)"
    by (subst fmt_fixed_rne [where n = 1000]) (simp_all only: of_nat_numeral, simp_all)
  then show ?thesis by (simp add: show_nat.simps pad0_def str_def)
qed

end
