(* ===== verification/Program.thy ===== *)
theory Program
  imports Torrent Display
begin

text \<open>
  The program as a whole (\<^verbatim>\<open>main\<close> and \<^verbatim>\<open>run\<close> of
  \<^verbatim>\<open>main.go\<close>): from the command line to the exit status, what is on the
  terminal and what is on disk.
\<close>

section \<open>What is printed\<close>

text \<open>The name that the link gives, or the start of its hash.\<close>

definition link_name :: "magnet \<Rightarrow> bytes" where
  "link_name m = (if m_Name m = [] then take 12 (HexHash m) else m_Name m)"

definition banner :: "magnet \<Rightarrow> error + bytes" where
  "banner m =
     (case TruncateName (link_name m) 50 of Inl e \<Rightarrow> Inl e
         | Inr short \<Rightarrow>
             Inr (str ''amish - '' @ short @ [10] @ str ''hash:     '' @ HexHash m @ [10] @
                  str ''trackers: '' @ show_int (int (length (m_Trackers m))) @ [10, 10]))"

lemma banner_ok: "\<exists>b. banner m = Inr b"
  by (simp add: banner_def TruncateName_def split: sum.split)

definition torrent_line :: "info \<Rightarrow> bytes" where
  "torrent_line info =
     [10] @ i_Name info @ str '' ('' @ show_int (NumPieces info) @ str '' pieces, '' @
     FormatBytes (TotalLength info) @ str '')'' @ [10, 10]"

section \<open>Runs\<close>

text \<open>The states of the download of a torrent, with the announce loop.\<close>

definition download_state :: "world \<Rightarrow> os \<Rightarrow> torrent \<Rightarrow> info \<Rightarrow> sys \<Rightarrow> bool" where
  "download_state w d t info s \<longleftrightarrow> t_Info t = Some info \<and>
     (\<exists>a. net_reachable info (m_InfoHash (t_Magnet t)) (t_PeerID t) (t_OutputDir t) d (t_peers t) (w_url w)
            (m_Trackers (t_Magnet t)) (s, a))"

text \<open>
  How the process ends: exit status, standard output and disk. The messages of the discovery
  (\<open>logs\<close>) and what the display sees on the way (\<open>sns\<close>) are not determined; its last
  line is written after the download has returned, while workers may still be running. An uncaught
  panic ends a Go process with status 2, also that of a peer that was asked for the metadata and
  was still at it when another had given it (\<open>left_behind\<close>).
\<close>

datatype outcome = Exit int bytes os

inductive run_program :: "world \<Rightarrow> os \<Rightarrow> bytes list \<Rightarrow> bytes option \<Rightarrow> outcome \<Rightarrow> bool"
  for w :: world and d :: os and args :: "bytes list" and cwd :: "bytes option" where
  usage: "args = [] \<Longrightarrow> run_program w d args cwd (Exit 1 [] d)"
| bad_link: "args = uri # rest \<Longrightarrow> Parse_magnet uri = Inl e \<Longrightarrow> run_program w d args cwd (Exit 1 [] d)"
| no_directory: "args = uri # rest \<Longrightarrow> Parse_magnet uri = Inr m \<Longrightarrow> banner m = Inr b \<Longrightarrow> cwd = None \<Longrightarrow>
    run_program w d args cwd (Exit 1 b d)"
| not_found: "args = uri # rest \<Longrightarrow> Parse_magnet uri = Inr m \<Longrightarrow> banner m = Inr b \<Longrightarrow> cwd = Some dir \<Longrightarrow>
    prepare w args cwd = Inl e \<Longrightarrow> run_program w d args cwd (Exit (if e = Panic then 2 else 1) (b @ logs) d)"
| ended: "args = uri # rest \<Longrightarrow> Parse_magnet uri = Inr m \<Longrightarrow> banner m = Inr b \<Longrightarrow> prepare w args cwd = Inr t \<Longrightarrow>
    download_state w d t info s \<Longrightarrow> sy_coll s = Finished res \<Longrightarrow> \<not> crashed (sy_sh s) \<Longrightarrow>
    TruncateName (link_name m) 30 = Inr short \<Longrightarrow>
    list_all (\<lambda>u. download_state w d t info u \<and> sy_coll u = Finished res) [s1, s2, s3, s4] \<Longrightarrow>
    display_loop short sns (look elapsed cols s1 s2 s3 s4) = Inr shown \<Longrightarrow>
    run_program w d args cwd
      (Exit (if res = None then 0 else 1)
        (b @ logs @ torrent_line info @ shown @ (if res = None then str ''done: '' @ i_Name info @ [10] else []))
        (snd (sy_disk s)))"
| panicked: "args = uri # rest \<Longrightarrow> Parse_magnet uri = Inr m \<Longrightarrow> banner m = Inr b \<Longrightarrow> prepare w args cwd = Inr t \<Longrightarrow>
    download_state w d t info s \<Longrightarrow> crashed (sy_sh s) \<Longrightarrow>
    run_program w d args cwd (Exit 2 (b @ logs @ torrent_line info @ shown) (snd (sy_disk s)))"
| left_behind: "args = uri # rest \<Longrightarrow> Parse_magnet uri = Inr m \<Longrightarrow> banner m = Inr b \<Longrightarrow> prepare w args cwd = Inr t \<Longrightarrow>
    download_state w d t info s \<Longrightarrow> p \<in> set (t_peers t) \<Longrightarrow>
    fetch_from_peer (w_dial w (Addr p)) (m_InfoHash (t_Magnet t)) (t_PeerID t) = Inl Panic \<Longrightarrow>
    run_program w d args cwd (Exit 2 (b @ printed) (snd (sy_disk s)))"

section \<open>Exit status 0\<close>

text \<open>C1. The whole program, from the command line to the disk. Suppose that the metadata it gets
  has consistent lengths, gives every file a path of its own, and that none of these files exists
  before (\<open>torrent_ok\<close>). When the program exits with status 0, the argument is a magnet link
  whose info hash is the SHA-1 of an info dictionary; there is data of which every piece has the
  hash that dictionary lists, and every file of the torrent below the working directory that is not
  empty holds exactly its part of that data; no path that is not a file of the torrent has changed;
  and the last thing printed is that the torrent of that name is done; whatever trackers, DHT
  nodes and peers sent on the way, in whatever order, and however many peers were found.\<close>

theorem program_correct:
  assumes "run_program w d args cwd (Exit 0 out d')"
    and "\<And>t info. prepare w args cwd = Inr t \<Longrightarrow> t_Info t = Some info \<Longrightarrow> torrent_ok info (t_OutputDir t) d"
  shows "\<exists>uri rest dir m t dict info whole. args = uri # rest \<and> cwd = Some dir \<and> Parse_magnet uri = Inr m \<and>
    prepare w args cwd = Inr t \<and> t_Info t = Some info \<and>
    sha1 dict = m_InfoHash m \<and> ParseUnverified dict = Inr info \<and> int (length whole) = TotalLength info \<and>
    (\<forall>i < length (i_Pieces info). sha1 (take (nat (PieceSize info (int i)))
       (drop (i * nat (i_PieceLength info)) whole)) = i_Pieces info ! i) \<and>
    (\<forall>(p, c)\<in>set (file_contents (fileList info dir) whole). c \<noteq> [] \<longrightarrow> dk d' p = Some c) \<and>
    (\<forall>p. p \<notin> fe_Path ` set (fileList info dir) \<longrightarrow> dk d' p = dk d p) \<and>
    (\<exists>front. out = front @ str ''done: '' @ i_Name info @ [10])"
  using assms(1)
proof (cases rule: run_program.cases)
  case (ended uri rest m b t info s res short s1 s2 s3 s4 sns elapsed cols shown logs)
  then have res: "res = None" by (cases res) simp_all
  obtain dir where dir: "cwd = Some dir" using ended(7) by (auto simp: prepare_def ended(4,5) split: option.splits)
  obtain a where i: "t_Info t = Some info"
    and net: "net_reachable info (m_InfoHash (t_Magnet t)) (t_PeerID t) (t_OutputDir t) d (t_peers t) (w_url w)
      (m_Trackers (t_Magnet t)) (s, a)"
    using ended(8) by (auto simp: download_state_def)
  have "downloading d t s" using net_reachable_inv [OF net] ended(10) i by (auto simp: downloading_def)
  moreover have out: "t_OutputDir t = dir"
    using ended(7) dir by (auto simp: prepare_def DiscoverAndFetchMetadata_def New_torrent_def Let_def
        split: list.splits sum.splits prod.splits option.splits)
  ultimately obtain m' dict whole where M: "Parse_magnet uri = Inr m'" "sha1 dict = m_InfoHash m'" "ParseUnverified dict = Inr info"
    "int (length whole) = TotalLength info"
    "\<forall>i < length (i_Pieces info). sha1 (take (nat (PieceSize info (int i)))
       (drop (i * nat (i_PieceLength info)) whole)) = i_Pieces info ! i"
    "\<forall>(p, c)\<in>set (file_contents (fileList info dir) whole). c \<noteq> [] \<longrightarrow> dk (snd (sy_disk s)) p = Some c"
    "\<forall>p. p \<notin> fe_Path ` set (fileList info dir) \<longrightarrow> dk (snd (sy_disk s)) p = dk d p"
    using magnet_to_disk [of w uri rest dir t d s] ended(4,7,9,10) dir res i out assms(2) by auto
  have "out = (b @ logs @ torrent_line info @ shown) @ str ''done: '' @ i_Name info @ [10]"
    using ended(2) res by simp
  then have front: "\<exists>front. out = front @ str ''done: '' @ i_Name info @ [10]" by blast
  have "m' = m" using M(1) ended(5) by simp
  then have hash: "sha1 dict = m_InfoHash m" using M(2) by simp
  show ?thesis
    by (rule exI [of _ uri], rule exI [of _ rest], rule exI [of _ dir], rule exI [of _ m], rule exI [of _ t],
        rule exI [of _ dict], rule exI [of _ info], rule exI [of _ whole], intro conjI)
      (rule ended(4) dir ended(5) ended(7) i hash M(3) M(4) M(5) M(6) [folded ended(3)] M(7) [folded ended(3)] front)+
qed (auto split: if_splits)

section \<open>A run of the program\<close>

lemma sample_run:
  "\<exists>out d'. run_program sample_world sample_os [sample_uri] (Some (str ''/d'')) (Exit 0 out d')"
proof -
  let ?t = "sample_torrent\<lparr>t_peers := [swarm_peer], t_Info := Some swarm_info\<rparr>"
  have "w_random sample_world = []" by (simp add: sample_world_def)
  then have p: "prepare sample_world [sample_uri] (Some (str ''/d'')) = Inr ?t"
    by (simp add: prepare_def sample_link sample_discover)
  obtain s where s: "swarm_reach (sha1 dict_bytes) (t_PeerID ?t) s" "\<not> crashed (sy_sh s)" "sy_coll s = Finished None"
    using swarm_run [of "sha1 dict_bytes" "t_PeerID ?t"] by auto
  have "m_InfoHash (t_Magnet ?t) = sha1 dict_bytes" "t_OutputDir ?t = str ''/d''"
    by (simp_all add: New_torrent_def sample_magnet_def)
  then have st: "download_state sample_world sample_os ?t swarm_info s"
    using run_net [OF s(1), of "w_url sample_world" "m_Trackers (t_Magnet ?t)"] by (auto simp: download_state_def)
  obtain b where b: "banner sample_magnet = Inr b" using banner_ok by blast
  obtain short where short: "TruncateName (link_name sample_magnet) 30 = Inr short" using TruncateName_30 by blast
  obtain shown where shown: "display_loop short [] (look 1 None s s s s) = Inr shown" using display_ends by blast
  have "list_all (\<lambda>u. download_state sample_world sample_os ?t swarm_info u \<and> sy_coll u = Finished None) [s, s, s, s]"
    using st s(3) by simp
  from run_program.ended [OF refl sample_link b p st s(3,2) short this shown] show ?thesis by simp blast
qed

theorem program_correct_witness:
  "\<exists>out d' front. run_program sample_world sample_os [sample_uri] (Some (str ''/d'')) (Exit 0 out d') \<and>
    out = front @ str ''done: '' @ i_Name swarm_info @ [10] \<and> dk d' (str ''/d/a/b'') \<noteq> None"
proof -
  obtain out d' where r: "run_program sample_world sample_os [sample_uri] (Some (str ''/d'')) (Exit 0 out d')"
    using sample_run by blast
  let ?t = "sample_torrent\<lparr>t_peers := [swarm_peer], t_Info := Some swarm_info\<rparr>"
  have "w_random sample_world = []" by (simp add: sample_world_def)
  then have p: "prepare sample_world [sample_uri] (Some (str ''/d'')) = Inr ?t"
    by (simp add: prepare_def sample_link sample_discover)
  have ok: "torrent_ok info (t_OutputDir t) sample_os"
    if "prepare sample_world [sample_uri] (Some (str ''/d'')) = Inr t" "t_Info t = Some info" for t info
    using that p swarm_ok by (auto simp: New_torrent_def)
  obtain front whole where w: "out = front @ str ''done: '' @ i_Name swarm_info @ [10]" "int (length whole) = TotalLength swarm_info"
    "\<forall>(p, c)\<in>set (file_contents (fileList swarm_info (str ''/d'')) whole). c \<noteq> [] \<longrightarrow> dk d' p = Some c"
    using program_correct [OF r ok] p by auto
  have "TotalLength swarm_info = 5" by (simp add: swarm_info_def sample_info_def TotalLength_def wrap64_def)
  then have "take 3 whole \<noteq> []" using w(2) by auto
  moreover have "(str ''/d/a/b'', take 3 whole) \<in> set (file_contents (fileList swarm_info (str ''/d'')) whole)"
    by (simp add: swarm_facts(5) sample_files)
  ultimately have "dk d' (str ''/d/a/b'') = Some (take 3 whole)" using w(3) by blast
  with r w(1) show ?thesis by auto
qed

end
