(* ===== verification/Spec2Isabelle.thy ===== *)
theory Spec2Isabelle
  imports Prelude Codec GoMap Bencode Message Conn Sha1 Metainfo Filepath Writer Endgame Piece Netaddr Metadata Session Download DownloadInv DownloadProps DownloadEnds DownloadSafe DownloadSeed DownloadRun Magnet Tracker Progress Dht Lookup Torrent Floats Display Program
begin

text \<open>
  Verification of \<^verbatim>\<open>amish\<close>, a command-line BitTorrent client: it takes a magnet
  link, finds peers, fetches the metadata, downloads the files into the working directory and
  shows its progress. Every function under \<^verbatim>\<open>src/\<close> that computes something is
  translated from its source; the theorem \<open>Program.program_correct\<close> is about all of them
  together.

  \<^bold>\<open>How the parts interact.\<close> \<^verbatim>\<open>main.run\<close> parses the link
  (\<^verbatim>\<open>magnet\<close>) and calls \<^verbatim>\<open>Torrent.DiscoverAndFetchMetadata\<close>,
  which asks the trackers (\<^verbatim>\<open>tracker\<close>) and the DHT (\<^verbatim>\<open>dht\<close>, both
  speaking \<^verbatim>\<open>bencode\<close>) for addresses (\<^verbatim>\<open>netaddr\<close>), merges them and
  fetches the info dictionary from the peers (\<^verbatim>\<open>torrent/metadata.go\<close> over
  \<^verbatim>\<open>peer\<close>); \<^verbatim>\<open>metainfo\<close> parses it once its hash is right. Then
  \<^verbatim>\<open>Torrent.Download\<close> starts workers for the peers (\<^verbatim>\<open>peer_session.go\<close>),
  which take pieces from a queue or, for the last pieces, from the endgame tracker
  (\<^verbatim>\<open>endgame.go\<close>), download them (\<^verbatim>\<open>piece.go\<close>) and send them to one
  collector (\<^verbatim>\<open>downloadPieces\<close>), which writes them (\<^verbatim>\<open>writer.go\<close>) and
  counts. A loop beside it announces again and offers new peers; the display
  (\<^verbatim>\<open>display\<close>) reads the counters.
\<close>

text \<open>
  \<^bold>\<open>The theories.\<close> Each models the file named and holds its lemmas; a definition has the name
  of the Go function where that is free (\<open>Parse_magnet\<close>, \<open>New_client\<close> and such are the
  functions called \<^verbatim>\<open>Parse\<close> and \<^verbatim>\<open>New\<close> there).

    \<^item> \<open>Prelude\<close>: bytes, \<open>wrap64\<close> (Go's \<^verbatim>\<open>int\<close>), big-endian numbers, decimal text,
      the sentinel errors of all packages as the datatype \<open>error\<close>, whose value \<open>Panic\<close> is a panic.
    \<^item> \<open>Codec\<close>, \<open>GoMap\<close>: the interfaces several parts share, as locales: fixed-width records,
      self-delimiting encodings, maps. They are interpreted by the integers, piece hashes,
      compact peers and nodes, messages, bencoded values, and by the map of this development;
      \<open>Conn\<close>, \<open>Magnet\<close> and \<open>Writer\<close> have three more (sets of pieces, escaping in queries, a store
      of pieces), interpreted by the bitfield, the two escapings and \<open>WritePiece\<close>.
    \<^item> \<open>Bencode\<close> (\<^verbatim>\<open>bencode/bencode.go\<close>); \<open>Message\<close> and \<open>Conn\<close>
      (\<^verbatim>\<open>peer/message.go\<close>, \<^verbatim>\<open>peer/conn.go\<close>); \<open>Metainfo\<close>
      (\<^verbatim>\<open>metainfo/metainfo.go\<close>); \<open>Netaddr\<close> (\<^verbatim>\<open>netaddr/peer.go\<close>);
      \<open>Magnet\<close> (\<^verbatim>\<open>magnet/magnet.go\<close>); \<open>Tracker\<close> (\<^verbatim>\<open>tracker/tracker.go\<close>);
      \<open>Dht\<close> and \<open>Lookup\<close> (\<^verbatim>\<open>dht/dht.go\<close>); \<open>Display\<close>
      (\<^verbatim>\<open>display/display.go\<close> and the figures of \<^verbatim>\<open>Stats\<close> it reads).
    \<^item> \<open>Writer\<close>, \<open>Endgame\<close>, \<open>Piece\<close>, \<open>Metadata\<close>, \<open>Session\<close>: \<^verbatim>\<open>writer.go\<close>,
      \<^verbatim>\<open>endgame.go\<close>, \<^verbatim>\<open>piece.go\<close>, \<^verbatim>\<open>metadata.go\<close> and
      \<^verbatim>\<open>peer_session.go\<close> of the package \<^verbatim>\<open>torrent\<close>.
    \<^item> \<open>Download\<close>, \<open>Progress\<close>, \<open>Torrent\<close>: \<^verbatim>\<open>torrent/torrent.go\<close>, in order the
      download of the pieces, what runs beside it, and what comes before it.
    \<^item> \<open>Program\<close>: \<^verbatim>\<open>main.go\<close>.
    \<^item> \<open>Sha1\<close>, \<open>Filepath\<close>, \<open>Floats\<close>: what the program uses of the standard library's SHA-1, path
      functions and floating-point numbers. Smaller pieces of the library (text of IP addresses,
      query strings, hexadecimal digits) stand where they are used.
    \<^item> \<open>DownloadInv\<close>, \<open>DownloadProps\<close>, \<open>DownloadEnds\<close>, \<open>DownloadSafe\<close>, \<open>DownloadSeed\<close>, \<open>DownloadRun\<close>: the
      proofs about the download: invariants, safety and progress, termination, absence of panics,
      that every download can finish, and concrete runs.
\<close>

text \<open>
  \<^bold>\<open>How the code is represented.\<close>

    \<^item> A struct is a record, a slice of bytes or a string a list of bytes, a map the list of its
      entries in key order. \<^verbatim>\<open>int\<close> and \<^verbatim>\<open>int64\<close> are integers with the
      wrap-around of every operation written out where it can occur, fixed-width unsigned integers
      are words. A result with an error is a sum, a method that changes its receiver returns the
      new one. The text of wrapped errors is dropped, as the code compares only the sentinels.
    \<^item> Loops are recursive functions with termination proofs; nothing has fuel. A loop that reads
      from a connection ends because what the connection still delivers gets shorter.
    \<^item> A connection (\<open>conn\<close>) is the finite list of bytes the other side delivers before the stream
      ends or the deadline passes, the bytes written, and how many more writes succeed. Any
      behaviour of a peer is a choice of these, so the theorems hold for all of them. The disk
      (\<open>os\<close>) is the contents of the regular files, which calls fail, and after how many bytes a
      write fails. Datagrams and HTTP bodies
      are arguments, for the whole program collected in the record \<open>world\<close>.
    \<^item> The goroutines of a download are a step relation. A worker is at one of the points of \<open>wpc\<close>,
      between which it shares nothing: a step is what it does from one operation on a channel,
      the endgame tracker or its connection to the next. The collector is at one of the points of
      \<open>collector\<close>: taking a result, telling the tracker, writing, the two additions to
      \<^verbatim>\<open>Stats\<close> and the decision how to go on are steps of their own, and so are the end of
      \<^verbatim>\<open>wg.Wait\<close> (\<open>sy_waited\<close>) and the closing of the result channel after it. The state \<open>sys\<close> is all workers, what they
      share (\<open>shared\<close>: the queue \<^verbatim>\<open>workCh\<close>, whether \<^verbatim>\<open>doneCh\<close> and
      \<^verbatim>\<open>endgameCh\<close> are closed, the tracker, the live sessions), the collector, the
      map \<^verbatim>\<open>completed\<close>, the writer with the disk, and \<^verbatim>\<open>Stats\<close>.
      \<open>reachable\<close> has every interleaving of \<open>dl_step\<close> and of \<open>spawn_step\<close>, a peer found later;
      \<open>net_reachable\<close> has the announce loop and the channel of new peers in detail and is proved to
      do nothing that \<open>reachable\<close> does not allow. \<open>crashed\<close> stands for a panic of any goroutine of the
      download. The display reads its figures one after the other, so \<open>look\<close> takes a state for each.
      The peers asked for metadata in vain go on when one has given it; that they may still panic is
      a way for the whole program to end (\<open>left_behind\<close>).
    \<^item> The handlers of the DHT node run under its mutex and are one step each; the order in which a
      map is iterated, the transaction ids and the datagrams arriving during a query are arguments.
    \<^item> A \<^verbatim>\<open>float64\<close> is a rational number rounded to 53 bits after every operation.
\<close>

text \<open>
  \<^bold>\<open>What is proved.\<close> The whole program: for metadata with consistent lengths and distinct paths, and
  files that did not exist, exit status 0 means that the files that are not empty are there, with
  every piece right and nothing else touched. The download of such a torrent: no piece is lost or counted twice in any
  interleaving; a finished download is the torrent; with at least one piece it ends, does not panic
  and reports only true errors, and it can finish; the figures announced and displayed are those of
  the pieces on disk, but for the one piece the collector has just written and not counted yet. The
  formats: bencode, messages, handshakes, info dictionaries, compact peers, queries and magnet
  links are read back as written; truncated or foreign input is refused as documented. The
  writer refines an image of the torrent's data; the endgame tracker serves each piece in turn
  and completes it once; a piece, or the metadata, is taken only with its hash, and is obtained
  from a peer that sends it, in any order. The DHT answers every query with the right kind
  of reply, accepts only responses to its own queries, and two nodes understand each other.

  \<^bold>\<open>Bounds.\<close> \<open>max_alloc\<close>, 2^48 bytes, is what \<^verbatim>\<open>make\<close> can allocate before it
  panics; only whether it panics depends on it. The 2048 bytes
  that are read of a UDP tracker's answer hold 338 peers. \<open>layout_ok\<close> asks for lengths that are not negative,
  as many hashes as pieces, and a total below 2^63; the parser does not check this and
  \<open>negative_piece_size\<close> shows what follows. \<open>torrent_ok\<close> adds that the paths are distinct and not
  there before. Statements about the counters need fewer than 2^31 pieces (they are
  \<^verbatim>\<open>int32\<close>) and \<open>no_panic\<close> fewer than 2^63 steps (the offset of the endgame tracker is an
  \<^verbatim>\<open>int\<close>). The float model has neither infinities nor subnormal numbers, which counts,
  sizes and times do not reach. Termination of the download is stated without peers found later,
  since each of them brings new work. \<open>download_can_finish\<close> needs piece indices and offsets that fit in
  the 32 bits the messages have for them.

  \<^bold>\<open>Deviations found.\<close> Lemmas named for what they show hold the inputs at which the code does
  not do what its comments or the protocols say: \<open>decode_leading_zero\<close>, \<open>decode_length_panic\<close>,
  \<open>recv_packet_panic\<close>, \<open>metadata_size_panic\<close>, \<open>negative_piece_size\<close>, \<open>path_traversal\<close>,
  \<open>empty_file_missing\<close>, \<open>zero_pieces_hang\<close>, \<open>late_worker_panics\<close>, \<open>write_error_leaks\<close>,
  \<open>decodePeers_bep5\<close>, \<open>udp_foreign_answer\<close>, \<open>dict_peer_host_name\<close>, \<open>short_base32_accepted\<close>,
  \<open>round_up_unit\<close>, \<open>early_hundred\<close>. Peers that a UDP tracker sends beyond the first 338 are dropped.

  \<^bold>\<open>Not modelled.\<close> Sockets, HTTP, \<^verbatim>\<open>url.Parse\<close>, random numbers and the
  operating system are arguments. Sleeps, tickers and deadlines only delay: a deadline ends what a
  connection delivers, a ticker is the list of moments at which it fired. The wording of log and
  error messages, the accessors \<^verbatim>\<open>ID\<close> and \<^verbatim>\<open>Addr\<close> of the DHT client,
  declarations of channels, pools and sentinel errors have no content of their own. A buffer from
  the pool is an argument with arbitrary old bytes. Where the code slices a buffer beyond its length but within its capacity, the model
  panics; only \<^verbatim>\<open>WritePiece\<close> could, for lengths that are not consistent. Data races are
  not visible in the model: what a mutex or an atomic protects is one step.
\<close>

end
